(* ===== verification/SMC_Prelude.thy ===== *)
theory SMC_Prelude
  imports Main "HOL-Library.Word" "HOL-Library.Monad_Syntax"
begin

text \<open>
  Shared vocabulary of the development.

  \<^item> Machine integers: the modelled system is a 32-bit ARM machine, so \<open>int\<close> and
    \<open>ulong_t\<close> (\<open>unsigned long\<close>) are both \<open>32 word\<close>.
  \<^item> Pointers are natural numbers and \<open>0\<close> is \<open>NULL\<close>.
  \<^item> A C++ heap of objects of one type is a map from addresses to objects together with the
    next address \<open>new\<close> hands out. Reading or writing an address that is not allocated has
    no outcome (\<^const>\<open>None\<close>): every use of an invalid pointer is visible in the model.
  \<^item> \<open>lpath\<close> describes a singly linked chain of objects.
\<close>

named_theorems heap_simps \<open>rewrite rules for heaps of objects\<close>
named_theorems path_simps \<open>rewrite rules for linked chains\<close>

type_synonym u32 = "32 word"
type_synonym ptr = nat

lemma u32_le_max [simp]: "(p::u32) \<le> 0xFFFFFFFF"
proof -
  have "(0xFFFFFFFF::u32) = -1" by simp
  then show ?thesis by (simp only: word_order.extremum)
qed

lemma sint_u32_of_nat: "n < 2 ^ 31 \<Longrightarrow> sint (of_nat n :: u32) = int n"
  by (simp add: signed_of_nat signed_take_bit_int_eq_self)

subsection \<open>Heaps\<close>

record 'n heap =
  cells :: "ptr \<rightharpoonup> 'n"
  brk :: ptr

definition h_new :: "'n \<Rightarrow> 'n heap \<Rightarrow> ptr \<times> 'n heap" where
  "h_new v h = (brk h, h\<lparr>cells := (cells h)(brk h \<mapsto> v), brk := Suc (brk h)\<rparr>)"

definition h_get :: "'n heap \<Rightarrow> ptr \<Rightarrow> 'n option" where
  "h_get h p = cells h p"

definition h_set :: "ptr \<Rightarrow> 'n \<Rightarrow> 'n heap \<Rightarrow> 'n heap option" where
  "h_set p v h = (case cells h p of None \<Rightarrow> None | Some _ \<Rightarrow> Some (h\<lparr>cells := (cells h)(p \<mapsto> v)\<rparr>))"

definition h_delete :: "ptr \<Rightarrow> 'n heap \<Rightarrow> 'n heap option" where
  "h_delete p h = (case cells h p of None \<Rightarrow> None | Some _ \<Rightarrow> Some (h\<lparr>cells := (cells h)(p := None)\<rparr>))"

definition h_empty :: "'n heap" where
  "h_empty = \<lparr>cells = Map.empty, brk = 1\<rparr>"

definition heap_ok :: "'n heap \<Rightarrow> bool" where
  "heap_ok h \<longleftrightarrow> 0 < brk h \<and> (\<forall>a \<in> dom (cells h). 0 < a \<and> a < brk h)"

lemma heap_ok_empty [simp]: "heap_ok h_empty"
  by (simp add: heap_ok_def h_empty_def)

lemma heap_ok_brk [heap_simps]: "heap_ok h \<Longrightarrow> cells h (brk h) = None"
  by (auto simp: heap_ok_def domIff)

lemma heap_ok_brk_pos [heap_simps]: "heap_ok h \<Longrightarrow> 0 < brk h"
  by (simp add: heap_ok_def)

lemma heap_ok_null [heap_simps]: "heap_ok h \<Longrightarrow> cells h 0 = None"
  by (auto simp: heap_ok_def domIff)

lemma heap_ok_new [intro]: "heap_ok h \<Longrightarrow> h_new v h = (p, h') \<Longrightarrow> heap_ok h'"
  by (auto simp: heap_ok_def h_new_def less_Suc_eq)

lemma heap_ok_upd [intro]: "heap_ok h \<Longrightarrow> cells h p \<noteq> None \<Longrightarrow> heap_ok (h\<lparr>cells := (cells h)(p \<mapsto> v)\<rparr>)"
  by (auto simp: heap_ok_def)

lemma heap_ok_del [intro]: "heap_ok h \<Longrightarrow> heap_ok (h\<lparr>cells := (cells h)(p := None)\<rparr>)"
  by (auto simp: heap_ok_def split: if_splits)

subsection \<open>Linked chains\<close>

fun lpath :: "('p::zero \<Rightarrow> 'p) \<Rightarrow> 'p \<Rightarrow> 'p list \<Rightarrow> 'p \<Rightarrow> bool" where
  "lpath nx p [] q \<longleftrightarrow> p = q"
| "lpath nx p (a # as) q \<longleftrightarrow> p = a \<and> a \<noteq> 0 \<and> lpath nx (nx a) as q"

lemma lpath_append [path_simps]:
  "lpath nx p (as @ bs) q \<longleftrightarrow> (\<exists>m. lpath nx p as m \<and> lpath nx m bs q)"
  by (induction as arbitrary: p) auto

lemma lpath_null [path_simps]: "lpath nx 0 as 0 \<longleftrightarrow> as = []"
  by (cases as) auto

lemma lpath_cong: "(\<And>a. a \<in> set as \<Longrightarrow> nx a = nx' a) \<Longrightarrow> lpath nx p as q \<longleftrightarrow> lpath nx' p as q"
  by (induction as arbitrary: p) auto

lemma lpath_upd [path_simps]: "a \<notin> set as \<Longrightarrow> lpath (nx(a := v)) p as q \<longleftrightarrow> lpath nx p as q"
  by (rule lpath_cong) auto

lemma lpath_nonnull: "lpath nx p as q \<Longrightarrow> a \<in> set as \<Longrightarrow> a \<noteq> 0"
  by (induction as arbitrary: p) auto

lemma lpath_determ: "lpath nx p as 0 \<Longrightarrow> lpath nx p bs 0 \<Longrightarrow> as = bs"
proof (induction as arbitrary: p bs)
  case Nil
  then show ?case by (cases bs) auto
next
  case (Cons a as)
  then show ?case by (cases bs) auto
qed

lemma lpath_distinct: "lpath nx p as 0 \<Longrightarrow> distinct as"
proof (induction as arbitrary: p)
  case Nil
  then show ?case by simp
next
  case (Cons a as)
  have "a \<notin> set as"
  proof
    assume "a \<in> set as"
    then obtain us vs where as: "as = us @ a # vs" by (auto simp: in_set_conv_decomp)
    have "lpath nx a (a # vs) 0" using Cons.prems as by (auto simp: lpath_append)
    then have "a # vs = a # as" using Cons.prems lpath_determ by (metis lpath.simps(2))
    with as show False by simp
  qed
  with Cons show ?case by (metis distinct.simps(2) lpath.simps(2))
qed

text \<open>The chain as a list, for a bound on its length.\<close>

fun walk :: "nat \<Rightarrow> ('p::zero \<Rightarrow> 'p) \<Rightarrow> 'p \<Rightarrow> 'p list" where
  "walk 0 nx p = []"
| "walk (Suc n) nx p = (if p = 0 then [] else p # walk n nx (nx p))"

lemma walk_lpath: "lpath nx p as 0 \<Longrightarrow> length as \<le> n \<Longrightarrow> walk n nx p = as"
proof (induction as arbitrary: n p)
  case Nil
  then show ?case by (cases n) auto
next
  case (Cons a as)
  then show ?case by (cases n) auto
qed

lemma heap_ok_length: "heap_ok h \<Longrightarrow> set as \<subseteq> dom (cells h) \<Longrightarrow> distinct as \<Longrightarrow> length as \<le> brk h"
proof -
  assume ok: "heap_ok h" and sub: "set as \<subseteq> dom (cells h)" and d: "distinct as"
  have "set as \<subseteq> {..<brk h}" using ok sub by (auto simp: heap_ok_def)
  then have "card (set as) \<le> brk h" by (metis card_lessThan card_mono finite_lessThan)
  then show ?thesis using distinct_card [OF d] by simp
qed

end
