(* ===== verification/FC_Slots.thy ===== *)
theory FC_Slots
  imports SMC_Prelude "HOL-Library.Sublist"
begin

text \<open>
  Flat combining (\<open>SW/HOST/app/multithread_fc_q/FCQueue.hh\<close> and its four siblings): the
  publication list of request slots, the combiner's traversal of it, and the operation a
  thread calls. The classes share this code word for word and differ in the body that
  executes one request; here that body is the argument \<open>exec\<close>, and each class supplies its
  own (theories \<open>FC_Queue\<close>, \<open>FC_ArrayQueue\<close>, \<open>FC_SkipList\<close>).

  \<open>seq_object\<close> is the contract between the traversal and a body: \<open>exec\<close> implements one
  step of a sequential object. Its lemmas say that a combiner pass runs the pending requests
  of the publication list one after the other, hands every slot its own result, leaves no
  request pending, and unlinks only idle slots; and that an operation on a quiescent object
  is one step of the sequential object.
\<close>

subsection \<open>Slots and the publication list\<close>

record slot_info =
  is_request_valid :: bool
  operation :: u32
  parameter :: u32
  ret_val :: u32
  op_timestamp :: u32
  is_slot_linked :: bool
  next_slot :: ptr

definition SlotInfo :: slot_info where
  "SlotInfo = \<lparr>is_request_valid = False, operation = 0, parameter = 0, ret_val = 0,
               op_timestamp = 0, is_slot_linked = False, next_slot = 0\<rparr>"

text \<open>What the combiner reads and writes: the slots, the operation counter and the data.\<close>

record 'd comb_state =
  slots :: "ptr \<Rightarrow> slot_info"
  operation_timestamp :: u32
  data :: 'd

text \<open>A flat-combining object adds the publication list's tail and the combiner's lock word.\<close>

record 'd fc_object = "'d comb_state" +
  tail_slot :: ptr
  combine_cas :: u32

type_synonym 'd exec_body = "'d \<Rightarrow> u32 \<Rightarrow> u32 \<Rightarrow> ('d \<times> u32) option"

text \<open>The two branches of the traversal: a served request, and an idle slot taken off the list.\<close>

definition serve_slot :: "ptr \<Rightarrow> u32 \<Rightarrow> 'd \<Rightarrow> ('d, 'm) comb_state_scheme \<Rightarrow> ('d, 'm) comb_state_scheme" where
  "serve_slot c r d s =
     s\<lparr>slots := (slots s)(c := (slots s c)\<lparr>ret_val := r, is_request_valid := False,
                                           op_timestamp := operation_timestamp s\<rparr>),
       data := d, operation_timestamp := operation_timestamp s + 1\<rparr>"

definition unlink_slot :: "ptr \<Rightarrow> ptr \<Rightarrow> ('d, 'm) comb_state_scheme \<Rightarrow> ('d, 'm) comb_state_scheme" where
  "unlink_slot c p s =
     s\<lparr>slots := (let sl = (slots s)(p := (slots s p)\<lparr>next_slot := next_slot (slots s c)\<rparr>)
                in sl(c := (sl c)\<lparr>is_slot_linked := False\<rparr>))\<rparr>"

text \<open>
  The traversal of \<open>flat_combine\<close>. \<open>thr\<close> is \<open>UNUSED_SLOT_THRESHOLD\<close>. The age of a slot is
  a difference of two \<open>int\<close>s and is compared as a signed value. \<^const>\<open>None\<close> is a body that
  used an invalid pointer, or a traversal that does not end.
\<close>

partial_function (option) combine_loop ::
  "int \<Rightarrow> 'd exec_body \<Rightarrow> ptr \<Rightarrow> ptr \<Rightarrow> ('d, 'm) comb_state_scheme \<Rightarrow> ('d, 'm) comb_state_scheme option" where
  "combine_loop thr exec cur prev s =
     (if cur = 0 then Some s
      else if is_request_valid (slots s cur) then
        (case exec (data s) (operation (slots s cur)) (parameter (slots s cur)) of
           None \<Rightarrow> None
         | Some (d, r) \<Rightarrow>
             combine_loop thr exec (next_slot (slots s cur)) cur (serve_slot cur r d s))
      else if cur \<noteq> prev \<and> thr < sint (operation_timestamp s - op_timestamp (slots s cur)) then
        combine_loop thr exec (next_slot (slots (unlink_slot cur prev s) prev)) prev
          (unlink_slot cur prev s)
      else combine_loop thr exec (next_slot (slots s cur)) cur s)"

definition flat_combine :: "int \<Rightarrow> 'd exec_body \<Rightarrow> 'd fc_object \<Rightarrow> 'd fc_object option" where
  "flat_combine thr exec s = combine_loop thr exec (tail_slot s) (tail_slot s) s"

text \<open>
  \<open>enq_slot\<close> with its compare-and-swap succeeding at the first attempt, as it does when no
  other thread touches the tail between the read and the swap.
\<close>

definition enq_slot :: "ptr \<Rightarrow> 'd fc_object \<Rightarrow> 'd fc_object" where
  "enq_slot slot s =
     s\<lparr>slots := (slots s)(slot := (slots s slot)\<lparr>is_slot_linked := True,
                   op_timestamp := operation_timestamp s, next_slot := tail_slot s\<rparr>),
       tail_slot := slot\<rparr>"

definition enq_if_unlinked :: "ptr \<Rightarrow> 'd fc_object \<Rightarrow> 'd fc_object" where
  "enq_if_unlinked slot s =
     (if \<not> is_slot_linked (slots s slot) \<and> is_request_valid (slots s slot) then enq_slot slot s else s)"

definition publish :: "u32 \<Rightarrow> u32 \<Rightarrow> ptr \<Rightarrow> 'd fc_object \<Rightarrow> 'd fc_object" where
  "publish op p slot s =
     s\<lparr>slots := (slots s)(slot := (slots s slot)\<lparr>operation := op, parameter := p,
                                                is_request_valid := True\<rparr>)\<rparr>"

text \<open>
  \<open>fc_operation\<close> run by one thread. The thread takes the combiner's lock (\<open>0\<close> to
  \<open>0xffff\<close>), links its slot again if it is off the list, combines, releases the lock and
  reads its result. When another thread holds the lock the code spins until that thread
  has served the request: alone it does not return, which is \<^const>\<open>None\<close>.
\<close>

definition fc_operation ::
  "int \<Rightarrow> 'd exec_body \<Rightarrow> u32 \<Rightarrow> u32 \<Rightarrow> ptr \<Rightarrow> 'd fc_object \<Rightarrow> ('d fc_object \<times> u32) option" where
  "fc_operation thr exec op p slot s =
     (let s1 = enq_if_unlinked slot (publish op p slot s)
      in if combine_cas s1 = 0 then
           (case flat_combine thr exec (enq_if_unlinked slot (s1\<lparr>combine_cas := 0xffff\<rparr>)) of
              None \<Rightarrow> None
            | Some s2 \<Rightarrow> Some (s2\<lparr>combine_cas := 0\<rparr>, ret_val (slots s2 slot)))
         else None)"

subsection \<open>Sequential runs\<close>

type_synonym 'a seq_spec = "'a \<Rightarrow> u32 \<Rightarrow> u32 \<Rightarrow> 'a \<times> u32"

fun run_spec :: "'a seq_spec \<Rightarrow> 'a \<Rightarrow> (u32 \<times> u32) list \<Rightarrow> 'a \<times> u32 list" where
  "run_spec f a [] = (a, [])"
| "run_spec f a ((op, p) # rs) =
     (let (a', r) = f a op p; (b, xs) = run_spec f a' rs in (b, r # xs))"

text \<open>Every request of a run meets its precondition in the state it is executed in.\<close>

fun run_pre :: "('a \<Rightarrow> u32 \<Rightarrow> u32 \<Rightarrow> bool) \<Rightarrow> 'a seq_spec \<Rightarrow> 'a \<Rightarrow> (u32 \<times> u32) list \<Rightarrow> bool" where
  "run_pre pre f a [] \<longleftrightarrow> True"
| "run_pre pre f a ((op, p) # rs) \<longleftrightarrow> pre a op p \<and> run_pre pre f (fst (f a op p)) rs"

definition pending :: "(ptr \<Rightarrow> slot_info) \<Rightarrow> ptr list \<Rightarrow> ptr list" where
  "pending sl xs = filter (\<lambda>x. is_request_valid (sl x)) xs"

definition requests :: "(ptr \<Rightarrow> slot_info) \<Rightarrow> ptr list \<Rightarrow> (u32 \<times> u32) list" where
  "requests sl xs = map (\<lambda>x. (operation (sl x), parameter (sl x))) (pending sl xs)"

definition slot_path :: "(ptr \<Rightarrow> slot_info) \<Rightarrow> ptr \<Rightarrow> ptr list \<Rightarrow> bool" where
  "slot_path sl p xs \<longleftrightarrow> lpath (\<lambda>x. next_slot (sl x)) p xs 0"

text \<open>
  What a combiner pass over the slots \<open>xs\<close> means for them: \<open>ys\<close> are the slots still on the
  list afterwards and \<open>rs\<close> the results of the pending requests, in list order. Every
  pending slot has its result and is idle; a slot leaves the list only if it had no request.
\<close>

definition served ::
  "(ptr \<Rightarrow> slot_info) \<Rightarrow> (ptr \<Rightarrow> slot_info) \<Rightarrow> ptr list \<Rightarrow> ptr list \<Rightarrow> u32 list \<Rightarrow> bool" where
  "served sl sl' xs ys rs \<longleftrightarrow>
     subseq ys xs \<and>
     (\<forall>x \<in> set xs. \<not> is_request_valid (sl' x) \<and>
        (is_slot_linked (sl' x) \<longleftrightarrow> x \<in> set ys \<and> is_slot_linked (sl x)) \<and>
        (is_request_valid (sl x) \<longrightarrow> x \<in> set ys)) \<and>
     map (\<lambda>x. ret_val (sl' x)) (pending sl xs) = rs"

text \<open>A pass over the whole list changes no other slot.\<close>

definition combined ::
  "(ptr \<Rightarrow> slot_info) \<Rightarrow> (ptr \<Rightarrow> slot_info) \<Rightarrow> ptr list \<Rightarrow> ptr list \<Rightarrow> u32 list \<Rightarrow> bool" where
  "combined sl sl' xs ys rs \<longleftrightarrow> served sl sl' xs ys rs \<and> (\<forall>x. x \<notin> set xs \<longrightarrow> sl' x = sl x)"

text \<open>
  A quiescent object whose callers own the slots \<open>S\<close>: nobody holds the lock, no request is
  pending, and the publication list holds exactly the slots marked as linked.
\<close>

definition linked_list :: "ptr set \<Rightarrow> 'd fc_object \<Rightarrow> ptr list \<Rightarrow> bool" where
  "linked_list S s xs \<longleftrightarrow> slot_path (slots s) (tail_slot s) xs \<and> set xs \<subseteq> S \<and>
     (\<forall>x \<in> S. is_slot_linked (slots s x) \<longleftrightarrow> x \<in> set xs)"

definition fc_quiet :: "ptr set \<Rightarrow> 'd fc_object \<Rightarrow> bool" where
  "fc_quiet S s \<longleftrightarrow> combine_cas s = 0 \<and> (\<forall>x \<in> S. \<not> is_request_valid (slots s x)) \<and> (\<exists>xs. linked_list S s xs)"

text \<open>Operations called one after the other, each with the caller's slot.\<close>

fun fc_run :: "int \<Rightarrow> 'd exec_body \<Rightarrow> (ptr \<times> u32 \<times> u32) list \<Rightarrow> 'd fc_object \<Rightarrow> ('d fc_object \<times> u32 list) option" where
  "fc_run thr exec [] s = Some (s, [])"
| "fc_run thr exec ((slot, op, p) # cs) s =
     (case fc_operation thr exec op p slot s of
        None \<Rightarrow> None
      | Some (s1, r) \<Rightarrow> map_option (\<lambda>(s2, rs). (s2, r # rs)) (fc_run thr exec cs s1))"

text \<open>A pass over the slots that follow slot \<open>p\<close> may also change the link of \<open>p\<close>.\<close>

definition pass_slots ::
  "(ptr \<Rightarrow> slot_info) \<Rightarrow> (ptr \<Rightarrow> slot_info) \<Rightarrow> ptr \<Rightarrow> ptr list \<Rightarrow> ptr list \<Rightarrow> u32 list \<Rightarrow> bool" where
  "pass_slots sl sl' p xs ys rs \<longleftrightarrow>
     served sl sl' xs ys rs \<and> slot_path sl' (next_slot (sl' p)) ys \<and>
     (\<forall>x. x \<notin> set xs \<and> x \<noteq> p \<longrightarrow> sl' x = sl x) \<and> (\<exists>n. sl' p = (sl p)\<lparr>next_slot := n\<rparr>)"

lemma slot_path_Nil [simp]: "slot_path sl p [] \<longleftrightarrow> p = 0"
  by (simp add: slot_path_def)

lemma slot_path_Cons [simp]:
  "slot_path sl p (x # xs) \<longleftrightarrow> p = x \<and> x \<noteq> 0 \<and> slot_path sl (next_slot (sl x)) xs"
  by (simp add: slot_path_def)

lemma slot_path_cong:
  "(\<And>x. x \<in> set xs \<Longrightarrow> next_slot (sl x) = next_slot (sl' x)) \<Longrightarrow> slot_path sl p xs \<longleftrightarrow> slot_path sl' p xs"
  unfolding slot_path_def by (rule lpath_cong) simp

lemma slot_path_distinct: "slot_path sl p xs \<Longrightarrow> distinct xs"
  unfolding slot_path_def by (rule lpath_distinct)

lemma pending_Nil [simp]: "pending sl [] = []"
  and requests_Nil [simp]: "requests sl [] = []"
  by (simp_all add: pending_def requests_def)

lemma pending_Cons [simp]:
  "pending sl (x # xs) = (if is_request_valid (sl x) then x # pending sl xs else pending sl xs)"
  by (simp add: pending_def)

lemma requests_Cons [simp]:
  "requests sl (x # xs) =
     (if is_request_valid (sl x) then (operation (sl x), parameter (sl x)) # requests sl xs
      else requests sl xs)"
  by (simp add: requests_def)

lemma set_pending [simp]: "set (pending sl xs) = {x \<in> set xs. is_request_valid (sl x)}"
  by (simp add: pending_def)

lemma pending_cong:
  "(\<And>x. x \<in> set xs \<Longrightarrow> is_request_valid (sl x) = is_request_valid (sl' x)) \<Longrightarrow> pending sl xs = pending sl' xs"
  by (auto simp: pending_def intro: filter_cong)

lemma requests_cong:
  assumes "\<And>x. x \<in> set xs \<Longrightarrow> sl x = sl' x"
  shows "requests sl xs = requests sl' xs"
  using assms by (auto simp: requests_def pending_def intro!: map_cong filter_cong)

lemma combine_loop_null [simp]: "combine_loop thr exec 0 prev s = Some s"
  by (simp add: combine_loop.simps)

lemma subseq_subset: "subseq ys xs \<Longrightarrow> set ys \<subseteq> set xs"
  by (induction rule: list_emb.induct) auto

lemma next_slot_same: "\<exists>n. sl = sl\<lparr>next_slot := n\<rparr>"
  by (metis slot_info.surjective slot_info.update_convs(7))

lemma servedD:
  assumes "served sl sl' xs ys rs"
  shows "subseq ys xs"
    "x \<in> set xs \<Longrightarrow> \<not> is_request_valid (sl' x)"
    "x \<in> set xs \<Longrightarrow> is_slot_linked (sl' x) \<longleftrightarrow> x \<in> set ys \<and> is_slot_linked (sl x)"
    "x \<in> set xs \<Longrightarrow> is_request_valid (sl x) \<Longrightarrow> x \<in> set ys"
    "map (\<lambda>x. ret_val (sl' x)) (pending sl xs) = rs"
  using assms by (auto simp: served_def)

lemma servedI:
  assumes "subseq ys xs"
    "\<And>x. x \<in> set xs \<Longrightarrow> \<not> is_request_valid (sl' x) \<and>
        (is_slot_linked (sl' x) \<longleftrightarrow> x \<in> set ys \<and> is_slot_linked (sl x)) \<and>
        (is_request_valid (sl x) \<longrightarrow> x \<in> set ys)"
    "map (\<lambda>x. ret_val (sl' x)) (pending sl xs) = rs"
  shows "served sl sl' xs ys rs"
  unfolding served_def using assms by blast

lemma served_cong:
  assumes "served sl sl' xs ys rs" and "\<And>x. x \<in> set xs \<Longrightarrow> sl x = sl2 x"
  shows "served sl2 sl' xs ys rs"
proof -
  have "pending sl xs = pending sl2 xs" using assms(2) by (auto intro: pending_cong)
  then show ?thesis using assms by (simp add: served_def)
qed

text \<open>One step of the traversal in front of a pass over the rest of the list.\<close>

lemma served_keep:
  assumes S: "served sl sl' xs ys rs" and v: "\<not> is_request_valid (sl x)"
    and x: "sl' x = (sl x)\<lparr>next_slot := m\<rparr>"
  shows "served sl sl' (x # xs) (x # ys) rs"
proof (rule servedI)
  show "subseq (x # ys) (x # xs)" using servedD(1) [OF S] by simp
  show "map (\<lambda>x. ret_val (sl' x)) (pending sl (x # xs)) = rs" using servedD(5) [OF S] v by simp
qed (use servedD(2-4) [OF S] x v in auto)

lemma served_serve:
  assumes S: "served sl sl' xs ys rs" and v: "is_request_valid (sl x)"
    and x: "sl' x = (sl x)\<lparr>ret_val := r, is_request_valid := False, op_timestamp := t, next_slot := m\<rparr>"
  shows "served sl sl' (x # xs) (x # ys) (r # rs)"
proof (rule servedI)
  show "subseq (x # ys) (x # xs)" using servedD(1) [OF S] by simp
  show "map (\<lambda>x. ret_val (sl' x)) (pending sl (x # xs)) = r # rs" using servedD(5) [OF S] v x by simp
qed (use servedD(2-4) [OF S] x in auto)

lemma served_unlink:
  assumes S: "served sl sl' xs ys rs" and v: "\<not> is_request_valid (sl x)"
    and x: "sl' x = (sl x)\<lparr>is_slot_linked := False\<rparr>" and d: "x \<notin> set xs"
  shows "served sl sl' (x # xs) ys rs"
proof (rule servedI)
  show "subseq ys (x # xs)" using servedD(1) [OF S] by (rule list_emb_Cons)
  show "map (\<lambda>x. ret_val (sl' x)) (pending sl (x # xs)) = rs" using servedD(5) [OF S] v by simp
  have nx: "x \<notin> set ys" using servedD(1) [OF S] d subseq_subset by blast
  fix y assume "y \<in> set (x # xs)"
  then show "\<not> is_request_valid (sl' y) \<and> (is_slot_linked (sl' y) \<longleftrightarrow> y \<in> set ys \<and> is_slot_linked (sl y)) \<and>
        (is_request_valid (sl y) \<longrightarrow> y \<in> set ys)"
    using servedD(2-4) [OF S] x v nx by (cases "y = x") simp_all
qed

lemma pass_slotsD:
  assumes "pass_slots sl sl' p xs ys rs"
  shows "served sl sl' xs ys rs" "slot_path sl' (next_slot (sl' p)) ys"
    "x \<notin> set xs \<Longrightarrow> x \<noteq> p \<Longrightarrow> sl' x = sl x"
    "\<exists>n. sl' p = (sl p)\<lparr>next_slot := n\<rparr>"
  using assms by (auto simp: pass_slots_def)

lemma pass_slotsI:
  assumes "served sl sl' xs ys rs" "slot_path sl' (next_slot (sl' p)) ys"
    "\<And>x. x \<notin> set xs \<Longrightarrow> x \<noteq> p \<Longrightarrow> sl' x = sl x"
    "\<exists>n. sl' p = (sl p)\<lparr>next_slot := n\<rparr>"
  shows "pass_slots sl sl' p xs ys rs"
  unfolding pass_slots_def using assms by blast

lemma combined_keep:
  assumes P: "pass_slots sl sl' x xs ys rs" and v: "\<not> is_request_valid (sl x)"
  shows "combined sl sl' (x # xs) (x # ys) rs"
proof -
  obtain m where "sl' x = (sl x)\<lparr>next_slot := m\<rparr>" using pass_slotsD(4) [OF P] by blast
  then have "served sl sl' (x # xs) (x # ys) rs" by (rule served_keep [OF pass_slotsD(1) [OF P] v])
  then show ?thesis using pass_slotsD(3) [OF P] by (simp add: combined_def)
qed

lemma combined_serve:
  assumes P: "pass_slots (sl(x := (sl x)\<lparr>ret_val := r, is_request_valid := False, op_timestamp := t\<rparr>)) sl' x xs ys rs"
    and v: "is_request_valid (sl x)" and d: "x \<notin> set xs"
  shows "combined sl sl' (x # xs) (x # ys) (r # rs)"
proof -
  obtain m where x: "sl' x = (sl x)\<lparr>ret_val := r, is_request_valid := False, op_timestamp := t, next_slot := m\<rparr>"
    using pass_slotsD(4) [OF P] by auto
  have "served sl sl' xs ys rs" using d by (intro served_cong [OF pass_slotsD(1) [OF P]]) auto
  then have "served sl sl' (x # xs) (x # ys) (r # rs)" using v x by (rule served_serve)
  then show ?thesis using pass_slotsD(3) [OF P] by (auto simp: combined_def)
qed

text \<open>The same with the slot \<open>p\<close> in front of it: its link stays, or skips the slot.\<close>

lemma combined_pass:
  assumes "combined sl sl' (x # xs) (x # ys) rs" and "slot_path sl' (next_slot (sl' x)) ys"
    and "p \<notin> set (x # xs)" "x \<noteq> 0" and "next_slot (sl p) = x"
  shows "pass_slots sl sl' p (x # xs) (x # ys) rs"
proof -
  have "sl' p = sl p" using assms(1,3) by (simp add: combined_def)
  then show ?thesis using assms next_slot_same by (intro pass_slotsI) (auto simp: combined_def)
qed

lemma pass_unlink:
  assumes P: "pass_slots ((sl(p := (sl p)\<lparr>next_slot := next_slot (sl x)\<rparr>))(x := (sl x)\<lparr>is_slot_linked := False\<rparr>)) sl' p xs ys rs"
    and v: "\<not> is_request_valid (sl x)"
    and d: "x \<notin> set xs" "p \<noteq> x" "p \<notin> set xs"
  shows "pass_slots sl sl' p (x # xs) ys rs"
proof -
  have x: "sl' x = (sl x)\<lparr>is_slot_linked := False\<rparr>" using pass_slotsD(3) [OF P, of x] d by simp
  have "served sl sl' xs ys rs" using d by (intro served_cong [OF pass_slotsD(1) [OF P]]) auto
  then have "served sl sl' (x # xs) ys rs" using v x d(1) by (rule served_unlink)
  moreover have "\<exists>n. sl' p = (sl p)\<lparr>next_slot := n\<rparr>" using pass_slotsD(4) [OF P] d by simp
  moreover have "y \<notin> set (x # xs) \<Longrightarrow> y \<noteq> p \<Longrightarrow> sl' y = sl y" for y using pass_slotsD(3) [OF P, of y] by simp
  ultimately show ?thesis using pass_slotsD(2) [OF P] by (intro pass_slotsI)
qed

lemma filter_single: "distinct xs \<Longrightarrow> a \<in> set xs \<Longrightarrow> filter (\<lambda>x. x = a) xs = [a]"
  by (induction xs) (auto simp: filter_empty_conv)

lemma fc_more_eq:
  fixes s s' :: "'d fc_object"
  shows "comb_state.more s' = comb_state.more s \<Longrightarrow> tail_slot s' = tail_slot s \<and> combine_cas s' = combine_cas s"
  by (cases s, cases s') simp

text \<open>After its request is published, the caller's slot is on the list and is the only pending one.\<close>

lemma published_list:
  fixes op p :: u32
  assumes "linked_list S s xs" and "\<And>x. x \<in> S \<Longrightarrow> \<not> is_request_valid (slots s x)" and "slot \<noteq> 0" and "slot \<in> S"
  defines "s1 \<equiv> enq_if_unlinked slot (publish op p slot s)"
  shows "linked_list S s1 (if slot \<in> set xs then xs else slot # xs)"
    "x \<in> S \<Longrightarrow> is_request_valid (slots s1 x) \<longleftrightarrow> x = slot"
    "x \<notin> S \<Longrightarrow> slots s1 x = slots s x"
    "operation (slots s1 slot) = op" "parameter (slots s1 slot) = p" "data s1 = data s"
proof -
  have "slot_path (slots s1) (tail_slot s) xs"
    using assms(1,4) by (subst slot_path_cong [where sl' = "slots s"])
      (auto simp: s1_def enq_if_unlinked_def enq_slot_def publish_def linked_list_def)
  then show "linked_list S s1 (if slot \<in> set xs then xs else slot # xs)"
    using assms by (auto simp: enq_if_unlinked_def enq_slot_def publish_def linked_list_def)
qed (use assms in \<open>auto simp: enq_if_unlinked_def enq_slot_def publish_def\<close>)

subsection \<open>The contract of a request body\<close>

locale seq_object =
  fixes exec :: "'d exec_body"
    and inv :: "'d \<Rightarrow> bool"
    and abs :: "'d \<Rightarrow> 'a"
    and spec :: "'a seq_spec"
    and pre :: "'a \<Rightarrow> u32 \<Rightarrow> u32 \<Rightarrow> bool"
  assumes exec_step: "inv d \<Longrightarrow> pre (abs d) op p \<Longrightarrow>
    \<exists>d'. exec d op p = Some (d', snd (spec (abs d) op p)) \<and> abs d' = fst (spec (abs d) op p) \<and> inv d'"
begin

text \<open>The pass behind the slot \<open>p\<close>, by induction on the slots that are left.\<close>

lemma combine_rest:
  assumes "slot_path (slots s) c xs" and "p \<notin> set xs" and "next_slot (slots s p) = c"
    and "inv (data s)" and "run_pre pre spec (abs (data s)) (requests (slots s) xs)"
  shows "\<exists>s' ys. combine_loop thr exec c p s = Some s' \<and>
     pass_slots (slots s) (slots s') p xs ys (snd (run_spec spec (abs (data s)) (requests (slots s) xs))) \<and>
     abs (data s') = fst (run_spec spec (abs (data s)) (requests (slots s) xs)) \<and> inv (data s') \<and>
     operation_timestamp s' = operation_timestamp s + of_nat (length (requests (slots s) xs)) \<and>
     comb_state.more s' = comb_state.more s"
  using assms
proof (induction xs arbitrary: s c p)
  case Nil
  then have "pass_slots (slots s) (slots s) p [] [] []" by (auto simp: pass_slots_def served_def next_slot_same)
  with Nil show ?case by auto
next
  case (Cons x xs)
  have c: "c = x" "x \<noteq> 0" and path: "slot_path (slots s) (next_slot (slots s x)) xs" using Cons.prems(1) by auto
  have dist: "x \<notin> set xs" "p \<noteq> x" "p \<notin> set xs"
    using slot_path_distinct [OF Cons.prems(1)] Cons.prems(2) by auto
  note unf = combine_loop.simps [of thr exec x p s]
  consider (serve) "is_request_valid (slots s x)"
    | (unlink) "\<not> is_request_valid (slots s x)" "thr < sint (operation_timestamp s - op_timestamp (slots s x))"
    | (keep) "\<not> is_request_valid (slots s x)" "\<not> thr < sint (operation_timestamp s - op_timestamp (slots s x))"
    by blast
  then show ?case
  proof cases
    case serve
    let ?r = "spec (abs (data s)) (operation (slots s x)) (parameter (slots s x))"
    obtain d where d: "exec (data s) (operation (slots s x)) (parameter (slots s x)) = Some (d, snd ?r)" "abs d = fst ?r" "inv d"
      using exec_step [of "data s" "operation (slots s x)" "parameter (slots s x)"] serve Cons.prems(4,5) by auto
    define s1 where "s1 = serve_slot x (snd ?r) d s"
    have s1: "slots s1 = (slots s)(x := (slots s x)\<lparr>ret_val := snd ?r, is_request_valid := False, op_timestamp := operation_timestamp s\<rparr>)"
      "data s1 = d" "operation_timestamp s1 = operation_timestamp s + 1" "comb_state.more s1 = comb_state.more s"
      by (simp_all add: s1_def serve_slot_def)
    have rq: "requests (slots s1) xs = requests (slots s) xs" using dist by (intro requests_cong) (auto simp: s1)
    have "slot_path (slots s1) (next_slot (slots s x)) xs"
      using path dist by (subst slot_path_cong [where sl' = "slots s"]) (auto simp: s1)
    moreover have "next_slot (slots s1 x) = next_slot (slots s x)" by (simp add: s1(1))
    moreover have "run_pre pre spec (abs (data s1)) (requests (slots s1) xs)"
      using Cons.prems(5) serve d by (simp add: s1(2) rq)
    ultimately obtain s' ys where ih: "combine_loop thr exec (next_slot (slots s x)) x s1 = Some s'"
      "pass_slots (slots s1) (slots s') x xs ys (snd (run_spec spec (fst ?r) (requests (slots s) xs)))"
      "abs (data s') = fst (run_spec spec (fst ?r) (requests (slots s) xs))" "inv (data s')"
      "operation_timestamp s' = operation_timestamp s + 1 + of_nat (length (requests (slots s) xs))"
      "comb_state.more s' = comb_state.more s"
      using Cons.IH [of s1 "next_slot (slots s x)" x] dist(1) d by (auto simp: s1(2-4) rq)
    have "combine_loop thr exec c p s = Some s'" using unf serve d ih(1) c by (simp add: s1_def)
    moreover have "pass_slots (slots s) (slots s') p (x # xs) (x # ys) (snd ?r # snd (run_spec spec (fst ?r) (requests (slots s) xs)))"
      using combined_pass [OF combined_serve [OF ih(2) [unfolded s1(1)] serve dist(1)] pass_slotsD(2) [OF ih(2)]] dist c Cons.prems(3) by simp
    ultimately show ?thesis using ih serve by (auto simp: case_prod_beta Let_def algebra_simps)
  next
    case unlink
    define s1 where "s1 = unlink_slot x p s"
    have s1: "slots s1 = ((slots s)(p := (slots s p)\<lparr>next_slot := next_slot (slots s x)\<rparr>))(x := (slots s x)\<lparr>is_slot_linked := False\<rparr>)"
      "data s1 = data s" "operation_timestamp s1 = operation_timestamp s" "comb_state.more s1 = comb_state.more s"
      using dist by (simp_all add: s1_def unlink_slot_def Let_def)
    have rq: "requests (slots s1) xs = requests (slots s) xs" using dist by (intro requests_cong) (auto simp: s1)
    have "slot_path (slots s1) (next_slot (slots s1 p)) xs"
      using path dist by (subst slot_path_cong [where sl' = "slots s"]) (auto simp: s1)
    from Cons.IH [OF this dist(3)] obtain s' ys where ih: "combine_loop thr exec (next_slot (slots s1 p)) p s1 = Some s'"
      "pass_slots (slots s1) (slots s') p xs ys (snd (run_spec spec (abs (data s)) (requests (slots s) xs)))"
      "abs (data s') = fst (run_spec spec (abs (data s)) (requests (slots s) xs))" "inv (data s')"
      "operation_timestamp s' = operation_timestamp s + of_nat (length (requests (slots s) xs))"
      "comb_state.more s' = comb_state.more s"
      using Cons.prems(4,5) unlink rq by (auto simp: s1(2-4))
    have "combine_loop thr exec c p s = Some s'" using unf unlink dist ih(1) c by (simp add: s1_def)
    moreover have "pass_slots (slots s) (slots s') p (x # xs) ys (snd (run_spec spec (abs (data s)) (requests (slots s) xs)))"
      using pass_unlink ih(2) unlink dist unfolding s1 by blast
    ultimately show ?thesis using ih unlink by auto
  next
    case keep
    from Cons.IH [OF path dist(1)] obtain s' ys where ih: "combine_loop thr exec (next_slot (slots s x)) x s = Some s'"
      "pass_slots (slots s) (slots s') x xs ys (snd (run_spec spec (abs (data s)) (requests (slots s) xs)))"
      "abs (data s') = fst (run_spec spec (abs (data s)) (requests (slots s) xs))" "inv (data s')"
      "operation_timestamp s' = operation_timestamp s + of_nat (length (requests (slots s) xs))"
      "comb_state.more s' = comb_state.more s"
      using Cons.prems(4,5) keep by auto
    have "combine_loop thr exec c p s = Some s'" using unf keep ih(1) c by simp
    moreover have "pass_slots (slots s) (slots s') p (x # xs) (x # ys) (snd (run_spec spec (abs (data s)) (requests (slots s) xs)))"
      using combined_pass [OF combined_keep [OF ih(2) keep(1)] pass_slotsD(2) [OF ih(2)]] dist c Cons.prems(3) by simp
    ultimately show ?thesis using ih keep by auto
  qed
qed


text \<open>The whole pass, from the tail of the publication list.\<close>

lemma combine_all:
  assumes path: "slot_path (slots s) t xs" and i: "inv (data s)"
    and pre: "run_pre pre spec (abs (data s)) (requests (slots s) xs)"
  shows "\<exists>s' ys. combine_loop thr exec t t s = Some s' \<and> slot_path (slots s') t ys \<and>
     combined (slots s) (slots s') xs ys (snd (run_spec spec (abs (data s)) (requests (slots s) xs))) \<and>
     abs (data s') = fst (run_spec spec (abs (data s)) (requests (slots s) xs)) \<and> inv (data s') \<and>
     operation_timestamp s' = operation_timestamp s + of_nat (length (requests (slots s) xs)) \<and>
     comb_state.more s' = comb_state.more s"
proof (cases xs)
  case Nil
  then show ?thesis using path i by (auto simp: combined_def served_def intro!: exI [of _ "[]"])
next
  case (Cons x zs)
  have x: "t = x" "x \<noteq> 0" and path': "slot_path (slots s) (next_slot (slots s x)) zs" using path Cons by auto
  have dist: "x \<notin> set zs" using slot_path_distinct [OF path] Cons by simp
  note unf = combine_loop.simps [of thr exec x x s]
  show ?thesis
  proof (cases "is_request_valid (slots s x)")
    case True
    let ?r = "spec (abs (data s)) (operation (slots s x)) (parameter (slots s x))"
    obtain d where d: "exec (data s) (operation (slots s x)) (parameter (slots s x)) = Some (d, snd ?r)" "abs d = fst ?r" "inv d"
      using exec_step [of "data s" "operation (slots s x)" "parameter (slots s x)"] True i pre Cons by auto
    define s1 where "s1 = serve_slot x (snd ?r) d s"
    have s1: "slots s1 = (slots s)(x := (slots s x)\<lparr>ret_val := snd ?r, is_request_valid := False, op_timestamp := operation_timestamp s\<rparr>)"
      "data s1 = d" "operation_timestamp s1 = operation_timestamp s + 1" "comb_state.more s1 = comb_state.more s"
      by (simp_all add: s1_def serve_slot_def)
    have rq: "requests (slots s1) zs = requests (slots s) zs" using dist by (intro requests_cong) (auto simp: s1)
    have pend: "pending (slots s1) zs = pending (slots s) zs" using dist by (intro pending_cong) (auto simp: s1)
    have "slot_path (slots s1) (next_slot (slots s x)) zs"
      using path' dist by (subst slot_path_cong [where sl' = "slots s"]) (auto simp: s1)
    moreover have "next_slot (slots s1 x) = next_slot (slots s x)" by (simp add: s1(1))
    moreover have "run_pre pre spec (abs (data s1)) (requests (slots s1) zs)"
      using pre Cons True d by (simp add: s1(2) rq)
    ultimately obtain s' ys where ih: "combine_loop thr exec (next_slot (slots s x)) x s1 = Some s'"
      "pass_slots (slots s1) (slots s') x zs ys (snd (run_spec spec (fst ?r) (requests (slots s) zs)))"
      "abs (data s') = fst (run_spec spec (fst ?r) (requests (slots s) zs))" "inv (data s')"
      "operation_timestamp s' = operation_timestamp s + 1 + of_nat (length (requests (slots s) zs))"
      "comb_state.more s' = comb_state.more s"
      using combine_rest [of s1 "next_slot (slots s x)" zs x thr] dist d by (auto simp: s1(2-4) rq)
    have l: "combine_loop thr exec t t s = Some s'" using unf True d ih(1) x by (simp add: s1_def)
    show ?thesis
      using l combined_serve [OF ih(2) [unfolded s1(1)] True dist] pass_slotsD(2) [OF ih(2)] ih(3-6) x True Cons
      by (intro exI [of _ s'] exI [of _ "x # ys"]) (auto simp: case_prod_beta Let_def algebra_simps)
  next
    case False
    obtain s' ys where ih: "combine_loop thr exec (next_slot (slots s x)) x s = Some s'"
      "pass_slots (slots s) (slots s') x zs ys (snd (run_spec spec (abs (data s)) (requests (slots s) zs)))"
      "abs (data s') = fst (run_spec spec (abs (data s)) (requests (slots s) zs))" "inv (data s')"
      "operation_timestamp s' = operation_timestamp s + of_nat (length (requests (slots s) zs))"
      "comb_state.more s' = comb_state.more s"
      using combine_rest [OF path' dist refl i, of thr] pre False Cons by auto
    have l: "combine_loop thr exec t t s = Some s'" using unf False ih(1) x by simp
    show ?thesis
      using l combined_keep [OF ih(2) False] pass_slotsD(2) [OF ih(2)] ih(3-6) x False Cons
      by (intro exI [of _ s'] exI [of _ "x # ys"]) auto
  qed
qed


text \<open>An operation on a quiescent object is one step of the sequential object.\<close>

lemma fc_operation_step:
  assumes q: "fc_quiet S s" and i: "inv (data s)" and pre: "pre (abs (data s)) op p"
    and nn: "slot \<noteq> 0" "slot \<in> S"
  shows "\<exists>s'. fc_operation thr exec op p slot s = Some (s', snd (spec (abs (data s)) op p)) \<and>
     abs (data s') = fst (spec (abs (data s)) op p) \<and> inv (data s') \<and> fc_quiet S s' \<and>
     (\<forall>x. x \<notin> S \<longrightarrow> slots s' x = slots s x)"
proof -
  from q obtain xs where xs: "linked_list S s xs" and idle: "\<And>x. x \<in> S \<Longrightarrow> \<not> is_request_valid (slots s x)"
    and cas: "combine_cas s = 0" by (auto simp: fc_quiet_def)
  define s1 where "s1 = (enq_if_unlinked slot (publish op p slot s))\<lparr>combine_cas := 0xffff\<rparr>"
  define zs where "zs = (if slot \<in> set xs then xs else slot # xs)"
  have zs: "slot_path (slots s1) (tail_slot s1) zs" "set zs \<subseteq> S" "\<And>x. x \<in> S \<Longrightarrow> is_slot_linked (slots s1 x) \<longleftrightarrow> x \<in> set zs"
    and val: "\<And>x. x \<in> S \<Longrightarrow> is_request_valid (slots s1 x) \<longleftrightarrow> x = slot" and out: "\<And>x. x \<notin> S \<Longrightarrow> slots s1 x = slots s x"
    and arg: "operation (slots s1 slot) = op" "parameter (slots s1 slot) = p" and dat: "data s1 = data s"
    using published_list [OF xs idle nn, where op = op and p = p] by (simp_all add: s1_def zs_def linked_list_def)
  have sz: "slot \<in> set zs" by (simp add: zs_def)
  have "filter (\<lambda>x. is_request_valid (slots s1 x)) zs = filter (\<lambda>x. x = slot) zs"
    using zs(2) val by (intro filter_cong) auto
  then have pd: "pending (slots s1) zs = [slot]" and rq: "requests (slots s1) zs = [(op, p)]"
    using filter_single [OF slot_path_distinct [OF zs(1)] sz] by (simp_all add: requests_def pending_def arg)
  from combine_all [OF zs(1), of thr] i pre rq dat
  obtain s2 ys where s2: "combine_loop thr exec (tail_slot s1) (tail_slot s1) s1 = Some s2" "slot_path (slots s2) (tail_slot s1) ys"
    "combined (slots s1) (slots s2) zs ys [snd (spec (abs (data s)) op p)]"
    "abs (data s2) = fst (spec (abs (data s)) op p)" "inv (data s2)" "comb_state.more s2 = comb_state.more s1"
    by (auto simp: case_prod_beta Let_def)
  have sv: "served (slots s1) (slots s2) zs ys [snd (spec (abs (data s)) op p)]"
    and fr: "\<And>x. x \<notin> set zs \<Longrightarrow> slots s2 x = slots s1 x" using s2(3) by (auto simp: combined_def)
  have ret: "ret_val (slots s2 slot) = snd (spec (abs (data s)) op p)" using servedD(5) [OF sv] pd by simp
  have sub: "set ys \<subseteq> set zs" using subseq_subset [OF servedD(1) [OF sv]] .
  have link: "is_slot_linked (slots s2 x) \<longleftrightarrow> x \<in> set ys" if "x \<in> S" for x
    using servedD(3) [OF sv] zs(3) fr sub that by (cases "x \<in> set zs") auto
  have val2: "\<not> is_request_valid (slots s2 x)" if "x \<in> S" for x
    using servedD(2) [OF sv] val fr sz that by (cases "x \<in> set zs") auto
  have "linked_list S (s2\<lparr>combine_cas := 0\<rparr>) ys"
    using s2(2) fc_more_eq [OF s2(6)] sub zs(2) link by (auto simp: linked_list_def)
  then have "fc_quiet S (s2\<lparr>combine_cas := 0\<rparr>)" using val2 by (auto simp: fc_quiet_def)
  moreover have cas': "combine_cas (enq_if_unlinked slot (publish op p slot s)) = 0"
    using cas by (simp add: enq_if_unlinked_def enq_slot_def publish_def)
  have "enq_if_unlinked slot s1 = s1" using zs(2,3) sz by (auto simp: enq_if_unlinked_def)
  then have "fc_operation thr exec op p slot s = Some (s2\<lparr>combine_cas := 0\<rparr>, snd (spec (abs (data s)) op p))"
    using s2(1) ret cas' by (simp add: fc_operation_def flat_combine_def s1_def)
  moreover have "slots s2 x = slots s x" if "x \<notin> S" for x using fr out zs(2) that by (metis subsetD)
  ultimately show ?thesis using s2(4,5) by auto
qed

lemma fc_run_steps:
  assumes "fc_quiet S s" and "inv (data s)" and "\<forall>c \<in> set cs. fst c \<noteq> 0 \<and> fst c \<in> S"
    and "run_pre pre spec (abs (data s)) (map snd cs)"
  shows "\<exists>s'. fc_run thr exec cs s = Some (s', snd (run_spec spec (abs (data s)) (map snd cs))) \<and>
     abs (data s') = fst (run_spec spec (abs (data s)) (map snd cs)) \<and> inv (data s') \<and> fc_quiet S s'"
  using assms
proof (induction cs arbitrary: s)
  case Nil
  then show ?case by simp
next
  case (Cons c cs)
  obtain slot op p where c: "c = (slot, op, p)" by (cases c)
  obtain s1 where s1: "fc_operation thr exec op p slot s = Some (s1, snd (spec (abs (data s)) op p))"
    "abs (data s1) = fst (spec (abs (data s)) op p)" "inv (data s1)" "fc_quiet S s1"
    using fc_operation_step [of S s op p slot thr] Cons.prems c by auto
  with Cons.IH [of s1] Cons.prems c show ?case by (auto simp: case_prod_beta Let_def)
qed

end

end
