(* ===== verification/FC_Queue.thy ===== *)
theory FC_Queue
  imports FC_Slots
begin

text \<open>
  The linked flat-combining queue (\<open>multithread_fc_q/FCQueue.hh\<close>): nodes on the C++ heap,
  \<open>head_node\<close>, \<open>tail_node\<close> and the element count \<open>q_size\<close>. \<open>fcq_exec\<close> is the body
  \<open>flat_combine\<close> runs for one request; \<open>fcq: seq_object\<close> shows that it implements a FIFO
  queue of 32-bit values, so that the results of \<open>FC_Slots\<close> hold for the class.
\<close>

definition POP_OP :: u32 where "POP_OP = 1"
definition PUSH_OP :: u32 where "PUSH_OP = 2"

definition FCQ_UNUSED_SLOT_THRESHOLD :: int where "FCQ_UNUSED_SLOT_THRESHOLD = 10"

record qnode =
  qn_next :: ptr
  qn_val :: u32

definition QNode :: "u32 \<Rightarrow> qnode" where
  "QNode v = \<lparr>qn_next = 0, qn_val = v\<rparr>"

record queue_data =
  head_node :: ptr
  tail_node :: ptr
  q_size :: u32
  q_heap :: "qnode heap"

text \<open>
  The two branches of the request body. \<open>q_size++ == 0\<close> tests the old count; \<open>--q_size == 0\<close>
  tests the new one.
\<close>

definition fcq_push :: "u32 \<Rightarrow> queue_data \<Rightarrow> queue_data option" where
  "fcq_push p q =
     (let (n, h) = h_new (QNode p) (q_heap q);
          q1 = q\<lparr>q_heap := h, q_size := q_size q + 1\<rparr>
      in if q_size q = 0 then Some (q1\<lparr>head_node := n, tail_node := n\<rparr>)
         else do {
           t \<leftarrow> h_get h (tail_node q);
           h' \<leftarrow> h_set (tail_node q) (t\<lparr>qn_next := n\<rparr>) h;
           Some (q1\<lparr>q_heap := h', tail_node := n\<rparr>) })"

definition fcq_pop :: "queue_data \<Rightarrow> (queue_data \<times> u32) option" where
  "fcq_pop q =
     (if q_size q = 0 then Some (q, 0)
      else do {
        hd \<leftarrow> h_get (q_heap q) (head_node q);
        h' \<leftarrow> h_delete (head_node q) (q_heap q);
        let q1 = q\<lparr>head_node := qn_next hd, q_size := q_size q - 1, q_heap := h'\<rparr>;
        Some (if q_size q1 = 0 then q1\<lparr>tail_node := 0\<rparr> else q1, qn_val hd) })"

definition fcq_exec :: "queue_data exec_body" where
  "fcq_exec q op p =
     (if op = PUSH_OP then map_option (\<lambda>q'. (q', p)) (fcq_push p q) else fcq_pop q)"

text \<open>
  The constructor does not initialise \<open>operation_timestamp\<close>; \<open>ts\<close> is the indeterminate value.
\<close>

definition Queue :: "u32 \<Rightarrow> queue_data fc_object" where
  "Queue ts = \<lparr>slots = (\<lambda>_. SlotInfo), operation_timestamp = ts,
               data = \<lparr>head_node = 0, tail_node = 0, q_size = 0, q_heap = h_empty\<rparr>,
               tail_slot = 0, combine_cas = 0\<rparr>"

definition Queue_flat_combine :: "queue_data fc_object \<Rightarrow> queue_data fc_object option" where
  "Queue_flat_combine = flat_combine FCQ_UNUSED_SLOT_THRESHOLD fcq_exec"

definition Queue_fc_operation ::
  "u32 \<Rightarrow> u32 \<Rightarrow> ptr \<Rightarrow> queue_data fc_object \<Rightarrow> (queue_data fc_object \<times> u32) option" where
  "Queue_fc_operation = fc_operation FCQ_UNUSED_SLOT_THRESHOLD fcq_exec"

text \<open>
  The destructor: it frees the nodes from \<open>head_node\<close> on. \<open>None\<close> is a free of an invalid
  pointer, or a chain that never ends.
\<close>

partial_function (option) queue_free :: "ptr \<Rightarrow> qnode heap \<Rightarrow> qnode heap option" where
  "queue_free cur h =
     (if cur = 0 then Some h
      else do { n \<leftarrow> h_get h cur; h' \<leftarrow> h_delete cur h; queue_free (qn_next n) h' })"

definition Queue_destroy :: "queue_data \<Rightarrow> qnode heap option" where
  "Queue_destroy q = queue_free (head_node q) (q_heap q)"

text \<open>\<open>print\<close>: the values from \<open>head_node\<close> on, in the order they are written.\<close>

partial_function (option) queue_print :: "ptr \<Rightarrow> qnode heap \<Rightarrow> u32 list option" where
  "queue_print cur h =
     (if cur = 0 then Some []
      else do { n \<leftarrow> h_get h cur; vs \<leftarrow> queue_print (qn_next n) h; Some (qn_val n # vs) })"

subsection \<open>The abstract queue\<close>

definition queue_spec :: "u32 list seq_spec" where
  "queue_spec q op p =
     (if op = PUSH_OP then (q @ [p], p)
      else case q of [] \<Rightarrow> ([], 0) | x # xs \<Rightarrow> (xs, x))"

text \<open>\<open>q_size\<close> is a 32-bit count, so a push needs room for one more element.\<close>

definition queue_pre :: "u32 list \<Rightarrow> u32 \<Rightarrow> u32 \<Rightarrow> bool" where
  "queue_pre q op p \<longleftrightarrow> (op = PUSH_OP \<longrightarrow> length q + 1 < 2 ^ 32)"

definition qn_link :: "qnode heap \<Rightarrow> ptr \<Rightarrow> ptr" where
  "qn_link h a = (case cells h a of None \<Rightarrow> 0 | Some n \<Rightarrow> qn_next n)"

definition qn_value :: "qnode heap \<Rightarrow> ptr \<Rightarrow> u32" where
  "qn_value h a = (case cells h a of None \<Rightarrow> 0 | Some n \<Rightarrow> qn_val n)"

text \<open>The nodes of the queue, found by following as many links as \<open>q_size\<close> says.\<close>

fun chain :: "(ptr \<Rightarrow> ptr) \<Rightarrow> nat \<Rightarrow> ptr \<Rightarrow> ptr list" where
  "chain nx 0 p = []"
| "chain nx (Suc n) p = p # chain nx n (nx p)"

definition q_nodes :: "queue_data \<Rightarrow> ptr list" where
  "q_nodes q = chain (qn_link (q_heap q)) (unat (q_size q)) (head_node q)"

definition q_abs :: "queue_data \<Rightarrow> u32 list" where
  "q_abs q = map (qn_value (q_heap q)) (q_nodes q)"

definition lchain :: "queue_data \<Rightarrow> ptr list \<Rightarrow> bool" where
  "lchain q as \<longleftrightarrow> lpath (qn_link (q_heap q)) (head_node q) as 0 \<and> set as \<subseteq> dom (cells (q_heap q)) \<and>
     (as \<noteq> [] \<longrightarrow> tail_node q = last as)"

definition q_chain :: "queue_data \<Rightarrow> ptr list \<Rightarrow> bool" where
  "q_chain q as \<longleftrightarrow> lchain q as \<and> length as = unat (q_size q)"

definition q_inv :: "queue_data \<Rightarrow> bool" where
  "q_inv q \<longleftrightarrow> heap_ok (q_heap q) \<and> q_chain q (q_nodes q)"

lemma chain_lpath: "lpath nx p as q \<Longrightarrow> chain nx (length as) p = as"
  by (induction as arbitrary: p) auto

lemma q_nodes_eq: "q_chain q as \<Longrightarrow> q_nodes q = as"
  unfolding q_nodes_def q_chain_def lchain_def by (metis chain_lpath)

lemma q_invI: "heap_ok (q_heap q) \<Longrightarrow> q_chain q as \<Longrightarrow> q_inv q"
  by (simp add: q_inv_def q_nodes_eq)

lemma q_absI: "q_chain q as \<Longrightarrow> q_abs q = map (qn_value (q_heap q)) as"
  by (simp add: q_abs_def q_nodes_eq)


text \<open>Push: the new node becomes the last one of the chain.\<close>

lemma lpath_snoc_upd:
  assumes "lpath nx p as 0" "as \<noteq> []" "n \<noteq> 0" "n \<notin> set as" "nx' (last as) = n" "nx' n = 0"
    and "\<And>a. a \<in> set (butlast as) \<Longrightarrow> nx' a = nx a"
  shows "lpath nx' p (as @ [n]) 0"
  using assms
proof (induction as arbitrary: p)
  case Nil
  then show ?case by simp
next
  case (Cons a as)
  then show ?case by (cases as) auto
qed

lemma lchain_distinct: "lchain q as \<Longrightarrow> distinct as"
  unfolding lchain_def using lpath_distinct by blast

lemma fcq_push_chain:
  assumes ok: "heap_ok (q_heap q)" and ch: "lchain q as" and sz: "q_size q = 0 \<longleftrightarrow> as = []"
  shows "\<exists>q'. fcq_push p q = Some q' \<and> heap_ok (q_heap q') \<and> lchain q' (as @ [brk (q_heap q)]) \<and>
    map (qn_value (q_heap q')) (as @ [brk (q_heap q)]) = map (qn_value (q_heap q)) as @ [p] \<and>
    q_size q' = q_size q + 1 \<and> brk (q_heap q') = Suc (brk (q_heap q))"
proof -
  let ?h = "q_heap q" and ?n = "brk (q_heap q)"
  have sub: "set as \<subseteq> dom (cells ?h)" and path: "lpath (qn_link ?h) (head_node q) as 0" using ch by (auto simp: lchain_def)
  have n: "?n \<noteq> 0" "?n \<notin> set as" using sub heap_ok_brk [OF ok] heap_ok_brk_pos [OF ok] by auto
  define h1 where "h1 = snd (h_new (QNode p) ?h)"
  have ok1: "heap_ok h1" using ok by (auto simp: h1_def h_new_def less_Suc_eq heap_ok_def)
  have c1: "cells h1 = (cells ?h)(?n \<mapsto> QNode p)" and b1: "brk h1 = Suc ?n" by (simp_all add: h1_def h_new_def)
  show ?thesis
  proof (cases "as = []")
    case True
    let ?q = "q\<lparr>q_heap := h1, q_size := q_size q + 1, head_node := ?n, tail_node := ?n\<rparr>"
    have "lchain ?q [?n]" using n by (auto simp: lchain_def c1 qn_link_def QNode_def)
    moreover have "fcq_push p q = Some ?q" using True sz by (simp add: fcq_push_def h_new_def h1_def)
    ultimately show ?thesis using True ok1 b1 by (auto simp: qn_value_def c1 QNode_def)
  next
    case False
    then have tl: "tail_node q = last as" using ch by (simp add: lchain_def)
    obtain t where t: "cells ?h (tail_node q) = Some t" using sub False tl by (metis domD last_in_set subsetD)
    have tn: "tail_node q \<noteq> ?n" using n(2) False tl by (metis last_in_set)
    let ?h2 = "h1\<lparr>cells := (cells h1)(tail_node q \<mapsto> t\<lparr>qn_next := ?n\<rparr>)\<rparr>"
    let ?q = "q\<lparr>q_heap := ?h2, q_size := q_size q + 1, tail_node := ?n\<rparr>"
    have push: "fcq_push p q = Some ?q" using False sz t tn by (simp add: fcq_push_def h_new_def h1_def h_get_def h_set_def)
    have bl: "a \<noteq> last as" if "a \<in> set (butlast as)" for a
      using that lchain_distinct [OF ch] False by (metis append_butlast_last_id distinct_append not_distinct_conv_prefix)
    have "lpath (qn_link ?h2) (head_node q) (as @ [?n]) 0"
      using path False n bl tl by (intro lpath_snoc_upd [of "qn_link ?h"]) (auto simp: qn_link_def c1 QNode_def dest: in_set_butlastD)
    then have "lchain ?q (as @ [?n])" using sub by (auto simp: lchain_def c1)
    moreover have "heap_ok ?h2" using ok1 t by (intro heap_ok_upd) (auto simp: c1)
    moreover have "map (qn_value ?h2) as = map (qn_value ?h) as"
      using n(2) t by (intro map_cong) (auto simp: qn_value_def c1)
    moreover have "qn_value ?h2 ?n = p" using tn by (simp add: qn_value_def c1 QNode_def)
    ultimately show ?thesis using push b1 by (intro exI [of _ ?q]) simp
  qed
qed

lemma fcq_push_correct:
  assumes i: "q_inv q" and pre: "length (q_abs q) + 1 < 2 ^ 32"
  shows "\<exists>q'. fcq_push p q = Some q' \<and> q_abs q' = q_abs q @ [p] \<and> q_inv q'"
proof -
  have ok: "heap_ok (q_heap q)" and ch: "lchain q (q_nodes q)" and len: "length (q_nodes q) = unat (q_size q)"
    using i by (auto simp: q_inv_def q_chain_def)
  have e: "q_size q = 0 \<longleftrightarrow> q_nodes q = []" using len by (metis length_0_conv unat_eq_zero)
  have sz: "unat (q_size q + 1) = Suc (length (q_nodes q))" using pre len by (simp add: q_abs_def unat_word_ariths)
  obtain q' where q': "fcq_push p q = Some q'" "heap_ok (q_heap q')" "lchain q' (q_nodes q @ [brk (q_heap q)])"
    "map (qn_value (q_heap q')) (q_nodes q @ [brk (q_heap q)]) = q_abs q @ [p]" "q_size q' = q_size q + 1"
    using fcq_push_chain [OF ok ch e, of p] unfolding q_abs_def by blast
  then have "q_chain q' (q_nodes q @ [brk (q_heap q)])" using sz by (simp add: q_chain_def)
  then show ?thesis using q' q_absI q_invI by metis
qed

text \<open>Pop: the first node leaves the chain.\<close>

lemma head_chain:
  assumes ch: "lchain q (a # as)"
  obtains nd where "head_node q = a" "cells (q_heap q) a = Some nd" "qn_val nd = qn_value (q_heap q) a"
    and "\<And>q'. head_node q' = qn_next nd \<Longrightarrow> q_heap q' = (q_heap q)\<lparr>cells := (cells (q_heap q))(a := None)\<rparr> \<Longrightarrow>
      (as \<noteq> [] \<Longrightarrow> tail_node q' = tail_node q) \<Longrightarrow>
      lchain q' as \<and> map (qn_value (q_heap q')) as = map (qn_value (q_heap q)) as"
proof -
  let ?h = "q_heap q"
  obtain nd where nd: "cells ?h a = Some nd" using ch by (auto simp: lchain_def)
  have na: "a \<notin> set as" using lchain_distinct [OF ch] by simp
  have path: "lpath (qn_link ?h) (qn_next nd) as 0" using ch nd by (simp add: lchain_def qn_link_def)
  let ?h2 = "?h\<lparr>cells := (cells ?h)(a := None)\<rparr>"
  have "lpath (qn_link ?h2) (qn_next nd) as 0"
    using path na by (subst lpath_cong [where nx' = "qn_link ?h"]) (auto simp: qn_link_def)
  moreover have "map (qn_value ?h2) as = map (qn_value ?h) as" using na by (intro map_cong) (auto simp: qn_value_def)
  moreover have "set as \<subseteq> dom (cells ?h2)" using ch na by (auto simp: lchain_def)
  ultimately show ?thesis using ch nd by (intro that [of nd]) (auto simp: lchain_def qn_value_def)
qed

lemma fcq_pop_correct:
  assumes i: "q_inv q"
  shows "\<exists>q'. fcq_pop q = Some (q', snd (queue_spec (q_abs q) POP_OP p)) \<and>
     q_abs q' = fst (queue_spec (q_abs q) POP_OP p) \<and> q_inv q'"
proof (cases "q_nodes q")
  case Nil
  then have "q_size q = 0" using i by (simp add: q_inv_def q_chain_def unat_eq_zero)
  with Nil i show ?thesis by (simp add: fcq_pop_def queue_spec_def q_abs_def POP_OP_def PUSH_OP_def)
next
  case (Cons a as)
  have ok: "heap_ok (q_heap q)" and ch: "lchain q (a # as)" and len: "Suc (length as) = unat (q_size q)"
    using i Cons by (auto simp: q_inv_def q_chain_def)
  have ne: "q_size q \<noteq> 0" using len by auto
  have sz: "unat (q_size q - 1) = length as" using len ne by (simp add: unat_sub_if_size word_le_nat_alt unat_gt_0 Suc_le_eq)
  obtain nd where nd: "head_node q = a" "cells (q_heap q) a = Some nd" "qn_val nd = qn_value (q_heap q) a"
    and next_chain: "\<And>q'. head_node q' = qn_next nd \<Longrightarrow> q_heap q' = (q_heap q)\<lparr>cells := (cells (q_heap q))(a := None)\<rparr> \<Longrightarrow>
      (as \<noteq> [] \<Longrightarrow> tail_node q' = tail_node q) \<Longrightarrow> lchain q' as \<and> map (qn_value (q_heap q')) as = map (qn_value (q_heap q)) as"
    using head_chain [OF ch] by blast
  let ?q1 = "q\<lparr>head_node := qn_next nd, q_size := q_size q - 1, q_heap := (q_heap q)\<lparr>cells := (cells (q_heap q))(a := None)\<rparr>\<rparr>"
  let ?q = "if q_size ?q1 = 0 then ?q1\<lparr>tail_node := 0\<rparr> else ?q1"
  have pop: "fcq_pop q = Some (?q, qn_val nd)" using ne nd by (simp add: fcq_pop_def h_get_def h_delete_def)
  have "lchain ?q as \<and> map (qn_value (q_heap ?q)) as = map (qn_value (q_heap q)) as"
    using sz by (intro next_chain) (auto simp: unat_eq_zero)
  then have "q_chain ?q as" and m: "map (qn_value (q_heap ?q)) as = map (qn_value (q_heap q)) as"
    using sz by (auto simp: q_chain_def)
  moreover have "heap_ok (q_heap ?q)" using heap_ok_del [OF ok] by simp
  ultimately have "q_inv ?q" "q_abs ?q = map (qn_value (q_heap q)) as" using q_invI [of ?q as] q_absI [of ?q as] by simp_all
  then show ?thesis using pop Cons nd(3) by (auto simp: q_abs_def queue_spec_def POP_OP_def PUSH_OP_def)
qed

interpretation fcq: seq_object fcq_exec q_inv q_abs queue_spec queue_pre
proof
  fix d op p
  assume i: "q_inv d" and pre: "queue_pre (q_abs d) op p"
  show "\<exists>d'. fcq_exec d op p = Some (d', snd (queue_spec (q_abs d) op p)) \<and>
    q_abs d' = fst (queue_spec (q_abs d) op p) \<and> q_inv d'"
  proof (cases "op = PUSH_OP")
    case True
    then show ?thesis using fcq_push_correct [OF i] pre by (auto simp: fcq_exec_def queue_spec_def queue_pre_def)
  next
    case False
    then have "queue_spec (q_abs d) op p = queue_spec (q_abs d) POP_OP p"
      by (simp add: queue_spec_def POP_OP_def PUSH_OP_def)
    then show ?thesis using fcq_pop_correct [OF i, of p] False by (auto simp: fcq_exec_def)
  qed
qed


lemma q_inv_empty [simp]: "q_inv (data (Queue ts))" and q_abs_empty [simp]: "q_abs (data (Queue ts)) = []"
  by (simp_all add: Queue_def q_inv_def q_chain_def lchain_def q_nodes_def q_abs_def)

lemma Queue_quiet [simp]: "fc_quiet S (Queue ts)"
  by (auto simp: fc_quiet_def linked_list_def Queue_def SlotInfo_def intro!: exI [of _ "[]"])

text \<open>A run that is shorter than the counter's range meets the precondition throughout.\<close>

lemma length_queue_spec: "length (fst (queue_spec q op p)) \<le> Suc (length q)"
  by (auto simp: queue_spec_def split: list.splits)

lemma queue_run_pre: "length q + length rs < 2 ^ 32 \<Longrightarrow> run_pre queue_pre queue_spec q rs"
proof (induction rs arbitrary: q)
  case Nil
  then show ?case by simp
next
  case (Cons r rs)
  obtain op p where r: "r = (op, p)" by (cases r)
  have "length (fst (queue_spec q op p)) + length rs < 2 ^ 32" using length_queue_spec [of q op p] Cons.prems by simp
  with Cons.IH Cons.prems r show ?case by (simp add: queue_pre_def)
qed

text \<open>
  C1. Any sequence of fewer than \<open>2 ^ 32\<close> operations on a freshly constructed queue, each
  with any caller's slot, returns (no invalid pointer is used and every call ends), and
  its results are those of a FIFO queue: a push returns the pushed value, a pop the oldest
  value not popped yet, or \<open>0\<close> when there is none. The contents at the end are those of the
  FIFO queue.
\<close>

theorem Queue_operations_fifo:
  assumes "\<forall>c \<in> set cs. fst c \<noteq> 0" and "length cs < 2 ^ 32"
  shows "\<exists>s'. fc_run FCQ_UNUSED_SLOT_THRESHOLD fcq_exec cs (Queue ts) =
      Some (s', snd (run_spec queue_spec [] (map snd cs))) \<and>
    q_abs (data s') = fst (run_spec queue_spec [] (map snd cs)) \<and> q_inv (data s') \<and> fc_quiet UNIV s'"
  using fcq.fc_run_steps [of UNIV "Queue ts" cs FCQ_UNUSED_SLOT_THRESHOLD] assms queue_run_pre [of "[]" "map snd cs"]
  by simp

theorem Queue_operations_fifo_witness:
  "\<exists>s'. fc_run FCQ_UNUSED_SLOT_THRESHOLD fcq_exec
      [(7, PUSH_OP, 5), (8, PUSH_OP, 6), (7, POP_OP, 0), (8, POP_OP, 0), (8, POP_OP, 0)] (Queue 3) =
    Some (s', [5, 6, 5, 6, 0]) \<and> q_abs (data s') = []"
  using Queue_operations_fifo [of "[(7, PUSH_OP, 5), (8, PUSH_OP, 6), (7, POP_OP, 0), (8, POP_OP, 0), (8, POP_OP, 0)]" 3]
  by (auto simp: queue_spec_def PUSH_OP_def POP_OP_def)

text \<open>
  C2. A combiner pass over a publication list \<open>xs\<close> with any number of pending requests (from
  any number of threads) returns; it serves the pending requests in list order as a FIFO
  queue would, gives each slot the result of its own request, leaves none pending, and takes
  off the list only slots that had no request.
\<close>

theorem Queue_flat_combine_serves:
  assumes "slot_path (slots s) (tail_slot s) xs" and "q_inv (data s)"
    and "length (q_abs (data s)) + length xs < 2 ^ 32"
  shows "\<exists>s' ys. Queue_flat_combine s = Some s' \<and> slot_path (slots s') (tail_slot s') ys \<and>
    combined (slots s) (slots s') xs ys (snd (run_spec queue_spec (q_abs (data s)) (requests (slots s) xs))) \<and>
    q_abs (data s') = fst (run_spec queue_spec (q_abs (data s)) (requests (slots s) xs)) \<and> q_inv (data s')"
proof -
  have "length (requests (slots s) xs) \<le> length xs" by (simp add: requests_def pending_def)
  then have "run_pre queue_pre queue_spec (q_abs (data s)) (requests (slots s) xs)"
    using assms(3) by (intro queue_run_pre) simp
  from fcq.combine_all [OF assms(1,2) this, of FCQ_UNUSED_SLOT_THRESHOLD] show ?thesis
    unfolding Queue_flat_combine_def flat_combine_def by (metis fc_more_eq)
qed

definition two_pushes :: "queue_data fc_object" where
  "two_pushes = publish PUSH_OP 9 2 (enq_slot 2 (publish PUSH_OP 8 1 (enq_slot 1 (Queue 0))))"

theorem Queue_flat_combine_serves_witness:
  "\<exists>s' ys. Queue_flat_combine two_pushes = Some s' \<and> slot_path (slots s') (tail_slot s') ys \<and>
    combined (slots two_pushes) (slots s') [2, 1] ys [9, 8] \<and> q_abs (data s') = [9, 8] \<and> q_inv (data s')"
proof -
  have "slot_path (slots two_pushes) (tail_slot two_pushes) [2, 1]" "data two_pushes = data (Queue 0)"
    "requests (slots two_pushes) [2, 1] = [(PUSH_OP, 9), (PUSH_OP, 8)]"
    by (simp_all add: two_pushes_def enq_slot_def publish_def Queue_def)
  then show ?thesis using Queue_flat_combine_serves [of two_pushes "[2, 1]"] by (auto simp: queue_spec_def)
qed

subsection \<open>Destructor and printing\<close>

lemma qn_chain_Cons:
  assumes "lpath (qn_link h) p (a # as) 0" and "set (a # as) \<subseteq> dom (cells h)"
  obtains nd where "p = a" "a \<noteq> 0" "cells h a = Some nd" "lpath (qn_link h) (qn_next nd) as 0"
    "set as \<subseteq> dom (cells h)" "a \<notin> set as"
proof -
  obtain nd where nd: "cells h a = Some nd" using assms(2) by auto
  then have "qn_link h a = qn_next nd" by (simp add: qn_link_def)
  with assms nd lpath_distinct [OF assms(1)] show ?thesis by (intro that [of nd]) auto
qed

lemma queue_free_chain:
  assumes "lpath (qn_link h) p as 0" and "set as \<subseteq> dom (cells h)"
  shows "\<exists>h'. queue_free p h = Some h' \<and> cells h' = (cells h) |` (- set as) \<and> brk h' = brk h"
  using assms
proof (induction as arbitrary: p h)
  case Nil
  then show ?case by (auto simp: queue_free.simps)
next
  case (Cons a as)
  obtain nd where nd: "p = a" "a \<noteq> 0" "cells h a = Some nd" "lpath (qn_link h) (qn_next nd) as 0" and na: "a \<notin> set as"
    by (rule qn_chain_Cons [OF Cons.prems])
  let ?h = "h\<lparr>cells := (cells h)(a := None)\<rparr>"
  have "lpath (qn_link ?h) (qn_next nd) as 0"
    using nd na by (subst lpath_cong [where nx' = "qn_link h"]) (auto simp: qn_link_def)
  moreover have "set as \<subseteq> dom (cells ?h)" using Cons.prems(2) na by auto
  ultimately obtain h' where "queue_free (qn_next nd) ?h = Some h'" "cells h' = (cells ?h) |` (- set as)" "brk h' = brk ?h"
    using Cons.IH [of ?h] by blast
  then show ?case using nd by (subst queue_free.simps) (auto simp: h_get_def h_delete_def restrict_map_def fun_eq_iff)
qed

lemma queue_print_chain:
  assumes "lpath (qn_link h) p as 0" and "set as \<subseteq> dom (cells h)"
  shows "queue_print p h = Some (map (qn_value h) as)"
  using assms
proof (induction as arbitrary: p)
  case Nil
  then show ?case by (simp add: queue_print.simps)
next
  case (Cons a as)
  obtain nd where nd: "p = a" "a \<noteq> 0" "cells h a = Some nd" "lpath (qn_link h) (qn_next nd) as 0"
    by (rule qn_chain_Cons [OF Cons.prems])
  then have "queue_print (qn_next nd) h = Some (map (qn_value h) as)" using Cons by auto
  with nd show ?case by (subst queue_print.simps) (simp add: h_get_def qn_value_def)
qed

text \<open>
  C6. The destructor returns, frees every node of the queue exactly once (a second free would
  have no outcome) and no other memory; \<open>print\<close> returns the contents in FIFO order.
\<close>

theorem Queue_destroy_frees_all:
  assumes "q_inv q"
  shows "\<exists>h'. Queue_destroy q = Some h' \<and> cells h' = (cells (q_heap q)) |` (- set (q_nodes q)) \<and>
    queue_print (head_node q) (q_heap q) = Some (q_abs q)"
  using assms queue_free_chain [of "q_heap q" "head_node q" "q_nodes q"] queue_print_chain [of "q_heap q" "head_node q" "q_nodes q"]
  unfolding Queue_destroy_def q_inv_def q_chain_def lchain_def q_abs_def by blast

definition one_element :: queue_data where
  "one_element = \<lparr>head_node = 1, tail_node = 1, q_size = 1, q_heap = \<lparr>cells = [1 \<mapsto> QNode 5], brk = 2\<rparr>\<rparr>"

theorem Queue_destroy_frees_all_witness:
  "\<exists>h'. Queue_destroy one_element = Some h' \<and> cells h' = Map.empty \<and>
    queue_print (head_node one_element) (q_heap one_element) = Some [5]"
proof -
  have nodes: "q_nodes one_element = [1]" by (simp add: one_element_def q_nodes_def)
  then have "q_inv one_element" and "q_abs one_element = [5]"
    by (auto simp: q_inv_def q_chain_def lchain_def heap_ok_def one_element_def qn_link_def QNode_def q_abs_def qn_value_def)
  then show ?thesis using Queue_destroy_frees_all [of one_element] nodes by (auto simp: one_element_def)
qed

end
