(* ===== verification/FC_Double.thy ===== *)
theory FC_Double
  imports FC_Slots
begin

text \<open>
  Double flat combining (\<open>DoubleFCQueue.hh\<close>, \<open>DoubleFCArrayQueue.hh\<close>): one publication list,
  lock word and operation counter for pushes and one for pops, over shared data. Each side
  is the code of \<open>FC_Slots\<close> with its own variables; \<open>enq_side\<close> and \<open>deq_side\<close> view the object
  through one side's variables and \<open>put_enq_side\<close>, \<open>put_deq_side\<close> write them back.
  \<open>double_object\<close> joins two request bodies on the same data.
\<close>

record 'd double_fc =
  d_slots :: "ptr \<Rightarrow> slot_info"
  d_data :: 'd
  enq_tail_slot :: ptr
  deq_tail_slot :: ptr
  enq_combine_cas :: u32
  deq_combine_cas :: u32
  enq_operation_timestamp :: u32
  deq_operation_timestamp :: u32

definition enq_side :: "'d double_fc \<Rightarrow> 'd fc_object" where
  "enq_side s = \<lparr>slots = d_slots s, operation_timestamp = enq_operation_timestamp s, data = d_data s,
                 tail_slot = enq_tail_slot s, combine_cas = enq_combine_cas s\<rparr>"

definition deq_side :: "'d double_fc \<Rightarrow> 'd fc_object" where
  "deq_side s = \<lparr>slots = d_slots s, operation_timestamp = deq_operation_timestamp s, data = d_data s,
                 tail_slot = deq_tail_slot s, combine_cas = deq_combine_cas s\<rparr>"

definition put_enq_side :: "'d fc_object \<Rightarrow> 'd double_fc \<Rightarrow> 'd double_fc" where
  "put_enq_side c s = s\<lparr>d_slots := slots c, d_data := data c, enq_tail_slot := tail_slot c,
                        enq_combine_cas := combine_cas c, enq_operation_timestamp := operation_timestamp c\<rparr>"

definition put_deq_side :: "'d fc_object \<Rightarrow> 'd double_fc \<Rightarrow> 'd double_fc" where
  "put_deq_side c s = s\<lparr>d_slots := slots c, d_data := data c, deq_tail_slot := tail_slot c,
                        deq_combine_cas := combine_cas c, deq_operation_timestamp := operation_timestamp c\<rparr>"

definition enq_flat_combine :: "int \<Rightarrow> 'd exec_body \<Rightarrow> 'd double_fc \<Rightarrow> 'd double_fc option" where
  "enq_flat_combine thr exec s = map_option (\<lambda>c. put_enq_side c s) (flat_combine thr exec (enq_side s))"

definition deq_flat_combine :: "int \<Rightarrow> 'd exec_body \<Rightarrow> 'd double_fc \<Rightarrow> 'd double_fc option" where
  "deq_flat_combine thr exec s = map_option (\<lambda>c. put_deq_side c s) (flat_combine thr exec (deq_side s))"

text \<open>
  A push does not write the slot's \<open>operation\<close> and a pop writes neither \<open>operation\<close> nor
  \<open>parameter\<close>: the slot keeps the values it has.
\<close>

definition fc_push_operation ::
  "int \<Rightarrow> 'd exec_body \<Rightarrow> u32 \<Rightarrow> ptr \<Rightarrow> 'd double_fc \<Rightarrow> ('d double_fc \<times> u32) option" where
  "fc_push_operation thr exec p slot s =
     map_option (\<lambda>(c, r). (put_enq_side c s, r))
       (fc_operation thr exec (operation (d_slots s slot)) p slot (enq_side s))"

definition fc_pop_operation ::
  "int \<Rightarrow> 'd exec_body \<Rightarrow> ptr \<Rightarrow> 'd double_fc \<Rightarrow> ('d double_fc \<times> u32) option" where
  "fc_pop_operation thr exec slot s =
     map_option (\<lambda>(c, r). (put_deq_side c s, r))
       (fc_operation thr exec (operation (d_slots s slot)) (parameter (d_slots s slot)) slot (deq_side s))"

datatype call = Push ptr u32 | Pop ptr

fun double_run ::
  "int \<Rightarrow> 'd exec_body \<Rightarrow> 'd exec_body \<Rightarrow> call list \<Rightarrow> 'd double_fc \<Rightarrow> ('d double_fc \<times> u32 list) option" where
  "double_run thr enq deq [] s = Some (s, [])"
| "double_run thr enq deq (c # cs) s =
     (case (case c of Push slot p \<Rightarrow> fc_push_operation thr enq p slot s | Pop slot \<Rightarrow> fc_pop_operation thr deq slot s) of
        None \<Rightarrow> None
      | Some (s1, r) \<Rightarrow> map_option (\<lambda>(s2, rs). (s2, r # rs)) (double_run thr enq deq cs s1))"

subsection \<open>Sequential runs of pushes and pops\<close>

fun run_calls :: "('a \<Rightarrow> u32 \<Rightarrow> 'a \<times> u32) \<Rightarrow> ('a \<Rightarrow> 'a \<times> u32) \<Rightarrow> 'a \<Rightarrow> call list \<Rightarrow> 'a \<times> u32 list" where
  "run_calls f g a [] = (a, [])"
| "run_calls f g a (c # cs) =
     (let (a', r) = (case c of Push _ p \<Rightarrow> f a p | Pop _ \<Rightarrow> g a); (b, xs) = run_calls f g a' cs in (b, r # xs))"

fun calls_pre ::
  "('a \<Rightarrow> u32 \<Rightarrow> bool) \<Rightarrow> ('a \<Rightarrow> bool) \<Rightarrow> ('a \<Rightarrow> u32 \<Rightarrow> 'a \<times> u32) \<Rightarrow> ('a \<Rightarrow> 'a \<times> u32) \<Rightarrow> 'a \<Rightarrow> call list \<Rightarrow> bool" where
  "calls_pre P Q f g a [] \<longleftrightarrow> True"
| "calls_pre P Q f g a (Push _ p # cs) \<longleftrightarrow> P a p \<and> calls_pre P Q f g (fst (f a p)) cs"
| "calls_pre P Q f g a (Pop _ # cs) \<longleftrightarrow> Q a \<and> calls_pre P Q f g (fst (g a)) cs"

text \<open>Pushes use the slots \<open>E\<close> and pops the slots \<open>D\<close>.\<close>

fun call_slots :: "ptr set \<Rightarrow> ptr set \<Rightarrow> call \<Rightarrow> bool" where
  "call_slots E D (Push slot _) \<longleftrightarrow> slot \<noteq> 0 \<and> slot \<in> E"
| "call_slots E D (Pop slot) \<longleftrightarrow> slot \<noteq> 0 \<and> slot \<in> D"

definition double_quiet :: "ptr set \<Rightarrow> ptr set \<Rightarrow> 'd double_fc \<Rightarrow> bool" where
  "double_quiet E D s \<longleftrightarrow> E \<inter> D = {} \<and> fc_quiet E (enq_side s) \<and> fc_quiet D (deq_side s)"

text \<open>A side does not depend on the other side's variables, nor on slots it does not own.\<close>

lemma fc_quiet_cong:
  assumes "fc_quiet S s" and "\<And>x. x \<in> S \<Longrightarrow> slots s' x = slots s x"
    and "tail_slot s' = tail_slot s" "combine_cas s' = combine_cas s"
  shows "fc_quiet S s'"
proof -
  obtain xs where xs: "linked_list S s xs" using assms(1) by (auto simp: fc_quiet_def)
  have "slot_path (slots s') (tail_slot s') xs"
    using xs assms(2,3) by (subst slot_path_cong [where sl' = "slots s"]) (auto simp: linked_list_def)
  with xs have "linked_list S s' xs" using assms(2) by (auto simp: linked_list_def)
  with assms show ?thesis by (auto simp: fc_quiet_def)
qed

lemma put_enq_sides [simp]: "enq_side (put_enq_side c s) = c"
  "tail_slot (deq_side (put_enq_side c s)) = tail_slot (deq_side s)"
  "combine_cas (deq_side (put_enq_side c s)) = combine_cas (deq_side s)"
  "d_slots (put_enq_side c s) = slots c" "d_data (put_enq_side c s) = data c"
  by (simp_all add: enq_side_def deq_side_def put_enq_side_def)

lemma put_deq_sides [simp]: "deq_side (put_deq_side c s) = c"
  "tail_slot (enq_side (put_deq_side c s)) = tail_slot (enq_side s)"
  "combine_cas (enq_side (put_deq_side c s)) = combine_cas (enq_side s)"
  "d_slots (put_deq_side c s) = slots c" "d_data (put_deq_side c s) = data c"
  by (simp_all add: enq_side_def deq_side_def put_deq_side_def)

lemma side_fields [simp]: "data (enq_side s) = d_data s" "data (deq_side s) = d_data s"
  "slots (enq_side s) = d_slots s" "slots (deq_side s) = d_slots s"
  by (simp_all add: enq_side_def deq_side_def)

subsection \<open>Two request bodies on the same data\<close>

locale double_object =
  enq: seq_object enq_exec inv abs "\<lambda>a op p. enq_spec a p" "\<lambda>a op p. enq_pre a p" +
  deq: seq_object deq_exec inv abs "\<lambda>a op p. deq_spec a" "\<lambda>a op p. deq_pre a"
  for enq_exec deq_exec :: "'d exec_body" and inv :: "'d \<Rightarrow> bool" and abs :: "'d \<Rightarrow> 'a"
    and enq_spec :: "'a \<Rightarrow> u32 \<Rightarrow> 'a \<times> u32" and deq_spec :: "'a \<Rightarrow> 'a \<times> u32"
    and enq_pre :: "'a \<Rightarrow> u32 \<Rightarrow> bool" and deq_pre :: "'a \<Rightarrow> bool"
begin

lemma push_step:
  assumes q: "double_quiet E D s" and i: "inv (d_data s)" and pre: "enq_pre (abs (d_data s)) p"
    and sl: "slot \<noteq> 0" "slot \<in> E"
  shows "\<exists>s'. fc_push_operation thr enq_exec p slot s = Some (s', snd (enq_spec (abs (d_data s)) p)) \<and>
    abs (d_data s') = fst (enq_spec (abs (d_data s)) p) \<and> inv (d_data s') \<and> double_quiet E D s'"
proof -
  have "fc_quiet E (enq_side s)" "inv (data (enq_side s))" "enq_pre (abs (data (enq_side s))) p"
    using q i pre by (simp_all add: double_quiet_def)
  from enq.fc_operation_step [OF this sl, where op = "operation (d_slots s slot)" and thr = thr]
  obtain c where c: "fc_operation thr enq_exec (operation (d_slots s slot)) p slot (enq_side s) =
      Some (c, snd (enq_spec (abs (d_data s)) p))" "abs (data c) = fst (enq_spec (abs (d_data s)) p)" "inv (data c)"
    "fc_quiet E c" "\<And>x. x \<notin> E \<Longrightarrow> slots c x = d_slots s x"
    unfolding side_fields by blast
  have "fc_quiet D (deq_side (put_enq_side c s))"
    by (rule fc_quiet_cong [of D "deq_side s"]) (use q c(5) in \<open>auto simp: double_quiet_def\<close>)
  moreover have "E \<inter> D = {}" using q by (simp add: double_quiet_def)
  ultimately show ?thesis using c(1-4)
    by (intro exI [of _ "put_enq_side c s"]) (simp add: fc_push_operation_def double_quiet_def)
qed

lemma pop_step:
  assumes q: "double_quiet E D s" and i: "inv (d_data s)" and pre: "deq_pre (abs (d_data s))"
    and sl: "slot \<noteq> 0" "slot \<in> D"
  shows "\<exists>s'. fc_pop_operation thr deq_exec slot s = Some (s', snd (deq_spec (abs (d_data s)))) \<and>
    abs (d_data s') = fst (deq_spec (abs (d_data s))) \<and> inv (d_data s') \<and> double_quiet E D s'"
proof -
  have "fc_quiet D (deq_side s)" "inv (data (deq_side s))" "deq_pre (abs (data (deq_side s)))"
    using q i pre by (simp_all add: double_quiet_def)
  from deq.fc_operation_step [OF this sl, where op = "operation (d_slots s slot)" and p = "parameter (d_slots s slot)" and thr = thr]
  obtain c where c: "fc_operation thr deq_exec (operation (d_slots s slot)) (parameter (d_slots s slot)) slot (deq_side s) =
      Some (c, snd (deq_spec (abs (d_data s))))" "abs (data c) = fst (deq_spec (abs (d_data s)))" "inv (data c)"
    "fc_quiet D c" "\<And>x. x \<notin> D \<Longrightarrow> slots c x = d_slots s x"
    unfolding side_fields by blast
  have "fc_quiet E (enq_side (put_deq_side c s))"
    by (rule fc_quiet_cong [of E "enq_side s"]) (use q c(5) in \<open>auto simp: double_quiet_def\<close>)
  moreover have "E \<inter> D = {}" using q by (simp add: double_quiet_def)
  ultimately show ?thesis using c(1-4)
    by (intro exI [of _ "put_deq_side c s"]) (simp add: fc_pop_operation_def double_quiet_def)
qed

lemma double_run_steps:
  assumes "double_quiet E D s" and "inv (d_data s)" and "\<forall>c \<in> set cs. call_slots E D c"
    and "calls_pre enq_pre deq_pre enq_spec deq_spec (abs (d_data s)) cs"
  shows "\<exists>s'. double_run thr enq_exec deq_exec cs s = Some (s', snd (run_calls enq_spec deq_spec (abs (d_data s)) cs)) \<and>
    abs (d_data s') = fst (run_calls enq_spec deq_spec (abs (d_data s)) cs) \<and> inv (d_data s') \<and> double_quiet E D s'"
  using assms
proof (induction cs arbitrary: s)
  case Nil
  then show ?case by simp
next
  case (Cons c cs)
  show ?case
  proof (cases c)
    case (Push slot p)
    then obtain s1 where "fc_push_operation thr enq_exec p slot s = Some (s1, snd (enq_spec (abs (d_data s)) p))"
      "abs (d_data s1) = fst (enq_spec (abs (d_data s)) p)" "inv (d_data s1)" "double_quiet E D s1"
      using push_step [of E D s p slot thr] Cons.prems by auto
    with Cons.IH [of s1] Cons.prems Push show ?thesis by (auto simp: case_prod_beta Let_def)
  next
    case (Pop slot)
    then obtain s1 where "fc_pop_operation thr deq_exec slot s = Some (s1, snd (deq_spec (abs (d_data s))))"
      "abs (d_data s1) = fst (deq_spec (abs (d_data s)))" "inv (d_data s1)" "double_quiet E D s1"
      using pop_step [of E D s slot thr] Cons.prems by auto
    with Cons.IH [of s1] Cons.prems Pop show ?thesis by (auto simp: case_prod_beta Let_def)
  qed
qed

end

end
