(* ===== verification/Ring.thy ===== *)
theory Ring
  imports SMC_Prelude
begin

text \<open>
  Circular arrays, shared by the array queues (\<open>NEXT_INDEX\<close> of \<open>FCArrayQueue.hh\<close>,
  \<open>DoubleFCArrayQueue.hh\<close>, \<open>LFArrayQueue.h\<close>): an array of \<open>m\<close> words with a head index
  (next to read) and a tail index (next to write). The queue is empty when they are equal,
  so it holds at most \<open>m - 1\<close> elements. \<open>ring_list\<close> reads its contents as a list.
\<close>

definition next_index :: "nat \<Rightarrow> nat \<Rightarrow> nat" where
  "next_index m x = (x + 1) mod m"

definition ring_length :: "nat \<Rightarrow> nat \<Rightarrow> nat \<Rightarrow> nat" where
  "ring_length m h t = (t + m - h) mod m"

definition ring_list :: "nat \<Rightarrow> (nat \<Rightarrow> 'a) \<Rightarrow> nat \<Rightarrow> nat \<Rightarrow> 'a list" where
  "ring_list m arr h t = map (\<lambda>i. arr ((h + i) mod m)) [0..<ring_length m h t]"

lemma next_index_less [simp]: "0 < m \<Longrightarrow> next_index m x < m"
  by (simp add: next_index_def)

lemma next_index_eq: "x < m \<Longrightarrow> next_index m x = (if x + 1 = m then 0 else x + 1)"
  by (auto simp: next_index_def)

lemma ring_length_eq: "h < m \<Longrightarrow> t < m \<Longrightarrow> ring_length m h t = (if h \<le> t then t - h else t + m - h)"
proof (cases "h \<le> t")
  case True
  assume "h < m" "t < m"
  have "t + m - h = (t - h) + m" using True by simp
  then have "(t + m - h) mod m = (t - h) mod m" by (metis mod_add_self2)
  with True \<open>t < m\<close> show ?thesis by (simp add: ring_length_def)
qed (simp add: ring_length_def)

lemma ring_length_less: "0 < m \<Longrightarrow> ring_length m h t < m"
  by (simp add: ring_length_def)

lemma length_ring_list [simp]: "length (ring_list m arr h t) = ring_length m h t"
  by (simp add: ring_list_def)

lemma ring_list_empty [simp]: "ring_list m arr h h = []"
  by (simp add: ring_list_def ring_length_def)

lemma ring_list_Nil_iff: "h < m \<Longrightarrow> t < m \<Longrightarrow> ring_list m arr h t = [] \<longleftrightarrow> h = t"
  by (auto simp: ring_list_def ring_length_eq split: if_splits)

lemma ring_length_push: "h < m \<Longrightarrow> t < m \<Longrightarrow> Suc (ring_length m h t) < m \<Longrightarrow>
    ring_length m h (next_index m t) = Suc (ring_length m h t)"
  by (auto simp: ring_length_eq next_index_eq split: if_splits)

lemma ring_length_pop: "h < m \<Longrightarrow> t < m \<Longrightarrow> h \<noteq> t \<Longrightarrow> ring_length m h t = Suc (ring_length m (next_index m h) t)"
  by (auto simp: ring_length_eq next_index_eq split: if_splits)

lemma ring_last_index: "h < m \<Longrightarrow> t < m \<Longrightarrow> (h + ring_length m h t) mod m = t"
  by (simp add: ring_length_eq)

lemma ring_index_ne:
  assumes "h < m" "t < m" "i < ring_length m h t"
  shows "(h + i) mod m \<noteq> t"
proof (cases "h + i < m")
  case True
  with assms show ?thesis by (auto simp: ring_length_eq split: if_splits)
next
  case False
  then have "(h + i) mod m = h + i - m" using assms ring_length_less [of m h t] by (simp add: le_mod_geq)
  with False assms show ?thesis by (auto simp: ring_length_eq split: if_splits)
qed

lemma ring_list_push:
  assumes "h < m" "t < m" "Suc (ring_length m h t) < m"
  shows "ring_list m (arr(t := v)) h (next_index m t) = ring_list m arr h t @ [v]"
proof -
  have "map (\<lambda>i. (arr(t := v)) ((h + i) mod m)) [0..<ring_length m h t] = ring_list m arr h t"
    unfolding ring_list_def using ring_index_ne [OF assms(1,2)] by (intro map_cong) auto
  then show ?thesis using ring_length_push [OF assms] ring_last_index [OF assms(1,2)]
    by (simp add: ring_list_def)
qed

lemma ring_list_pop:
  assumes "h < m" "t < m" "h \<noteq> t"
  shows "ring_list m arr h t = arr h # ring_list m arr (next_index m h) t"
proof -
  have "(h + Suc i) mod m = (next_index m h + i) mod m" for i
    by (simp add: next_index_def mod_add_left_eq)
  then show ?thesis using assms ring_length_pop [OF assms]
    by (simp add: ring_list_def upt_conv_Cons map_Suc_upt [symmetric] del: upt_Suc)
qed

end
