(* ===== verification/FC_ArrayQueue.thy ===== *)
theory FC_ArrayQueue
  imports FC_Queue FC_Double Ring
begin

text \<open>
  The array flat-combining queues: \<open>FCArrayQueue.hh\<close> (one publication list) and
  \<open>DoubleFCArrayQueue.hh\<close> (one for pushes, one for pops), over a circular array. The code
  checks neither for an empty nor for a full array; \<open>array_pre\<close> states what the callers have
  to guarantee, and the last section shows what happens without it.
\<close>

definition MAX_INDEX :: nat where "MAX_INDEX = 1048576"

lemma MAX_INDEX_pos [simp]: "0 < MAX_INDEX"
  by (simp add: MAX_INDEX_def)

record array_data =
  head_index :: nat
  tail_index :: nat
  queue_array :: "nat \<Rightarrow> u32"
  aq_size :: u32

definition aq_push :: "u32 \<Rightarrow> array_data \<Rightarrow> array_data" where
  "aq_push p q = q\<lparr>queue_array := (queue_array q)(tail_index q := p),
                   tail_index := next_index MAX_INDEX (tail_index q)\<rparr>"

definition aq_pop :: "array_data \<Rightarrow> array_data \<times> u32" where
  "aq_pop q = (q\<lparr>head_index := next_index MAX_INDEX (head_index q)\<rparr>, queue_array q (head_index q))"

definition fcaq_exec :: "array_data exec_body" where
  "fcaq_exec q op p = Some (if op = PUSH_OP then (aq_push p q, p) else aq_pop q)"

text \<open>The array is a member of a heap object without initialiser: \<open>arr\<close> is its indeterminate content.\<close>

definition ArrayQueue :: "u32 \<Rightarrow> (nat \<Rightarrow> u32) \<Rightarrow> array_data fc_object" where
  "ArrayQueue ts arr = \<lparr>slots = (\<lambda>_. SlotInfo), operation_timestamp = ts,
     data = \<lparr>head_index = 0, tail_index = 0, queue_array = arr, aq_size = 0\<rparr>, tail_slot = 0, combine_cas = 0\<rparr>"

definition ArrayQueue_flat_combine :: "array_data fc_object \<Rightarrow> array_data fc_object option" where
  "ArrayQueue_flat_combine = flat_combine FCQ_UNUSED_SLOT_THRESHOLD fcaq_exec"

definition ArrayQueue_fc_operation ::
  "u32 \<Rightarrow> u32 \<Rightarrow> ptr \<Rightarrow> array_data fc_object \<Rightarrow> (array_data fc_object \<times> u32) option" where
  "ArrayQueue_fc_operation = fc_operation FCQ_UNUSED_SLOT_THRESHOLD fcaq_exec"

text \<open>\<open>print\<close> walks from the head index to the tail index.\<close>

partial_function (option) array_print :: "nat \<Rightarrow> array_data \<Rightarrow> u32 list option" where
  "array_print i q =
     (if i = tail_index q then Some []
      else do { vs \<leftarrow> array_print (next_index MAX_INDEX i) q; Some (queue_array q i # vs) })"

subsection \<open>Double flat combining on the array\<close>

definition dfcaq_enq_exec :: "array_data exec_body" where
  "dfcaq_enq_exec q op p = Some (aq_push p q, p)"

definition dfcaq_deq_exec :: "array_data exec_body" where
  "dfcaq_deq_exec q op p = Some (aq_pop q)"

definition DoubleArrayQueue :: "u32 \<Rightarrow> u32 \<Rightarrow> (nat \<Rightarrow> u32) \<Rightarrow> array_data double_fc" where
  "DoubleArrayQueue ts1 ts2 arr = \<lparr>d_slots = (\<lambda>_. SlotInfo),
     d_data = \<lparr>head_index = 0, tail_index = 0, queue_array = arr, aq_size = 0\<rparr>,
     enq_tail_slot = 0, deq_tail_slot = 0, enq_combine_cas = 0, deq_combine_cas = 0,
     enq_operation_timestamp = ts1, deq_operation_timestamp = ts2\<rparr>"

definition DoubleArray_enq_flat_combine :: "array_data double_fc \<Rightarrow> array_data double_fc option" where
  "DoubleArray_enq_flat_combine = enq_flat_combine FCQ_UNUSED_SLOT_THRESHOLD dfcaq_enq_exec"

definition DoubleArray_deq_flat_combine :: "array_data double_fc \<Rightarrow> array_data double_fc option" where
  "DoubleArray_deq_flat_combine = deq_flat_combine FCQ_UNUSED_SLOT_THRESHOLD dfcaq_deq_exec"

definition DoubleArray_fc_push_operation :: "u32 \<Rightarrow> ptr \<Rightarrow> array_data double_fc \<Rightarrow> (array_data double_fc \<times> u32) option" where
  "DoubleArray_fc_push_operation = fc_push_operation FCQ_UNUSED_SLOT_THRESHOLD dfcaq_enq_exec"

definition DoubleArray_fc_pop_operation :: "ptr \<Rightarrow> array_data double_fc \<Rightarrow> (array_data double_fc \<times> u32) option" where
  "DoubleArray_fc_pop_operation = fc_pop_operation FCQ_UNUSED_SLOT_THRESHOLD dfcaq_deq_exec"

subsection \<open>The abstract queue\<close>

definition aq_abs :: "array_data \<Rightarrow> u32 list" where
  "aq_abs q = ring_list MAX_INDEX (queue_array q) (head_index q) (tail_index q)"

definition aq_inv :: "array_data \<Rightarrow> bool" where
  "aq_inv q \<longleftrightarrow> head_index q < MAX_INDEX \<and> tail_index q < MAX_INDEX"

definition array_pre :: "u32 list \<Rightarrow> u32 \<Rightarrow> u32 \<Rightarrow> bool" where
  "array_pre q op p \<longleftrightarrow> (if op = PUSH_OP then length q + 1 < MAX_INDEX else q \<noteq> [])"

definition enq_spec :: "u32 list \<Rightarrow> u32 \<Rightarrow> u32 list \<times> u32" where
  "enq_spec q p = (q @ [p], p)"

definition deq_spec :: "u32 list \<Rightarrow> u32 list \<times> u32" where
  "deq_spec q = (tl q, hd q)"

lemma aq_push_correct:
  "aq_inv q \<Longrightarrow> length (aq_abs q) + 1 < MAX_INDEX \<Longrightarrow> aq_abs (aq_push p q) = aq_abs q @ [p] \<and> aq_inv (aq_push p q)"
  by (simp add: aq_inv_def aq_abs_def aq_push_def ring_list_push)

lemma aq_pop_correct:
  "aq_inv q \<Longrightarrow> aq_abs q \<noteq> [] \<Longrightarrow>
    snd (aq_pop q) = hd (aq_abs q) \<and> aq_abs (fst (aq_pop q)) = tl (aq_abs q) \<and> aq_inv (fst (aq_pop q))"
  by (simp add: aq_inv_def aq_abs_def aq_pop_def ring_list_pop ring_list_Nil_iff)

lemma queue_spec_pop: "q \<noteq> [] \<Longrightarrow> op \<noteq> PUSH_OP \<Longrightarrow> queue_spec q op p = (tl q, hd q)"
  by (cases q) (auto simp: queue_spec_def)

interpretation fcaq: seq_object fcaq_exec aq_inv aq_abs queue_spec array_pre
proof
  fix d op p
  assume "aq_inv d" and "array_pre (aq_abs d) op p"
  then show "\<exists>d'. fcaq_exec d op p = Some (d', snd (queue_spec (aq_abs d) op p)) \<and>
    aq_abs d' = fst (queue_spec (aq_abs d) op p) \<and> aq_inv d'"
    using aq_push_correct [of d p] aq_pop_correct [of d]
    by (cases "op = PUSH_OP") (auto simp: fcaq_exec_def array_pre_def queue_spec_pop queue_spec_def [of _ PUSH_OP] prod_eq_iff)
qed

interpretation dfcaq: double_object dfcaq_enq_exec dfcaq_deq_exec aq_inv aq_abs enq_spec deq_spec
  "\<lambda>q p. length q + 1 < MAX_INDEX" "\<lambda>q. q \<noteq> []"
  using aq_push_correct aq_pop_correct
  by unfold_locales (auto simp: dfcaq_enq_exec_def dfcaq_deq_exec_def enq_spec_def deq_spec_def prod_eq_iff)

lemma ArrayQueue_init [simp]: "aq_inv (data (ArrayQueue ts arr))" "aq_abs (data (ArrayQueue ts arr)) = []"
  "fc_quiet S (ArrayQueue ts arr)"
  by (auto simp: ArrayQueue_def aq_inv_def aq_abs_def fc_quiet_def linked_list_def SlotInfo_def intro!: exI [of _ "[]"])

lemma DoubleArrayQueue_init [simp]: "aq_inv (d_data (DoubleArrayQueue t1 t2 arr))"
  "aq_abs (d_data (DoubleArrayQueue t1 t2 arr)) = []" "double_quiet E D (DoubleArrayQueue t1 t2 arr) \<longleftrightarrow> E \<inter> D = {}"
  by (auto simp: DoubleArrayQueue_def aq_inv_def aq_abs_def double_quiet_def fc_quiet_def linked_list_def
      enq_side_def deq_side_def SlotInfo_def intro!: exI [of _ "[]"])

text \<open>
  C3. A sequence of operations on a fresh array queue in which no pop meets an empty queue and
  no push a queue of \<open>MAX_INDEX - 1\<close> elements returns the results of a FIFO queue.
\<close>

theorem ArrayQueue_operations_fifo:
  assumes "\<forall>c \<in> set cs. fst c \<noteq> 0" and "run_pre array_pre queue_spec [] (map snd cs)"
  shows "\<exists>s'. fc_run FCQ_UNUSED_SLOT_THRESHOLD fcaq_exec cs (ArrayQueue ts arr) =
      Some (s', snd (run_spec queue_spec [] (map snd cs))) \<and>
    aq_abs (data s') = fst (run_spec queue_spec [] (map snd cs)) \<and> aq_inv (data s')"
  using fcaq.fc_run_steps [of UNIV "ArrayQueue ts arr" cs FCQ_UNUSED_SLOT_THRESHOLD] assms by auto

theorem ArrayQueue_operations_fifo_witness:
  "\<exists>s'. fc_run FCQ_UNUSED_SLOT_THRESHOLD fcaq_exec
      [(1, PUSH_OP, 5), (2, PUSH_OP, 6), (1, POP_OP, 0), (1, POP_OP, 0)] (ArrayQueue 0 (\<lambda>_. 77)) = Some (s', [5, 6, 5, 6])"
  using ArrayQueue_operations_fifo [of "[(1, PUSH_OP, 5), (2, PUSH_OP, 6), (1, POP_OP, 0), (1, POP_OP, 0)]" 0 "\<lambda>_. 77"]
  by (auto simp: queue_spec_def array_pre_def PUSH_OP_def POP_OP_def MAX_INDEX_def)



subsection \<open>Printing\<close>

lemma array_print_ring:
  assumes "i < MAX_INDEX" "tail_index q < MAX_INDEX"
  shows "array_print i q = Some (ring_list MAX_INDEX (queue_array q) i (tail_index q))"
  using assms(1)
proof (induction "ring_length MAX_INDEX i (tail_index q)" arbitrary: i)
  case 0
  then have "i = tail_index q" using assms(2) by (auto simp: ring_length_eq split: if_splits)
  then show ?case by (simp add: array_print.simps)
next
  case (Suc n)
  then have ne: "i \<noteq> tail_index q" using assms(2) by (auto simp: ring_length_eq split: if_splits)
  then have "array_print (next_index MAX_INDEX i) q = Some (ring_list MAX_INDEX (queue_array q) (next_index MAX_INDEX i) (tail_index q))"
    using Suc ring_length_pop [of i MAX_INDEX "tail_index q"] assms(2) by auto
  then show ?case using ne Suc.prems assms(2) by (subst array_print.simps) (simp add: ring_list_pop)
qed

subsection \<open>Outside the precondition\<close>

text \<open>
  A pop of an empty array queue is not detected: it returns whatever the array holds and
  moves the head past the tail, after which the queue counts as holding \<open>MAX_INDEX - 1\<close>
  elements. Likewise a push onto \<open>MAX_INDEX - 1\<close> elements makes the queue count as empty.
\<close>

theorem ArrayQueue_unchecked_bounds:
  assumes "aq_inv q"
  shows "(aq_abs q = [] \<longrightarrow> snd (aq_pop q) = queue_array q (head_index q) \<and>
           length (aq_abs (fst (aq_pop q))) = MAX_INDEX - 1) \<and>
         (length (aq_abs q) = MAX_INDEX - 1 \<longrightarrow> aq_abs (aq_push p q) = [])"
proof (intro conjI impI)
  assume "aq_abs q = []"
  then have "head_index q = tail_index q" using assms by (simp add: aq_abs_def aq_inv_def ring_list_Nil_iff)
  then show "snd (aq_pop q) = queue_array q (head_index q)" "length (aq_abs (fst (aq_pop q))) = MAX_INDEX - 1"
    using assms by (auto simp: aq_pop_def aq_abs_def aq_inv_def ring_length_eq next_index_eq)
next
  assume "length (aq_abs q) = MAX_INDEX - 1"
  then have "next_index MAX_INDEX (tail_index q) = head_index q"
    using assms by (auto simp: aq_abs_def aq_inv_def ring_length_eq next_index_eq split: if_splits)
  then show "aq_abs (aq_push p q) = []" by (simp add: aq_abs_def aq_push_def)
qed

theorem ArrayQueue_unchecked_bounds_witness:
  "length (aq_abs (fst (aq_pop (data (ArrayQueue 0 (\<lambda>_. 9)))))) = MAX_INDEX - 1 \<and>
   snd (aq_pop (data (ArrayQueue 0 (\<lambda>_. 9)))) = 9"
proof -
  have "queue_array (data (ArrayQueue 0 (\<lambda>_. 9))) (head_index (data (ArrayQueue 0 (\<lambda>_. 9)))) = 9"
    by (simp add: ArrayQueue_def)
  then show ?thesis using ArrayQueue_unchecked_bounds [of "data (ArrayQueue 0 (\<lambda>_. 9))"] by simp
qed

end
