(* ===== verification/FC_DoubleQueue.thy ===== *)
theory FC_DoubleQueue
  imports FC_Queue FC_Double
begin

text \<open>
  The linked queue with double flat combining (\<open>DoubleFCQueue.hh\<close>). The push side is the code
  of \<open>FCQueue.hh\<close>. The pop side neither tests nor decrements \<open>q_size\<close> and leaves
  \<open>tail_node\<close> alone, so \<open>q_size\<close> counts the pushes so far. The queue works as long as a pop
  leaves at least one element; popping the last one leaves \<open>tail_node\<close> dangling
  (\<open>Double_push_after_drain\<close>).
\<close>

definition dfcq_enq_exec :: "queue_data exec_body" where
  "dfcq_enq_exec q op p = map_option (\<lambda>q'. (q', p)) (fcq_push p q)"

definition dfcq_deq_exec :: "queue_data exec_body" where
  "dfcq_deq_exec q op p =
     do { hd \<leftarrow> h_get (q_heap q) (head_node q);
          h' \<leftarrow> h_delete (head_node q) (q_heap q);
          Some (q\<lparr>head_node := qn_next hd, q_heap := h'\<rparr>, qn_val hd) }"

definition DoubleQueue :: "u32 \<Rightarrow> u32 \<Rightarrow> queue_data double_fc" where
  "DoubleQueue ts1 ts2 = \<lparr>d_slots = (\<lambda>_. SlotInfo),
     d_data = \<lparr>head_node = 0, tail_node = 0, q_size = 0, q_heap = h_empty\<rparr>,
     enq_tail_slot = 0, deq_tail_slot = 0, enq_combine_cas = 0, deq_combine_cas = 0,
     enq_operation_timestamp = ts1, deq_operation_timestamp = ts2\<rparr>"

definition Double_enq_flat_combine :: "queue_data double_fc \<Rightarrow> queue_data double_fc option" where
  "Double_enq_flat_combine = enq_flat_combine FCQ_UNUSED_SLOT_THRESHOLD dfcq_enq_exec"

definition Double_deq_flat_combine :: "queue_data double_fc \<Rightarrow> queue_data double_fc option" where
  "Double_deq_flat_combine = deq_flat_combine FCQ_UNUSED_SLOT_THRESHOLD dfcq_deq_exec"

definition Double_fc_push_operation :: "u32 \<Rightarrow> ptr \<Rightarrow> queue_data double_fc \<Rightarrow> (queue_data double_fc \<times> u32) option" where
  "Double_fc_push_operation = fc_push_operation FCQ_UNUSED_SLOT_THRESHOLD dfcq_enq_exec"

definition Double_fc_pop_operation :: "ptr \<Rightarrow> queue_data double_fc \<Rightarrow> (queue_data double_fc \<times> u32) option" where
  "Double_fc_pop_operation = fc_pop_operation FCQ_UNUSED_SLOT_THRESHOLD dfcq_deq_exec"

definition Double_destroy :: "queue_data \<Rightarrow> qnode heap option" where
  "Double_destroy q = queue_free (head_node q) (q_heap q)"

subsection \<open>The abstract queue: number of pushes and contents\<close>

definition dq_nodes :: "queue_data \<Rightarrow> ptr list" where
  "dq_nodes q = walk (brk (q_heap q)) (qn_link (q_heap q)) (head_node q)"

definition dq_abs :: "queue_data \<Rightarrow> nat \<times> u32 list" where
  "dq_abs q = (unat (q_size q), map (qn_value (q_heap q)) (dq_nodes q))"

definition dq_inv :: "queue_data \<Rightarrow> bool" where
  "dq_inv q \<longleftrightarrow> heap_ok (q_heap q) \<and> lchain q (dq_nodes q) \<and> (q_size q = 0 \<longleftrightarrow> dq_nodes q = [])"

definition dq_enq_spec :: "nat \<times> u32 list \<Rightarrow> u32 \<Rightarrow> (nat \<times> u32 list) \<times> u32" where
  "dq_enq_spec a p = ((fst a + 1, snd a @ [p]), p)"

definition dq_deq_spec :: "nat \<times> u32 list \<Rightarrow> (nat \<times> u32 list) \<times> u32" where
  "dq_deq_spec a = ((fst a, tl (snd a)), hd (snd a))"

text \<open>A chain of allocated nodes is no longer than the heap.\<close>

lemma lchain_length: "heap_ok (q_heap q) \<Longrightarrow> lchain q as \<Longrightarrow> length as \<le> brk (q_heap q)"
  using lchain_distinct by (auto simp: lchain_def intro: heap_ok_length)

lemma dq_nodes_eq: "heap_ok (q_heap q) \<Longrightarrow> lchain q as \<Longrightarrow> dq_nodes q = as"
  using lchain_length by (auto simp: dq_nodes_def lchain_def intro: walk_lpath)

interpretation dfcq: double_object dfcq_enq_exec dfcq_deq_exec dq_inv dq_abs dq_enq_spec dq_deq_spec
  "\<lambda>a p. fst a + 1 < 2 ^ 32" "\<lambda>a. 2 \<le> length (snd a)"
proof unfold_locales
  fix q op p
  assume i: "dq_inv q" and pre: "fst (dq_abs q) + 1 < 2 ^ 32"
  then obtain q' where q': "fcq_push p q = Some q'" "heap_ok (q_heap q')" "lchain q' (dq_nodes q @ [brk (q_heap q)])"
    "map (qn_value (q_heap q')) (dq_nodes q @ [brk (q_heap q)]) = snd (dq_abs q) @ [p]" "q_size q' = q_size q + 1"
    using fcq_push_chain [of q "dq_nodes q" p] by (auto simp: dq_inv_def dq_abs_def)
  have "unat (q_size q') = Suc (unat (q_size q))" using pre q'(5) by (simp add: dq_abs_def unat_word_ariths)
  moreover have "dq_nodes q' = dq_nodes q @ [brk (q_heap q)]" using q' by (intro dq_nodes_eq)
  ultimately have "dq_abs q' = fst (dq_enq_spec (dq_abs q) p)" "dq_inv q'"
    using q' by (auto simp: dq_abs_def dq_enq_spec_def dq_inv_def simp flip: unat_eq_zero)
  then show "\<exists>d'. dfcq_enq_exec q op p = Some (d', snd (dq_enq_spec (dq_abs q) p)) \<and>
      dq_abs d' = fst (dq_enq_spec (dq_abs q) p) \<and> dq_inv d'"
    using q'(1) by (simp add: dfcq_enq_exec_def dq_enq_spec_def)
next
  fix q op p
  assume i: "dq_inv q" and pre: "2 \<le> length (snd (dq_abs q))"
  then obtain a as where as: "dq_nodes q = a # as" "as \<noteq> []" by (cases "dq_nodes q"; cases "tl (dq_nodes q)") (auto simp: dq_abs_def)
  have ok: "heap_ok (q_heap q)" and ch: "lchain q (a # as)" and sz: "q_size q \<noteq> 0" using i as by (auto simp: dq_inv_def)
  obtain nd where nd: "head_node q = a" "cells (q_heap q) a = Some nd" "qn_val nd = qn_value (q_heap q) a"
    and next_chain: "\<And>q'. head_node q' = qn_next nd \<Longrightarrow> q_heap q' = (q_heap q)\<lparr>cells := (cells (q_heap q))(a := None)\<rparr> \<Longrightarrow>
      (as \<noteq> [] \<Longrightarrow> tail_node q' = tail_node q) \<Longrightarrow> lchain q' as \<and> map (qn_value (q_heap q')) as = map (qn_value (q_heap q)) as"
    using head_chain [OF ch] by blast
  let ?q = "q\<lparr>head_node := qn_next nd, q_heap := (q_heap q)\<lparr>cells := (cells (q_heap q))(a := None)\<rparr>\<rparr>"
  have ch': "lchain ?q as" and m: "map (qn_value (q_heap ?q)) as = map (qn_value (q_heap q)) as"
    using next_chain [of ?q] by simp_all
  have ok': "heap_ok (q_heap ?q)" using heap_ok_del [OF ok] by simp
  have n: "dq_nodes ?q = as" by (rule dq_nodes_eq [OF ok' ch'])
  have "dq_inv ?q" using ok' ch' n as(2) sz by (simp add: dq_inv_def)
  moreover have "dq_abs ?q = fst (dq_deq_spec (dq_abs q))" using n m as by (simp add: dq_abs_def dq_deq_spec_def)
  ultimately show "\<exists>d'. dfcq_deq_exec q op p = Some (d', snd (dq_deq_spec (dq_abs q))) \<and>
      dq_abs d' = fst (dq_deq_spec (dq_abs q)) \<and> dq_inv d'"
    using nd as by (auto simp: dfcq_deq_exec_def h_get_def h_delete_def dq_abs_def dq_deq_spec_def)
qed

lemma DoubleQueue_init [simp]: "dq_inv (d_data (DoubleQueue t1 t2))" "dq_abs (d_data (DoubleQueue t1 t2)) = (0, [])"
  "double_quiet E D (DoubleQueue t1 t2) \<longleftrightarrow> E \<inter> D = {}"
  by (auto simp: DoubleQueue_def dq_inv_def dq_nodes_def dq_abs_def lchain_def h_empty_def heap_ok_def double_quiet_def
      fc_quiet_def linked_list_def enq_side_def deq_side_def SlotInfo_def intro!: exI [of _ "[]"])

text \<open>
  C5. Pushes and pops on disjoint slots behave as a FIFO queue as long as every pop leaves at
  least one element and there are fewer than \<open>2 ^ 32\<close> pushes.
\<close>

theorem DoubleQueue_operations_fifo:
  assumes "E \<inter> D = {}" and "\<forall>c \<in> set cs. call_slots E D c"
    and "calls_pre (\<lambda>a p. fst a + 1 < 2 ^ 32) (\<lambda>a. 2 \<le> length (snd a)) dq_enq_spec dq_deq_spec (0, []) cs"
  shows "\<exists>s'. double_run FCQ_UNUSED_SLOT_THRESHOLD dfcq_enq_exec dfcq_deq_exec cs (DoubleQueue t1 t2) =
      Some (s', snd (run_calls dq_enq_spec dq_deq_spec (0, []) cs)) \<and>
    dq_abs (d_data s') = fst (run_calls dq_enq_spec dq_deq_spec (0, []) cs)"
  using dfcq.double_run_steps [of E D "DoubleQueue t1 t2" cs FCQ_UNUSED_SLOT_THRESHOLD] assms by auto

theorem DoubleQueue_operations_fifo_witness:
  "\<exists>s'. double_run FCQ_UNUSED_SLOT_THRESHOLD dfcq_enq_exec dfcq_deq_exec [Push 1 5, Push 1 6, Pop 2] (DoubleQueue 0 0) =
     Some (s', [5, 6, 5]) \<and> dq_abs (d_data s') = (2, [6])"
  using DoubleQueue_operations_fifo [of "{1}" "{2}" "[Push 1 5, Push 1 6, Pop 2]" 0 0]
  by (auto simp: dq_enq_spec_def dq_deq_spec_def)


end
