(* ===== verification/Sorted_Chain.thy ===== *)
theory Sorted_Chain
  imports SMC_Prelude
begin

text \<open>
  Sorted linked lists between two sentinels, as the list and skip-list programs build them:
  the traversal loop \<open>while (curr->key < param)\<close>, insertion between the two nodes it stops
  at, and removal of the second one. A position in the list is a zipper: the nodes \<open>us\<close>
  already passed and the nodes \<open>cs\<close> from the current one on. The lemmas hold for any memory
  that gives each node a key \<open>ky\<close> and a link \<open>nx\<close>; the components instantiate them with the
  C++ heap, with the memory vault of the processor-in-memory (PIM), and with each level of a
  skip list.

  \<open>set_step\<close> is the abstract set of keys these programs implement.
\<close>

subsection \<open>The traversal\<close>

text \<open>
  \<open>rd\<close> reads the key and the link of a node (\<^const>\<open>None\<close> when the pointer is invalid). The
  result is the pair of the previous and the current pointer where the loop stops.
\<close>

partial_function (option) advance ::
  "('p \<Rightarrow> (u32 \<times> 'p) option) \<Rightarrow> u32 \<Rightarrow> 'p \<Rightarrow> 'p \<Rightarrow> ('p \<times> 'p) option" where
  "advance rd param prev cur =
     (case rd cur of
        None \<Rightarrow> None
      | Some (k, n) \<Rightarrow> if k < param then advance rd param cur n else Some (prev, cur))"

definition prev_of :: "'p::zero list \<Rightarrow> 'p" where
  "prev_of us = (if us = [] then 0 else last us)"

definition sorted_keys :: "('p \<Rightarrow> u32) \<Rightarrow> 'p list \<Rightarrow> bool" where
  "sorted_keys ky as \<longleftrightarrow> sorted_wrt (<) (map ky as)"

definition sorted_chain :: "('p::zero \<Rightarrow> 'p) \<Rightarrow> ('p \<Rightarrow> u32) \<Rightarrow> 'p \<Rightarrow> 'p list \<Rightarrow> bool" where
  "sorted_chain nx ky h as \<longleftrightarrow> lpath nx h as 0 \<and> sorted_keys ky as"

lemma sorted_keys_append [path_simps]:
  "sorted_keys ky (as @ bs) \<longleftrightarrow> sorted_keys ky as \<and> sorted_keys ky bs \<and> (\<forall>a \<in> set as. \<forall>b \<in> set bs. ky a < ky b)"
  by (auto simp: sorted_keys_def sorted_wrt_append)

lemma sorted_keys_Cons [path_simps]:
  "sorted_keys ky (a # as) \<longleftrightarrow> sorted_keys ky as \<and> (\<forall>b \<in> set as. ky a < ky b)"
  by (auto simp: sorted_keys_def)

lemma sorted_keys_Nil [simp]: "sorted_keys ky []"
  by (simp add: sorted_keys_def)

lemma sorted_keys_cong: "(\<And>a. a \<in> set as \<Longrightarrow> ky a = ky' a) \<Longrightarrow> sorted_keys ky as \<longleftrightarrow> sorted_keys ky' as"
  unfolding sorted_keys_def by (metis list.map_cong0)

lemma sorted_keys_inj: "sorted_keys ky as \<Longrightarrow> a \<in> set as \<Longrightarrow> b \<in> set as \<Longrightarrow> ky a = ky b \<Longrightarrow> a = b"
proof (induction as)
  case (Cons x as)
  then have "ky x < ky c" if "c \<in> set as" for c using that by (simp add: sorted_keys_Cons)
  then show ?case using Cons by (metis order_less_irrefl set_ConsD sorted_keys_Cons)
qed simp

lemma sorted_chain_distinct: "sorted_chain nx ky h as \<Longrightarrow> distinct as"
  by (auto simp: sorted_chain_def intro: lpath_distinct)

lemma prev_of_simps [simp]: "prev_of [] = 0" "prev_of (us @ [u]) = u"
  by (simp_all add: prev_of_def)

text \<open>Where the traversal stops.\<close>

definition stop_at :: "('p \<Rightarrow> u32) \<Rightarrow> u32 \<Rightarrow> 'p list \<Rightarrow> 'p list \<Rightarrow> bool" where
  "stop_at ky param us cs \<longleftrightarrow> cs \<noteq> [] \<and> param \<le> ky (hd cs) \<and> (\<forall>u \<in> set us. ky u < param)"

lemma advance_stop:
  assumes "lpath nx c cs 0" and "\<And>a. a \<in> set cs \<Longrightarrow> rd a = Some (ky a, nx a)"
    and "cs \<noteq> []" and "param \<le> ky (last cs)" and "\<forall>u \<in> set us. ky u < param"
  shows "\<exists>us' cs'. us' @ cs' = us @ cs \<and> length us \<le> length us' \<and> stop_at ky param us' cs' \<and>
    advance rd param (prev_of us) c = Some (prev_of us', hd cs')"
  using assms
proof (induction cs arbitrary: us c)
  case Nil
  then show ?case by simp
next
  case (Cons a cs)
  have rd: "rd c = Some (ky a, nx a)" and c: "c = a" using Cons.prems by auto
  show ?case
  proof (cases "ky a < param")
    case True
    then have ne: "cs \<noteq> []" using Cons.prems(4) by auto
    obtain us' cs' where r: "us' @ cs' = (us @ [a]) @ cs" "length (us @ [a]) \<le> length us'" "stop_at ky param us' cs'"
        "advance rd param (prev_of (us @ [a])) (nx a) = Some (prev_of us', hd cs')"
      using Cons.IH [of "nx a" "us @ [a]"] Cons.prems True ne by auto
    have "advance rd param (prev_of us) c = advance rd param (prev_of (us @ [a])) (nx a)"
      using rd c True by (subst advance.simps) simp
    then show ?thesis using r by (intro exI [of _ us'] exI [of _ cs']) simp
  next
    case False
    then have "advance rd param (prev_of us) c = Some (prev_of us, hd (a # cs))"
      using rd c by (subst advance.simps) simp
    then show ?thesis using False Cons.prems(5) by (intro exI [of _ us] exI [of _ "a # cs"]) (auto simp: stop_at_def)
  qed
qed

text \<open>The key is in the list exactly if the traversal stops at it.\<close>

lemma stop_at_mem:
  assumes "sorted_keys ky (us @ cs)" and "stop_at ky param us cs"
  shows "param \<in> ky ` set (us @ cs) \<longleftrightarrow> ky (hd cs) = param"
proof -
  obtain c cs' where cs: "cs = c # cs'" using assms(2) by (cases cs) (auto simp: stop_at_def)
  show ?thesis using assms by (auto simp: cs stop_at_def path_simps)
qed

subsection \<open>Insertion and removal\<close>

lemma lpath_end: "lpath nx h (us @ cs) 0 \<Longrightarrow> us \<noteq> [] \<Longrightarrow> lpath nx (nx (last us)) cs 0"
  by (induction us arbitrary: h) (auto split: if_splits)

lemma lpath_relink:
  assumes "lpath nx h (us @ cs) 0" and "us \<noteq> []" and "lpath nx' m ds 0" and "nx' (last us) = m"
    and "\<And>a. a \<in> set us \<Longrightarrow> a \<noteq> last us \<Longrightarrow> nx' a = nx a"
  shows "lpath nx' h (us @ ds) 0"
proof -
  have d: "distinct us" using lpath_distinct [OF assms(1)] by simp
  obtain vs u where us: "us = vs @ [u]" using assms(2) by (metis rev_exhaust)
  then have "nx a = nx' a" if "a \<in> set vs" for a using that d assms(5) [of a] by (cases "a = u") auto
  then have "lpath nx h vs u \<longleftrightarrow> lpath nx' h vs u" by (rule lpath_cong)
  then show ?thesis using assms us by (auto simp: lpath_append)
qed

lemma sorted_chain_insert:
  assumes "sorted_chain nx ky h (us @ cs)" and "us \<noteq> []" and "stop_at ky param us cs" and "ky (hd cs) \<noteq> param"
    and "a \<noteq> 0" and "a \<notin> set (us @ cs)" and "nx' a = hd cs" and "nx' (last us) = a" and "ky' a = param"
    and "\<And>b. b \<in> set (us @ cs) \<Longrightarrow> b \<noteq> last us \<Longrightarrow> nx' b = nx b" and "\<And>b. b \<in> set (us @ cs) \<Longrightarrow> ky' b = ky b"
  shows "sorted_chain nx' ky' h (us @ a # cs)"
proof -
  have p: "lpath nx h (us @ cs) 0" and s: "sorted_keys ky (us @ cs)" using assms(1) by (auto simp: sorted_chain_def)
  obtain c cs' where cs: "cs = c # cs'" using assms(3) by (cases cs) (auto simp: stop_at_def)
  have d: "distinct (us @ cs)" using assms(1) by (rule sorted_chain_distinct)
  have l: "last us \<notin> set cs" using d assms(2) by (metis disjoint_iff distinct_append last_in_set)
  have "lpath nx' (nx (last us)) cs 0"
    using lpath_end [OF p assms(2)] l assms(10) lpath_cong [of cs nx nx' "nx (last us)" 0]
    by (metis UnCI set_append)
  moreover have "nx (last us) = hd cs" using lpath_end [OF p assms(2)] cs by simp
  ultimately have "lpath nx' a (a # cs) 0" using assms(5,7) by simp
  then have "lpath nx' h (us @ a # cs) 0" using assms(8,10) by (intro lpath_relink [OF p assms(2)]) auto
  moreover have "sorted_keys ky' (us @ a # cs)"
  proof -
    have "sorted_keys ky' us" "sorted_keys ky' cs"
      using s assms(11) sorted_keys_cong [of us ky ky'] sorted_keys_cong [of cs ky ky'] by (auto simp: path_simps)
    moreover have "param < ky c" using assms(3,4) cs by (auto simp: stop_at_def)
    ultimately show ?thesis using s assms(3,9,11) cs by (auto simp: path_simps stop_at_def)
  qed
  ultimately show ?thesis by (simp add: sorted_chain_def)
qed

lemma sorted_chain_remove:
  assumes "sorted_chain nx ky h (us @ c # cs)" and "us \<noteq> []" and "nx' (last us) = nx c"
    and "\<And>b. b \<in> set (us @ cs) \<Longrightarrow> b \<noteq> last us \<Longrightarrow> nx' b = nx b" and "\<And>b. b \<in> set (us @ cs) \<Longrightarrow> ky' b = ky b"
  shows "sorted_chain nx' ky' h (us @ cs)"
proof -
  have p: "lpath nx h (us @ c # cs) 0" and s: "sorted_keys ky (us @ cs)"
    using assms(1) by (auto simp: sorted_chain_def path_simps)
  have d: "distinct (us @ c # cs)" using assms(1) by (rule sorted_chain_distinct)
  have l: "last us \<notin> set cs" using d assms(2) by (metis disjoint_iff distinct_append last_in_set list.set_intros(2))
  have "lpath nx' (nx c) cs 0"
  proof -
    have "nx b = nx' b" if "b \<in> set cs" for b using that l assms(4) [of b] by (cases "b = last us") auto
    then have "lpath nx (nx c) cs 0 \<longleftrightarrow> lpath nx' (nx c) cs 0" by (rule lpath_cong)
    then show ?thesis using lpath_end [OF p assms(2)] by simp
  qed
  then have "lpath nx' h (us @ cs) 0" using assms(3) by (rule lpath_relink [OF p assms(2)]) (use assms(4) in simp)
  moreover have "sorted_keys ky (us @ cs) \<longleftrightarrow> sorted_keys ky' (us @ cs)"
    by (rule sorted_keys_cong) (use assms(5) in simp)
  ultimately show ?thesis using s by (simp add: sorted_chain_def)
qed

lemma sorted_chain_cong:
  assumes "sorted_chain nx ky h as" and "\<And>b. b \<in> set as \<Longrightarrow> nx' b = nx b" and "\<And>b. b \<in> set as \<Longrightarrow> ky' b = ky b"
  shows "sorted_chain nx' ky' h as"
proof -
  have "lpath nx h as 0 \<longleftrightarrow> lpath nx' h as 0" by (rule lpath_cong) (use assms(2) in simp)
  moreover have "sorted_keys ky as \<longleftrightarrow> sorted_keys ky' as" by (rule sorted_keys_cong) (use assms(3) in simp)
  ultimately show ?thesis using assms(1) by (simp add: sorted_chain_def)
qed

text \<open>Removing a node removes exactly its key.\<close>

lemma sorted_keys_remove:
  "sorted_keys ky (us @ c # cs) \<Longrightarrow> ky ` set (us @ cs) = ky ` set (us @ c # cs) - {ky c}"
  by (auto simp: path_simps)

subsection \<open>The abstract set of keys\<close>

datatype set_op = Contains | Add | Remove

fun set_step :: "u32 set \<Rightarrow> set_op \<Rightarrow> u32 \<Rightarrow> u32 set \<times> u32" where
  "set_step A Contains p = (A, of_bool (p \<in> A))"
| "set_step A Add p = (insert p A, of_bool (p \<notin> A))"
| "set_step A Remove p = (A - {p}, of_bool (p \<in> A))"

text \<open>The keys of a list strictly between those of its two sentinels.\<close>

definition keys_between :: "u32 \<Rightarrow> u32 \<Rightarrow> ('p \<Rightarrow> u32) \<Rightarrow> 'p list \<Rightarrow> u32 set" where
  "keys_between lo hi ky as = {k \<in> ky ` set as. lo < k \<and> k < hi}"

lemma keys_between_mem:
  assumes "sorted_keys ky (us @ cs)" and "stop_at ky p us cs" and "lo < p" and "p < hi"
  shows "p \<in> keys_between lo hi ky (us @ cs) \<longleftrightarrow> ky (hd cs) = p"
  using stop_at_mem [OF assms(1,2)] assms(3,4) by (simp add: keys_between_def)

lemma keys_between_insert:
  assumes "\<And>b. b \<in> set (us @ cs) \<Longrightarrow> ky' b = ky b" and "lo < ky' a" and "ky' a < hi"
  shows "keys_between lo hi ky' (us @ a # cs) = insert (ky' a) (keys_between lo hi ky (us @ cs))"
proof -
  have "ky' ` set (us @ cs) = ky ` set (us @ cs)" using assms(1) by (intro image_cong) simp_all
  then show ?thesis using assms(2,3) by (auto simp: keys_between_def)
qed

lemma keys_between_remove:
  assumes "sorted_keys ky (us @ c # cs)" and "\<And>b. b \<in> set (us @ cs) \<Longrightarrow> ky' b = ky b"
  shows "keys_between lo hi ky' (us @ cs) = keys_between lo hi ky (us @ c # cs) - {ky c}"
proof -
  have "ky' ` set (us @ cs) = ky ` set (us @ cs)" using assms(2) by (intro image_cong) simp_all
  then have "ky' ` set (us @ cs) = ky ` set (us @ c # cs) - {ky c}"
    by (rule trans [OF _ sorted_keys_remove [OF assms(1)]])
  then show ?thesis unfolding keys_between_def by blast
qed

end
