(* ===== verification/FC_List.thy ===== *)
theory FC_List
  imports FC_Slots Sorted_Chain "HOL-Library.Multiset"
begin

text \<open>
  The flat-combining sorted list of \<open>SW/HOST/app/multithread_mainmem_linkedlist\<close>
  (\<open>FCLinkedList.h\<close>). Unlike the queues, its combiner first collects the pending requests,
  sorts them by key, and executes all of them in one pass over the list.

  \<open>std::sort\<close> is not stable: it is the argument \<open>srt\<close>, of which only that it returns a sorted
  permutation is used (\<open>sorts_requests\<close>).
\<close>

definition ADD_OP :: u32 where "ADD_OP = 0x4000"
definition REMOVE_OP :: u32 where "REMOVE_OP = 0x2000"
definition CONTAINS_OP :: u32 where "CONTAINS_OP = 0x6000"
definition FCL_UNUSED_SLOT_THRESHOLD :: int where "FCL_UNUSED_SLOT_THRESHOLD = 15"

record lnode =
  key :: u32
  next_node :: ptr

record list_data =
  l_head_node :: ptr
  l_tail_node :: ptr
  region :: "lnode heap"

record list_fc = "list_data comb_state" +
  l_tail_slot :: ptr
  combine_lock :: bool
  combine_lock_status :: bool
  tail_slot_lock :: bool

definition LinkedList :: "ptr \<Rightarrow> ptr \<Rightarrow> (ptr \<Rightarrow> slot_info) \<Rightarrow> lnode heap \<Rightarrow> list_fc" where
  "LinkedList hn tn sl h = \<lparr>slots = sl, operation_timestamp = 0,
     data = \<lparr>l_head_node = hn, l_tail_node = tn, region = h\<rparr>,
     l_tail_slot = 0, combine_lock = False, combine_lock_status = False, tail_slot_lock = False\<rparr>"

text \<open>A mutex that is already held blocks the thread: alone it does not return.\<close>

definition list_enq_slot :: "ptr \<Rightarrow> list_fc \<Rightarrow> list_fc option" where
  "list_enq_slot slot s =
     (if tail_slot_lock s then None
      else Some (s\<lparr>slots := (slots s)(slot := (slots s slot)\<lparr>is_slot_linked := True,
                     op_timestamp := operation_timestamp s, next_slot := l_tail_slot s\<rparr>),
                   l_tail_slot := slot\<rparr>))"

text \<open>The first loop of \<open>flat_combine_sort\<close>: collect the valid requests, unlink idle slots.\<close>

partial_function (option) collect_loop ::
  "ptr \<Rightarrow> ptr \<Rightarrow> ptr list \<Rightarrow> (list_data, 'm) comb_state_scheme \<Rightarrow> (ptr list \<times> (list_data, 'm) comb_state_scheme) option" where
  "collect_loop cur prev reqs s =
     (if cur = 0 then Some (reqs, s)
      else if is_request_valid (slots s cur) then
        collect_loop (next_slot (slots s cur)) cur (reqs @ [cur]) s
      else if cur \<noteq> prev \<and> FCL_UNUSED_SLOT_THRESHOLD < sint (operation_timestamp s - op_timestamp (slots s cur)) then
        collect_loop (next_slot (slots (unlink_slot cur prev s) prev)) prev reqs (unlink_slot cur prev s)
      else collect_loop (next_slot (slots s cur)) cur reqs s)"

definition rd_node :: "lnode heap \<Rightarrow> ptr \<Rightarrow> (u32 \<times> ptr) option" where
  "rd_node h p = map_option (\<lambda>n. (key n, next_node n)) (h_get h p)"

definition link_node :: "ptr \<Rightarrow> ptr \<Rightarrow> lnode heap \<Rightarrow> lnode heap option" where
  "link_node p v h = do { n \<leftarrow> h_get h p; h_set p (n\<lparr>next_node := v\<rparr>) h }"

text \<open>
  One request: move on to the first node whose key is not smaller, then look, insert or
  remove there. The state is the heap with the current position \<open>(prev_node, curr_node)\<close>.
\<close>

definition exec_request ::
  "u32 \<Rightarrow> u32 \<Rightarrow> ptr \<times> ptr \<times> lnode heap \<Rightarrow> ((ptr \<times> ptr \<times> lnode heap) \<times> u32) option" where
  "exec_request op param = (\<lambda>(prev, cur, h).
     do { (prv, c) \<leftarrow> advance (rd_node h) param prev cur;
          (k, n) \<leftarrow> rd_node h c;
          if op = CONTAINS_OP then Some ((prv, c, h), if k = param then 1 else 0)
          else if op = ADD_OP then
            (if k \<noteq> param then
               do { let (new, h1) = h_new \<lparr>key = param, next_node = c\<rparr> h;
                    h2 \<leftarrow> link_node prv new h1;
                    Some ((prv, new, h2), 1) }
             else Some ((prv, c, h), 0))
          else
            (if k = param then
               do { h1 \<leftarrow> link_node prv n h;
                    (k', c') \<leftarrow> rd_node h1 prv;
                    Some ((prv, c', h1), 1) }
             else Some ((prv, c, h), 0)) })"

definition finish_slot :: "ptr \<Rightarrow> u32 \<Rightarrow> (list_data, 'm) comb_state_scheme \<Rightarrow> (list_data, 'm) comb_state_scheme" where
  "finish_slot x r s =
     s\<lparr>slots := (slots s)(x := (slots s x)\<lparr>ret_val := r, op_timestamp := operation_timestamp s, is_request_valid := False\<rparr>),
       operation_timestamp := operation_timestamp s + 1\<rparr>"

fun exec_requests ::
  "ptr list \<Rightarrow> ptr \<times> ptr \<times> lnode heap \<Rightarrow> (list_data, 'm) comb_state_scheme \<Rightarrow>
   ((ptr \<times> ptr \<times> lnode heap) \<times> (list_data, 'm) comb_state_scheme) option" where
  "exec_requests [] z s = Some (z, s)"
| "exec_requests (x # xs) z s =
     do { (z', r) \<leftarrow> exec_request (operation (slots s x)) (parameter (slots s x)) z;
          exec_requests xs z' (finish_slot x r s) }"

definition flat_combine_sort :: "((ptr \<Rightarrow> u32) \<Rightarrow> ptr list \<Rightarrow> ptr list) \<Rightarrow> list_fc \<Rightarrow> list_fc option" where
  "flat_combine_sort srt s =
     (if tail_slot_lock s then None
      else do { (reqs, s1) \<leftarrow> collect_loop (l_tail_slot s) (l_tail_slot s) [] s;
                ((_, _, h), s2) \<leftarrow> exec_requests (srt (\<lambda>x. parameter (slots s1 x)) reqs)
                                     (0, l_head_node (data s), region (data s)) s1;
                Some (s2\<lparr>data := (data s2)\<lparr>region := h\<rparr>\<rparr>) })"

definition list_enq_if_unlinked :: "ptr \<Rightarrow> list_fc \<Rightarrow> list_fc option" where
  "list_enq_if_unlinked slot s =
     (if \<not> is_slot_linked (slots s slot) \<and> is_request_valid (slots s slot) then list_enq_slot slot s else Some s)"

definition list_publish :: "u32 \<Rightarrow> u32 \<Rightarrow> ptr \<Rightarrow> list_fc \<Rightarrow> list_fc" where
  "list_publish op p slot s =
     s\<lparr>slots := (slots s)(slot := (slots s slot)\<lparr>operation := op, parameter := p, is_request_valid := True\<rparr>)\<rparr>"

definition list_fc_operation ::
  "((ptr \<Rightarrow> u32) \<Rightarrow> ptr list \<Rightarrow> ptr list) \<Rightarrow> u32 \<Rightarrow> u32 \<Rightarrow> ptr \<Rightarrow> list_fc \<Rightarrow> (list_fc \<times> u32) option" where
  "list_fc_operation srt op p slot s =
     do { s1 \<leftarrow> list_enq_if_unlinked slot (list_publish op p slot s);
          if combine_lock s1 then None
          else do { s2 \<leftarrow> list_enq_if_unlinked slot (s1\<lparr>combine_lock := True, combine_lock_status := True\<rparr>);
                    s3 \<leftarrow> flat_combine_sort srt s2;
                    Some (s3\<lparr>combine_lock := False, combine_lock_status := False\<rparr>, ret_val (slots s3 slot)) } }"

subsection \<open>The abstract set\<close>

definition op_of :: "u32 \<Rightarrow> set_op" where
  "op_of op = (if op = CONTAINS_OP then Contains else if op = ADD_OP then Add else Remove)"

definition list_spec :: "u32 set seq_spec" where
  "list_spec A op p = set_step A (op_of op) p"

definition sorts_requests :: "((ptr \<Rightarrow> u32) \<Rightarrow> ptr list \<Rightarrow> ptr list) \<Rightarrow> bool" where
  "sorts_requests srt \<longleftrightarrow> (\<forall>f xs. mset (srt f xs) = mset xs \<and> sorted (map f (srt f xs)))"

definition node_key :: "lnode heap \<Rightarrow> ptr \<Rightarrow> u32" where
  "node_key h a = (case cells h a of Some n \<Rightarrow> key n | None \<Rightarrow> 0)"

definition node_link :: "lnode heap \<Rightarrow> ptr \<Rightarrow> ptr" where
  "node_link h a = (case cells h a of Some n \<Rightarrow> next_node n | None \<Rightarrow> 0)"

text \<open>The nodes \<open>as\<close> are the list from \<open>hn\<close>, with sentinel keys \<open>lo\<close> and \<open>hi\<close> at its ends.\<close>

definition list_nodes :: "lnode heap \<Rightarrow> ptr \<Rightarrow> u32 \<Rightarrow> u32 \<Rightarrow> ptr list \<Rightarrow> bool" where
  "list_nodes h hn lo hi as \<longleftrightarrow> heap_ok h \<and> sorted_chain (node_link h) (node_key h) hn as \<and>
     set as \<subseteq> dom (cells h) \<and> as \<noteq> [] \<and> node_key h hn = lo \<and> node_key h (last as) = hi \<and> lo < hi"

definition list_holds :: "lnode heap \<Rightarrow> ptr \<Rightarrow> u32 \<Rightarrow> u32 \<Rightarrow> u32 set \<Rightarrow> bool" where
  "list_holds h hn lo hi A \<longleftrightarrow> (\<exists>as. list_nodes h hn lo hi as \<and> A = keys_between lo hi (node_key h) as)"

subsection \<open>One request\<close>

lemma rd_node_nodes: "set as \<subseteq> dom (cells h) \<Longrightarrow> a \<in> set as \<Longrightarrow> rd_node h a = Some (node_key h a, node_link h a)"
  by (force simp: rd_node_def h_get_def node_key_def node_link_def)

text \<open>The position after some requests: all keys in front of it are smaller than the next one's.\<close>

definition position :: "u32 \<Rightarrow> ptr list \<Rightarrow> ptr list \<Rightarrow> ptr \<times> ptr \<times> lnode heap \<Rightarrow> ptr \<Rightarrow> u32 \<Rightarrow> u32 \<Rightarrow> bool" where
  "position p us cs z hn lo hi \<longleftrightarrow> (case z of (prev, cur, h) \<Rightarrow>
     list_nodes h hn lo hi (us @ cs) \<and> prev = prev_of us \<and> cs \<noteq> [] \<and> cur = hd cs \<and>
     (\<forall>u \<in> set us. node_key h u < p))"

lemma list_nodes_insert:
  assumes L: "list_nodes h hn lo hi (us @ cs)" and us: "us \<noteq> []" and st: "stop_at (node_key h) p us cs"
    and k: "node_key h (hd cs) \<noteq> p" and p: "lo < p" "p < hi"
  defines "h' \<equiv> (snd (h_new \<lparr>key = p, next_node = hd cs\<rparr> h))"
  shows "\<exists>h2. link_node (last us) (brk h) h' = Some h2 \<and> list_nodes h2 hn lo hi (us @ brk h # cs) \<and>
    keys_between lo hi (node_key h2) (us @ brk h # cs) = insert p (keys_between lo hi (node_key h) (us @ cs)) \<and>
    (\<forall>b \<in> set (us @ cs). node_key h2 b = node_key h b) \<and> node_key h2 (brk h) = p"
proof -
  have ok: "heap_ok h" and ch: "sorted_chain (node_link h) (node_key h) hn (us @ cs)" and dm: "set (us @ cs) \<subseteq> dom (cells h)"
    using L by (auto simp: list_nodes_def)
  have fresh: "brk h \<noteq> 0" "cells h (brk h) = None" using ok by (auto simp: heap_simps)
  then have nf: "brk h \<notin> set (us @ cs)" using dm by auto
  obtain n where n: "cells h (last us) = Some n" using dm last_in_set [OF us] by (auto simp: subset_iff)
  have ne: "last us \<noteq> brk h" using nf last_in_set [OF us] by auto
  let ?h2 = "h'\<lparr>cells := (cells h')(last us \<mapsto> n\<lparr>next_node := brk h\<rparr>)\<rparr>"
  have c2: "cells ?h2 = (cells h)(brk h \<mapsto> \<lparr>key = p, next_node = hd cs\<rparr>, last us \<mapsto> n\<lparr>next_node := brk h\<rparr>)"
    by (simp add: h'_def h_new_def)
  have ky: "node_key ?h2 b = node_key h b" if "b \<in> set (us @ cs)" for b
    using that nf n by (auto simp: node_key_def c2)
  have kyn: "node_key ?h2 (brk h) = p" using ne by (simp add: node_key_def c2)
  have nx: "node_link ?h2 b = node_link h b" if "b \<in> set (us @ cs)" "b \<noteq> last us" for b
    using that nf by (auto simp: node_link_def c2)
  have "sorted_chain (node_link ?h2) (node_key ?h2) hn (us @ brk h # cs)"
    by (rule sorted_chain_insert [OF ch us st k fresh(1) nf])
      (use ky kyn nx ne in \<open>simp_all add: node_link_def c2\<close>)
  moreover have "heap_ok ?h2" using ok n fresh by (auto simp: heap_ok_def c2 h'_def h_new_def less_Suc_eq)
  moreover have "set (us @ brk h # cs) \<subseteq> dom (cells ?h2)" using dm by (auto simp: c2)
  moreover have "node_key ?h2 hn = lo" using ky [of hn] L us by (cases us) (auto simp: list_nodes_def sorted_chain_def)
  moreover have "node_key ?h2 (last (us @ brk h # cs)) = hi"
    using ky [of "last cs"] L st by (auto simp: list_nodes_def stop_at_def)
  ultimately have "list_nodes ?h2 hn lo hi (us @ brk h # cs)" using L by (simp add: list_nodes_def)
  moreover have "keys_between lo hi (node_key ?h2) (us @ brk h # cs) = insert p (keys_between lo hi (node_key h) (us @ cs))"
    using keys_between_insert [of us cs "node_key ?h2" "node_key h" lo "brk h" hi] ky kyn p by simp
  moreover have "link_node (last us) (brk h) h' = Some ?h2"
    using n ne by (simp add: link_node_def h_get_def h_set_def h'_def h_new_def)
  ultimately show ?thesis using ky kyn by blast
qed

lemma list_nodes_remove:
  assumes L: "list_nodes h hn lo hi (us @ c # cs)" and us: "us \<noteq> []" and cs: "cs \<noteq> []"
  shows "\<exists>h2. link_node (last us) (node_link h c) h = Some h2 \<and> list_nodes h2 hn lo hi (us @ cs) \<and>
    keys_between lo hi (node_key h2) (us @ cs) = keys_between lo hi (node_key h) (us @ c # cs) - {node_key h c} \<and>
    (\<forall>b \<in> set (us @ cs). node_key h2 b = node_key h b) \<and> node_link h2 (last us) = hd cs"
proof -
  have ok: "heap_ok h" and ch: "sorted_chain (node_link h) (node_key h) hn (us @ c # cs)" and dm: "set (us @ cs) \<subseteq> dom (cells h)"
    using L by (auto simp: list_nodes_def)
  obtain n where n: "cells h (last us) = Some n" using dm last_in_set [OF us] by (auto simp: subset_iff)
  let ?h2 = "h\<lparr>cells := (cells h)(last us \<mapsto> n\<lparr>next_node := node_link h c\<rparr>)\<rparr>"
  have ky: "node_key ?h2 b = node_key h b" for b using n by (auto simp: node_key_def)
  have nx: "node_link ?h2 b = node_link h b" if "b \<noteq> last us" for b using that by (simp add: node_link_def)
  have ch2: "sorted_chain (node_link ?h2) (node_key ?h2) hn (us @ cs)"
    by (rule sorted_chain_remove [OF ch us]) (use ky nx in \<open>simp_all add: node_link_def\<close>)
  have "node_link h c = hd cs"
  proof -
    have "lpath (node_link h) hn ((us @ [c]) @ cs) 0" using ch by (simp add: sorted_chain_def)
    then show ?thesis using lpath_end [of "node_link h" hn "us @ [c]" cs] cs by (cases cs) auto
  qed
  then have "node_link ?h2 (last us) = hd cs" by (simp add: node_link_def)
  moreover have "heap_ok ?h2" using ok n by (auto intro: heap_ok_upd)
  moreover have "set (us @ cs) \<subseteq> dom (cells ?h2)" using dm by auto
  moreover have "node_key h (last cs) = hi" "node_key h hn = lo" "lo < hi" using L cs by (auto simp: list_nodes_def)
  ultimately have "list_nodes ?h2 hn lo hi (us @ cs)" "node_link ?h2 (last us) = hd cs"
    using ch2 cs ky by (simp_all add: list_nodes_def)
  moreover have "keys_between lo hi (node_key ?h2) (us @ cs) = keys_between lo hi (node_key h) (us @ c # cs) - {node_key h c}"
    using ch ky by (intro keys_between_remove) (auto simp: sorted_chain_def)
  moreover have "link_node (last us) (node_link h c) h = Some ?h2"
    using n by (simp add: link_node_def h_get_def h_set_def)
  ultimately show ?thesis using ky by blast
qed

lemma position_stop:
  assumes "position p us cs (prev, cur, h) hn lo hi" and "lo < p" and "p < hi"
  obtains us' cs' where "us' \<noteq> []" and "us' @ cs' = us @ cs" and "stop_at (node_key h) p us' cs'"
    and "advance (rd_node h) p prev cur = Some (last us', hd cs')"
proof -
  have L: "list_nodes h hn lo hi (us @ cs)" and z: "prev = prev_of us" "cs \<noteq> []" "cur = hd cs" "\<forall>u \<in> set us. node_key h u < p"
    using assms(1) by (auto simp: position_def)
  have P: "lpath (node_link h) hn (us @ cs) 0" and dm: "set (us @ cs) \<subseteq> dom (cells h)"
    and hi: "node_key h (last cs) = hi" and lo: "node_key h hn = lo"
    using L z(2) by (auto simp: list_nodes_def sorted_chain_def)
  have "lpath (node_link h) cur cs 0"
    using P z(2,3) lpath_end [OF P] by (cases cs; cases us) auto
  then obtain us' cs' where S: "us' @ cs' = us @ cs" "stop_at (node_key h) p us' cs'"
      "advance (rd_node h) p (prev_of us) cur = Some (prev_of us', hd cs')"
    using advance_stop [of "node_link h" cur cs "rd_node h" "node_key h" p us] z hi order.strict_implies_order [OF assms(3)]
      rd_node_nodes [OF dm] by auto
  have "us' \<noteq> []"
  proof
    assume "us' = []"
    then have "hd cs' = hn" using S(1) P z(2) by (cases "us @ cs") auto
    then show False using S(2) lo assms(2) by (auto simp: stop_at_def dest: leD)
  qed
  then show thesis using that S z(1) by (simp add: prev_of_def)
qed

definition at_list :: "u32 \<Rightarrow> ptr \<Rightarrow> u32 \<Rightarrow> u32 \<Rightarrow> u32 set \<Rightarrow> ptr \<times> ptr \<times> lnode heap \<Rightarrow> bool" where
  "at_list p hn lo hi A z \<longleftrightarrow>
     (\<exists>us cs. position p us cs z hn lo hi \<and> A = keys_between lo hi (node_key (snd (snd z))) (us @ cs))"

lemma exec_request_correct:
  assumes "at_list p hn lo hi A z" and "lo < p" and "p < hi"
  shows "\<exists>z'. exec_request op p z = Some (z', snd (list_spec A op p)) \<and> at_list p hn lo hi (fst (list_spec A op p)) z'"
proof -
  obtain prev cur h where z: "z = (prev, cur, h)" by (cases z)
  obtain us cs where P: "position p us cs (prev, cur, h) hn lo hi" and A: "A = keys_between lo hi (node_key h) (us @ cs)"
    using assms(1) by (auto simp: at_list_def z)
  obtain us' cs' where S: "us' \<noteq> []" "us' @ cs' = us @ cs" "stop_at (node_key h) p us' cs'"
      "advance (rd_node h) p prev cur = Some (last us', hd cs')"
    using position_stop [OF P assms(2,3)] by blast
  have L: "list_nodes h hn lo hi (us' @ cs')" using P S(2) by (simp add: position_def)
  have sk: "sorted_keys (node_key h) (us' @ cs')" and dm: "set (us' @ cs') \<subseteq> dom (cells h)" and hi: "node_key h (last (us' @ cs')) = hi"
    using L by (auto simp: list_nodes_def sorted_chain_def)
  obtain c ds where cs': "cs' = c # ds" using S(3) by (cases cs') (auto simp: stop_at_def)
  have A': "A = keys_between lo hi (node_key h) (us' @ cs')" using A S(2) by simp
  have mem: "p \<in> A \<longleftrightarrow> node_key h c = p" using keys_between_mem [OF sk S(3) assms(2,3)] A' cs' by simp
  have rd: "rd_node h c = Some (node_key h c, node_link h c)" using rd_node_nodes [OF dm] cs' by simp
  have stay: "at_list p hn lo hi A (last us', c, h)"
    using L S cs' A' unfolding at_list_def position_def
    by (intro exI [of _ us'] exI [of _ cs']) (auto simp: prev_of_def stop_at_def)
  consider "op = CONTAINS_OP" | "op = ADD_OP" "op \<noteq> CONTAINS_OP" | "op \<noteq> ADD_OP" "op \<noteq> CONTAINS_OP" by blast
  then show ?thesis
  proof cases
    case 1
    then show ?thesis using S(4) rd stay mem by (auto simp: exec_request_def z cs' list_spec_def op_of_def)
  next
    case 2
    show ?thesis
    proof (cases "node_key h c = p")
      case True
      then have "insert p A = A" using mem by auto
      then show ?thesis using True 2 S(4) rd stay mem by (auto simp: exec_request_def z cs' list_spec_def op_of_def)
    next
      case False
      obtain h2 where h2: "link_node (last us') (brk h) (snd (h_new \<lparr>key = p, next_node = c\<rparr> h)) = Some h2"
        "list_nodes h2 hn lo hi (us' @ brk h # cs')" "keys_between lo hi (node_key h2) (us' @ brk h # cs') = insert p A"
        "\<forall>b \<in> set (us' @ cs'). node_key h2 b = node_key h b"
        using list_nodes_insert [OF L S(1,3) _ assms(2,3)] False cs' A' by auto
      have "at_list p hn lo hi (insert p A) (last us', brk h, h2)"
        using h2 S(1,3) unfolding at_list_def position_def
        by (intro exI [of _ us'] exI [of _ "brk h # cs'"]) (auto simp: prev_of_def stop_at_def)
      then show ?thesis using False 2 S(4) rd mem h2(1)
        by (auto simp: exec_request_def z cs' list_spec_def op_of_def h_new_def)
    qed
  next
    case 3
    show ?thesis
    proof (cases "node_key h c = p")
      case False
      then have "A - {p} = A" using mem by auto
      then show ?thesis using False 3 S(4) rd stay mem by (auto simp: exec_request_def z cs' list_spec_def op_of_def)
    next
      case True
      have ds: "ds \<noteq> []" using hi True assms(3) cs' by auto
      obtain h2 where h2: "link_node (last us') (node_link h c) h = Some h2" "list_nodes h2 hn lo hi (us' @ ds)"
        "keys_between lo hi (node_key h2) (us' @ ds) = A - {p}"
        "\<forall>b \<in> set (us' @ ds). node_key h2 b = node_key h b" "node_link h2 (last us') = hd ds"
        using list_nodes_remove [of h hn lo hi us' c ds] L S(1) ds cs' A' True by auto
      have rd2: "rd_node h2 (last us') = Some (node_key h2 (last us'), hd ds)"
        using rd_node_nodes [of "us' @ ds" h2 "last us'"] h2(2,5) S(1) by (simp add: list_nodes_def)
      have "at_list p hn lo hi (A - {p}) (last us', hd ds, h2)"
        using h2 S(1,3) ds unfolding at_list_def position_def
        by (intro exI [of _ us'] exI [of _ ds]) (auto simp: prev_of_def stop_at_def)
      then show ?thesis using True 3 S(4) rd mem h2(1) rd2
        by (auto simp: exec_request_def z cs' list_spec_def op_of_def)
    qed
  qed
qed

subsection \<open>A combiner pass\<close>

lemma position_mono: "position p us cs z hn lo hi \<Longrightarrow> p \<le> q \<Longrightarrow> position q us cs z hn lo hi"
  by (cases z) (auto simp: position_def intro: order_less_le_trans)

lemma at_list_mono: "at_list p hn lo hi A z \<Longrightarrow> p \<le> q \<Longrightarrow> at_list q hn lo hi A z"
  unfolding at_list_def using position_mono by blast

lemma at_list_start: "list_holds h hn lo hi A \<Longrightarrow> at_list p hn lo hi A (0, hn, h)"
proof -
  assume "list_holds h hn lo hi A"
  then obtain as where as: "list_nodes h hn lo hi as" "A = keys_between lo hi (node_key h) as" by (auto simp: list_holds_def)
  then have "hd as = hn" "as \<noteq> []" by (cases as; auto simp: list_nodes_def sorted_chain_def)+
  then have "position p [] as (0, hn, h) hn lo hi" using as(1) by (simp add: position_def)
  then show ?thesis using as(2) unfolding at_list_def by (intro exI [of _ "[]"] exI [of _ as]) simp
qed

lemma at_list_holds: "at_list p hn lo hi A (prev, cur, h) \<Longrightarrow> list_holds h hn lo hi A"
  by (auto simp: at_list_def position_def list_holds_def)

definition slot_requests :: "(ptr \<Rightarrow> slot_info) \<Rightarrow> ptr list \<Rightarrow> (u32 \<times> u32) list" where
  "slot_requests sl xs = map (\<lambda>x. (operation (sl x), parameter (sl x))) xs"

lemma slot_requests_simps [simp]:
  "slot_requests sl [] = []" "slot_requests sl (x # xs) = (operation (sl x), parameter (sl x)) # slot_requests sl xs"
  by (simp_all add: slot_requests_def)

lemma slot_requests_cong:
  "(\<And>x. x \<in> set xs \<Longrightarrow> operation (sl x) = operation (sl' x) \<and> parameter (sl x) = parameter (sl' x)) \<Longrightarrow>
   slot_requests sl xs = slot_requests sl' xs"
  by (simp add: slot_requests_def)

text \<open>Every slot of \<open>xs\<close> is finished with its result from \<open>rs\<close>; the others are unchanged.\<close>

definition finished :: "(ptr \<Rightarrow> slot_info) \<Rightarrow> (ptr \<Rightarrow> slot_info) \<Rightarrow> ptr list \<Rightarrow> u32 list \<Rightarrow> bool" where
  "finished sl sl' xs rs \<longleftrightarrow> map (\<lambda>x. ret_val (sl' x)) xs = rs \<and> (\<forall>x. x \<notin> set xs \<longrightarrow> sl' x = sl x) \<and>
     (\<forall>x \<in> set xs. \<exists>r t. sl' x = (sl x)\<lparr>ret_val := r, op_timestamp := t, is_request_valid := False\<rparr>)"

lemma finishedD:
  "finished sl sl' xs rs \<Longrightarrow> x \<in> set xs \<Longrightarrow> \<exists>r t. sl' x = (sl x)\<lparr>ret_val := r, op_timestamp := t, is_request_valid := False\<rparr>"
  by (simp add: finished_def)

lemma finished_Cons:
  assumes F: "finished (sl(x := (sl x)\<lparr>ret_val := r, op_timestamp := t, is_request_valid := False\<rparr>)) sl' xs rs" and "x \<notin> set xs"
  shows "finished sl sl' (x # xs) (r # rs)"
proof -
  have x: "sl' x = (sl x)\<lparr>ret_val := r, op_timestamp := t, is_request_valid := False\<rparr>" using assms by (simp add: finished_def)
  have "\<exists>r t. sl' y = (sl y)\<lparr>ret_val := r, op_timestamp := t, is_request_valid := False\<rparr>" if "y \<in> set (x # xs)" for y
  proof (cases "y = x")
    case True
    then show ?thesis using x by blast
  next
    case False
    then have "y \<in> set xs" using that by simp
    then show ?thesis using finishedD [OF F] False by fastforce
  qed
  moreover have "map (\<lambda>y. ret_val (sl' y)) xs = rs" "\<forall>y. y \<notin> set (x # xs) \<longrightarrow> sl' y = sl y" using F by (auto simp: finished_def)
  ultimately show ?thesis using x unfolding finished_def by simp
qed

lemma exec_requests_correct:
  assumes "at_list p hn lo hi A z" and "sorted (map (\<lambda>x. parameter (slots s x)) xs)" and "distinct xs"
    and "\<forall>x \<in> set xs. p \<le> parameter (slots s x) \<and> lo < parameter (slots s x) \<and> parameter (slots s x) < hi"
  shows "\<exists>z' sl' t. exec_requests xs z s = Some (z', s\<lparr>slots := sl', operation_timestamp := t\<rparr>) \<and>
    (\<exists>q. at_list q hn lo hi (fst (run_spec list_spec A (slot_requests (slots s) xs))) z') \<and>
    finished (slots s) sl' xs (snd (run_spec list_spec A (slot_requests (slots s) xs)))"
  using assms
proof (induction xs arbitrary: p A z s)
  case Nil
  then show ?case by (intro exI [of _ z] exI [of _ "slots s"] exI [of _ "operation_timestamp s"]) (auto simp: finished_def)
next
  case (Cons x xs)
  let ?q = "parameter (slots s x)" let ?op = "operation (slots s x)"
  have q: "p \<le> ?q" "lo < ?q" "?q < hi" using Cons.prems(4) by auto
  obtain z1 where z1: "exec_request ?op ?q z = Some (z1, snd (list_spec A ?op ?q))"
      "at_list ?q hn lo hi (fst (list_spec A ?op ?q)) z1"
    using exec_request_correct [OF at_list_mono [OF Cons.prems(1) q(1)] q(2,3)] by blast
  let ?s1 = "finish_slot x (snd (list_spec A ?op ?q)) s"
  have same: "slots ?s1 y = slots s y" if "y \<in> set xs" for y using that Cons.prems(3) by (auto simp: finish_slot_def)
  then have sr: "slot_requests (slots ?s1) xs = slot_requests (slots s) xs" by (intro slot_requests_cong) simp
  have mp: "map (\<lambda>y. parameter (slots ?s1 y)) xs = map (\<lambda>y. parameter (slots s y)) xs" using same by simp
  have so: "sorted (map (\<lambda>y. parameter (slots ?s1 y)) xs)" unfolding mp using Cons.prems(2) by simp
  have bd: "\<forall>y \<in> set xs. ?q \<le> parameter (slots ?s1 y) \<and> lo < parameter (slots ?s1 y) \<and> parameter (slots ?s1 y) < hi"
    using Cons.prems(2,4) same by simp
  have di: "distinct xs" using Cons.prems(3) by simp
  obtain z2 sl2 t2 where r: "exec_requests xs z1 ?s1 = Some (z2, ?s1\<lparr>slots := sl2, operation_timestamp := t2\<rparr>)"
      "\<exists>q. at_list q hn lo hi (fst (run_spec list_spec (fst (list_spec A ?op ?q)) (slot_requests (slots s) xs))) z2"
      "finished (slots ?s1) sl2 xs (snd (run_spec list_spec (fst (list_spec A ?op ?q)) (slot_requests (slots s) xs)))"
    using Cons.IH [OF z1(2) so di bd] unfolding sr by blast
  have "finished (slots s) sl2 (x # xs) (snd (list_spec A ?op ?q) # snd (run_spec list_spec (fst (list_spec A ?op ?q)) (slot_requests (slots s) xs)))"
    using r(3) Cons.prems(3) by (intro finished_Cons [where t = "operation_timestamp s"]) (auto simp: finish_slot_def)
  moreover have "?s1\<lparr>slots := sl2, operation_timestamp := t2\<rparr> = s\<lparr>slots := sl2, operation_timestamp := t2\<rparr>"
    by (simp add: finish_slot_def)
  ultimately show ?case using r(1,2) z1(1) by (auto simp: split_beta)
qed

text \<open>
  What the collecting loop does to the slots \<open>xs\<close> behind slot \<open>p\<close>: it changes links only, keeps
  every slot with a request, and marks the slots it drops as unlinked.
\<close>

definition relinked :: "slot_info \<Rightarrow> slot_info \<Rightarrow> bool \<Rightarrow> bool" where
  "relinked a b l \<longleftrightarrow> (\<exists>n. b = a\<lparr>next_slot := n, is_slot_linked := l\<rparr>)"

definition tidied :: "(ptr \<Rightarrow> slot_info) \<Rightarrow> (ptr \<Rightarrow> slot_info) \<Rightarrow> ptr \<Rightarrow> ptr list \<Rightarrow> ptr list \<Rightarrow> bool" where
  "tidied sl sl' p xs ys \<longleftrightarrow> subseq ys xs \<and> set (pending sl xs) \<subseteq> set ys \<and> slot_path sl' (next_slot (sl' p)) ys \<and>
     (\<forall>x. x \<notin> set xs \<longrightarrow> x \<noteq> p \<longrightarrow> sl' x = sl x) \<and> relinked (sl p) (sl' p) (is_slot_linked (sl p)) \<and>
     (\<forall>x \<in> set xs. relinked (sl x) (sl' x) (x \<in> set ys \<and> is_slot_linked (sl x)))"

lemma relinked_same [simp]: "relinked a a (is_slot_linked a)"
  unfolding relinked_def by (intro exI [of _ "next_slot a"]) simp

lemma relinkedD:
  assumes "relinked a b l"
  shows "is_request_valid b = is_request_valid a" "operation b = operation a" "parameter b = parameter a"
    "is_slot_linked b = l" "ret_val b = ret_val a"
  using assms by (auto simp: relinked_def)

lemma tidiedD:
  assumes "tidied sl sl' p xs ys"
  shows "subseq ys xs" "x \<in> set xs \<Longrightarrow> is_request_valid (sl x) \<Longrightarrow> x \<in> set ys" "slot_path sl' (next_slot (sl' p)) ys"
    "x \<notin> set xs \<Longrightarrow> x \<noteq> p \<Longrightarrow> sl' x = sl x" "relinked (sl p) (sl' p) (is_slot_linked (sl p))"
    "x \<in> set xs \<Longrightarrow> relinked (sl x) (sl' x) (x \<in> set ys \<and> is_slot_linked (sl x))"
  using assms by (auto simp: tidied_def)

lemma tidiedI:
  assumes "subseq ys xs" "\<And>x. x \<in> set xs \<Longrightarrow> is_request_valid (sl x) \<Longrightarrow> x \<in> set ys" "slot_path sl' (next_slot (sl' p)) ys"
    "\<And>x. x \<notin> set xs \<Longrightarrow> x \<noteq> p \<Longrightarrow> sl' x = sl x" "relinked (sl p) (sl' p) (is_slot_linked (sl p))"
    "\<And>x. x \<in> set xs \<Longrightarrow> relinked (sl x) (sl' x) (x \<in> set ys \<and> is_slot_linked (sl x))"
  shows "tidied sl sl' p xs ys"
  using assms by (auto simp: tidied_def)

lemma tidied_keep:
  assumes T: "tidied sl sl' x xs ys" and "x \<noteq> 0" "next_slot (sl p) = x" "p \<noteq> x" "p \<notin> set xs" "x \<notin> set xs"
  shows "tidied sl sl' p (x # xs) (x # ys)"
proof (rule tidiedI)
  show "subseq (x # ys) (x # xs)" using tidiedD(1) [OF T] by simp
  have p: "sl' p = sl p" using tidiedD(4) [OF T] assms(4,5) by simp
  then show "slot_path sl' (next_slot (sl' p)) (x # ys)" "relinked (sl p) (sl' p) (is_slot_linked (sl p))"
    using tidiedD(3) [OF T] assms(2,3) by simp_all
  fix y assume y: "y \<in> set (x # xs)"
  show "relinked (sl y) (sl' y) (y \<in> set (x # ys) \<and> is_slot_linked (sl y))"
    using tidiedD(5) [OF T] tidiedD(6) [OF T] y assms(6) by (cases "y = x") auto
qed (use tidiedD(2,4) [OF T] in auto)

lemma tidied_unlink:
  assumes T: "tidied ((sl(p := (sl p)\<lparr>next_slot := n\<rparr>))(x := (sl x)\<lparr>is_slot_linked := False\<rparr>)) sl' p xs ys"
    and "\<not> is_request_valid (sl x)" "p \<noteq> x" "p \<notin> set xs" "x \<notin> set xs"
  shows "tidied sl sl' p (x # xs) ys"
proof (rule tidiedI)
  show "subseq ys (x # xs)" using tidiedD(1) [OF T] by (rule list_emb_Cons)
  show "slot_path sl' (next_slot (sl' p)) ys" by (rule tidiedD(3) [OF T])
  show "relinked (sl p) (sl' p) (is_slot_linked (sl p))" using tidiedD(5) [OF T] assms(3) by (auto simp: relinked_def)
  have nx: "x \<notin> set ys" using tidiedD(1) [OF T] assms(5) subseq_subset by blast
  have x: "sl' x = (sl x)\<lparr>is_slot_linked := False\<rparr>" using tidiedD(4) [OF T assms(5)] assms(3) by simp
  fix y
  show "sl' y = sl y" if "y \<notin> set (x # xs)" "y \<noteq> p" using tidiedD(4) [OF T, of y] that by simp
  show "y \<in> set ys" if "y \<in> set (x # xs)" "is_request_valid (sl y)"
    using tidiedD(2) [OF T, of y] that assms(2,4) by (cases "y = x"; cases "y = p") auto
  show "relinked (sl y) (sl' y) (y \<in> set ys \<and> is_slot_linked (sl y))" if "y \<in> set (x # xs)"
  proof (cases "y = x")
    case True
    then show ?thesis unfolding relinked_def using x nx by (intro exI [of _ "next_slot (sl x)"]) simp
  next
    case False
    then have "y \<in> set xs" "y \<noteq> p" using that assms(4) by auto
    then show ?thesis using tidiedD(6) [OF T, of y] False by simp
  qed
qed

lemma collect_rest:
  assumes "slot_path (slots s) c xs" and "p \<notin> set xs" and "next_slot (slots s p) = c"
  shows "\<exists>ys sl'. collect_loop c p reqs s = Some (reqs @ pending (slots s) xs, s\<lparr>slots := sl'\<rparr>) \<and> tidied (slots s) sl' p xs ys"
  using assms
proof (induction xs arbitrary: s c p reqs)
  case Nil
  then have "tidied (slots s) (slots s) p [] []" "collect_loop c p reqs s = Some (reqs, s\<lparr>slots := slots s\<rparr>)"
    by (auto simp: tidied_def collect_loop.simps)
  then show ?case by (intro exI [of _ "[]"] exI [of _ "slots s"]) simp
next
  case (Cons x xs)
  have c: "c = x" "x \<noteq> 0" and path: "slot_path (slots s) (next_slot (slots s x)) xs" using Cons.prems(1) by auto
  have dist: "x \<notin> set xs" "p \<noteq> x" "p \<notin> set xs" using slot_path_distinct [OF Cons.prems(1)] Cons.prems(2) by auto
  note unf = collect_loop.simps [of x p reqs s]
  consider (serve) "is_request_valid (slots s x)"
    | (unlink) "\<not> is_request_valid (slots s x)" "FCL_UNUSED_SLOT_THRESHOLD < sint (operation_timestamp s - op_timestamp (slots s x))"
    | (keep) "\<not> is_request_valid (slots s x)" "\<not> FCL_UNUSED_SLOT_THRESHOLD < sint (operation_timestamp s - op_timestamp (slots s x))"
    by blast
  then show ?case
  proof cases
    case serve
    obtain ys sl' where ih: "collect_loop (next_slot (slots s x)) x (reqs @ [x]) s =
        Some ((reqs @ [x]) @ pending (slots s) xs, s\<lparr>slots := sl'\<rparr>)" "tidied (slots s) sl' x xs ys"
      using Cons.IH [OF path dist(1) refl, of "reqs @ [x]"] by blast
    have "tidied (slots s) sl' p (x # xs) (x # ys)" using tidied_keep [OF ih(2)] c dist Cons.prems(3) by simp
    then show ?thesis using unf serve c ih(1) by (intro exI [of _ "x # ys"] exI [of _ sl']) simp
  next
    case keep
    obtain ys sl' where ih: "collect_loop (next_slot (slots s x)) x reqs s =
        Some (reqs @ pending (slots s) xs, s\<lparr>slots := sl'\<rparr>)" "tidied (slots s) sl' x xs ys"
      using Cons.IH [OF path dist(1) refl, of reqs] by blast
    have "tidied (slots s) sl' p (x # xs) (x # ys)" using tidied_keep [OF ih(2)] c dist Cons.prems(3) by simp
    then show ?thesis using unf keep c ih(1) by (intro exI [of _ "x # ys"] exI [of _ sl']) simp
  next
    case unlink
    define s1 where "s1 = unlink_slot x p s"
    have s1: "slots s1 = ((slots s)(p := (slots s p)\<lparr>next_slot := next_slot (slots s x)\<rparr>))(x := (slots s x)\<lparr>is_slot_linked := False\<rparr>)"
      using dist by (simp add: s1_def unlink_slot_def Let_def)
    have path1: "slot_path (slots s1) (next_slot (slots s1 p)) xs"
      using path dist by (subst slot_path_cong [where sl' = "slots s"]) (auto simp: s1)
    obtain ys sl' where ih: "collect_loop (next_slot (slots s1 p)) p reqs s1 =
        Some (reqs @ pending (slots s1) xs, s1\<lparr>slots := sl'\<rparr>)" "tidied (slots s1) sl' p xs ys"
      using Cons.IH [OF path1 dist(3) refl, of reqs] by blast
    have pe: "pending (slots s1) xs = pending (slots s) xs" using dist by (intro pending_cong) (auto simp: s1)
    have "tidied (slots s) sl' p (x # xs) ys" using tidied_unlink ih(2) unlink(1) dist unfolding s1 by blast
    moreover have "s1\<lparr>slots := sl'\<rparr> = s\<lparr>slots := sl'\<rparr>" by (simp add: s1_def unlink_slot_def)
    ultimately show ?thesis using unf unlink c ih(1) dist(2) pe by (intro exI [of _ ys] exI [of _ sl']) (simp add: s1_def)
  qed
qed

text \<open>The whole publication list after the collecting loop.\<close>

definition tidied_list :: "(ptr \<Rightarrow> slot_info) \<Rightarrow> (ptr \<Rightarrow> slot_info) \<Rightarrow> ptr \<Rightarrow> ptr list \<Rightarrow> ptr list \<Rightarrow> bool" where
  "tidied_list sl sl' c xs ys \<longleftrightarrow> subseq ys xs \<and> slot_path sl' c ys \<and> (\<forall>x. x \<notin> set xs \<longrightarrow> sl' x = sl x) \<and>
     (\<forall>x \<in> set xs. relinked (sl x) (sl' x) (x \<in> set ys \<and> is_slot_linked (sl x)) \<and> (is_request_valid (sl x) \<longrightarrow> x \<in> set ys))"

lemma tidied_head:
  assumes T: "tidied sl sl' x xs ys" and "x \<noteq> 0" "x \<notin> set xs"
  shows "tidied_list sl sl' x (x # xs) (x # ys)"
proof -
  have "relinked (sl y) (sl' y) (y \<in> set (x # ys) \<and> is_slot_linked (sl y)) \<and> (is_request_valid (sl y) \<longrightarrow> y \<in> set (x # ys))"
    if "y \<in> set (x # xs)" for y
    using tidiedD(2,5,6) [OF T] that assms(3) by (cases "y = x") auto
  then show ?thesis using tidiedD(1,3,4) [OF T] assms(2) unfolding tidied_list_def by simp
qed

lemma collect_all:
  assumes "slot_path (slots s) c xs"
  shows "\<exists>ys sl'. collect_loop c c [] s = Some (pending (slots s) xs, s\<lparr>slots := sl'\<rparr>) \<and> tidied_list (slots s) sl' c xs ys"
proof (cases xs)
  case Nil
  then have "tidied_list (slots s) (slots s) c [] []" "collect_loop c c [] s = Some ([], s\<lparr>slots := slots s\<rparr>)"
    using assms by (auto simp: tidied_list_def collect_loop.simps)
  then show ?thesis using Nil by (intro exI [of _ "[]"] exI [of _ "slots s"]) simp
next
  case (Cons x xs')
  have c: "c = x" "x \<noteq> 0" and path: "slot_path (slots s) (next_slot (slots s x)) xs'" and d: "x \<notin> set xs'"
    using assms slot_path_distinct [OF assms] Cons by auto
  let ?reqs = "if is_request_valid (slots s x) then [x] else []"
  obtain ys sl' where r: "collect_loop (next_slot (slots s x)) x ?reqs s = Some (?reqs @ pending (slots s) xs', s\<lparr>slots := sl'\<rparr>)"
      "tidied (slots s) sl' x xs' ys"
    using collect_rest [OF path d refl, of ?reqs] by blast
  have "collect_loop c c [] s = Some (pending (slots s) xs, s\<lparr>slots := sl'\<rparr>)"
    using r(1) collect_loop.simps [of x x "[]" s] c Cons by (auto split: if_splits)
  then show ?thesis using tidied_head [OF r(2) c(2) d] c Cons by blast
qed

text \<open>A combiner pass over the publication list \<open>xs\<close>.\<close>

definition pass_result ::
  "(ptr \<Rightarrow> slot_info) \<Rightarrow> ptr list \<Rightarrow> ptr list \<Rightarrow> u32 \<Rightarrow> u32 \<Rightarrow> u32 set \<Rightarrow> ptr list \<Rightarrow> list_fc \<Rightarrow> bool" where
  "pass_result sl xs order lo hi A ys s' \<longleftrightarrow>
     mset order = mset (pending sl xs) \<and> sorted (map (\<lambda>x. parameter (sl x)) order) \<and>
     map (\<lambda>x. ret_val (slots s' x)) order = snd (run_spec list_spec A (slot_requests sl order)) \<and>
     list_holds (region (data s')) (l_head_node (data s')) lo hi (fst (run_spec list_spec A (slot_requests sl order))) \<and>
     subseq ys xs \<and> slot_path (slots s') (l_tail_slot s') ys \<and> (\<forall>x. x \<notin> set xs \<longrightarrow> slots s' x = sl x) \<and>
     (\<forall>x \<in> set xs. \<not> is_request_valid (slots s' x) \<and> (is_slot_linked (slots s' x) \<longleftrightarrow> x \<in> set ys \<and> is_slot_linked (sl x)))"

lemma flat_combine_sort_pass:
  assumes srt: "sorts_requests srt" and lock: "\<not> tail_slot_lock s" and path: "slot_path (slots s) (l_tail_slot s) xs"
    and L: "list_holds (region (data s)) (l_head_node (data s)) lo hi A"
    and bd: "\<forall>x \<in> set (pending (slots s) xs). lo < parameter (slots s x) \<and> parameter (slots s x) < hi"
  shows "\<exists>s' order ys. flat_combine_sort srt s = Some s' \<and> pass_result (slots s) xs order lo hi A ys s' \<and>
    combine_lock s' = combine_lock s \<and> \<not> tail_slot_lock s'"
proof -
  obtain ys sl1 where c: "collect_loop (l_tail_slot s) (l_tail_slot s) [] s = Some (pending (slots s) xs, s\<lparr>slots := sl1\<rparr>)"
      "tidied_list (slots s) sl1 (l_tail_slot s) xs ys"
    using collect_all [OF path] by blast
  have ys: "subseq ys xs" "slot_path sl1 (l_tail_slot s) ys" "\<And>x. x \<notin> set xs \<Longrightarrow> sl1 x = slots s x"
      "\<And>x. x \<in> set xs \<Longrightarrow> relinked (slots s x) (sl1 x) (x \<in> set ys \<and> is_slot_linked (slots s x))"
    using c(2) by (auto simp: tidied_list_def)
  define order where "order = srt (\<lambda>x. parameter (sl1 x)) (pending (slots s) xs)"
  have ms: "mset order = mset (pending (slots s) xs)" and so1: "sorted (map (\<lambda>x. parameter (sl1 x)) order)"
    using srt by (auto simp: sorts_requests_def order_def)
  have set_order: "set order = set (pending (slots s) xs)" using ms by (metis set_mset_mset)
  have dist: "distinct order"
    using ms slot_path_distinct [OF path] by (metis distinct_filter mset_eq_imp_distinct_iff pending_def)
  have same: "operation (sl1 x) = operation (slots s x) \<and> parameter (sl1 x) = parameter (slots s x)" if "x \<in> set order" for x
    using relinkedD [OF ys(4), of x] that set_order by auto
  have sr: "slot_requests sl1 order = slot_requests (slots s) order" using same by (intro slot_requests_cong) simp
  have pm: "map (\<lambda>x. parameter (sl1 x)) order = map (\<lambda>x. parameter (slots s x)) order" using same by simp
  let ?R = "run_spec list_spec A (slot_requests (slots s) order)"
  have bd1: "\<forall>x \<in> set order. 0 \<le> parameter (sl1 x) \<and> lo < parameter (sl1 x) \<and> parameter (sl1 x) < hi"
    using bd same set_order by simp
  define s1 where "s1 = s\<lparr>slots := sl1\<rparr>"
  have s1: "slots s1 = sl1" by (simp add: s1_def)
  obtain z sl2 t where e: "exec_requests order (0, l_head_node (data s), region (data s)) s1 =
        Some (z, s1\<lparr>slots := sl2, operation_timestamp := t\<rparr>)"
      "\<exists>q. at_list q (l_head_node (data s)) lo hi (fst ?R) z" "finished sl1 sl2 order (snd ?R)"
    using exec_requests_correct [OF at_list_start [OF L, of 0], of s1 order, unfolded s1 sr, OF so1 dist bd1] by blast
  obtain pr cu h where z: "z = (pr, cu, h)" by (cases z)
  let ?s = "s\<lparr>slots := sl2, operation_timestamp := t, data := (data s)\<lparr>region := h\<rparr>\<rparr>"
  have "flat_combine_sort srt s = Some ?s"
    using lock c(1) e(1) by (simp add: flat_combine_sort_def order_def z s1_def)
  moreover have "pass_result (slots s) xs order lo hi A ys ?s"
  proof -
    have n2: "next_slot (sl2 x) = next_slot (sl1 x)" "is_slot_linked (sl2 x) = is_slot_linked (sl1 x)" for x
      using e(3) finishedD [OF e(3), of x] by (cases "x \<in> set order"; auto simp: finished_def)+
    have "slot_path sl2 (l_tail_slot s) ys" using ys(2) slot_path_cong [of ys sl2 sl1] n2(1) by simp
    moreover have "sl2 x = slots s x" if "x \<notin> set xs" for x
      using that e(3) ys(3) set_order by (auto simp: finished_def)
    moreover have "\<not> is_request_valid (sl2 x) \<and> (is_slot_linked (sl2 x) \<longleftrightarrow> x \<in> set ys \<and> is_slot_linked (slots s x))"
      if x: "x \<in> set xs" for x
    proof (cases "x \<in> set order")
      case True
      then show ?thesis using finishedD [OF e(3) True] relinkedD(4) [OF ys(4) [OF x]] by auto
    next
      case False
      then have "sl2 x = sl1 x" using e(3) by (simp add: finished_def)
      then show ?thesis using relinkedD [OF ys(4) [OF x]] False set_order x by simp
    qed
    moreover have "list_holds h (l_head_node (data s)) lo hi (fst ?R)" using e(2) at_list_holds unfolding z by blast
    moreover have "map (\<lambda>x. ret_val (sl2 x)) order = snd ?R" using e(3) by (simp add: finished_def)
    moreover have "sorted (map (\<lambda>x. parameter (slots s x)) order)" using so1 unfolding pm .
    ultimately show ?thesis using ys(1) ms by (simp add: pass_result_def)
  qed
  ultimately show ?thesis using lock by (intro exI [of _ ?s] exI [of _ order] exI [of _ ys]) simp
qed

subsection \<open>Operations on a quiescent list\<close>

definition list_linked :: "ptr set \<Rightarrow> list_fc \<Rightarrow> ptr list \<Rightarrow> bool" where
  "list_linked S s xs \<longleftrightarrow> slot_path (slots s) (l_tail_slot s) xs \<and> set xs \<subseteq> S \<and>
     (\<forall>x \<in> S. is_slot_linked (slots s x) \<longleftrightarrow> x \<in> set xs)"

definition list_quiet :: "ptr set \<Rightarrow> u32 \<Rightarrow> u32 \<Rightarrow> u32 set \<Rightarrow> list_fc \<Rightarrow> bool" where
  "list_quiet S lo hi A s \<longleftrightarrow> \<not> combine_lock s \<and> \<not> tail_slot_lock s \<and> (\<forall>x \<in> S. \<not> is_request_valid (slots s x)) \<and>
     list_holds (region (data s)) (l_head_node (data s)) lo hi A \<and> (\<exists>xs. list_linked S s xs)"

fun list_run ::
  "((ptr \<Rightarrow> u32) \<Rightarrow> ptr list \<Rightarrow> ptr list) \<Rightarrow> (ptr \<times> u32 \<times> u32) list \<Rightarrow> list_fc \<Rightarrow> (list_fc \<times> u32 list) option" where
  "list_run srt [] s = Some (s, [])"
| "list_run srt ((slot, op, p) # cs) s =
     (case list_fc_operation srt op p slot s of
        None \<Rightarrow> None
      | Some (s1, r) \<Rightarrow> map_option (\<lambda>(s2, rs). (s2, r # rs)) (list_run srt cs s1))"

lemma pending_one: "distinct xs \<Longrightarrow> x \<in> set xs \<Longrightarrow> (\<And>y. y \<in> set xs \<Longrightarrow> is_request_valid (sl y) \<longleftrightarrow> y = x) \<Longrightarrow> pending sl xs = [x]"
proof (induction xs)
  case (Cons y xs)
  then show ?case by (cases "y = x") (auto simp: pending_def filter_empty_conv)
qed simp

text \<open>The caller's slot is on the list when the combiner starts, and only it has a request.\<close>

lemma list_published:
  assumes q: "list_quiet S lo hi A s" and slot: "slot \<in> S" "slot \<noteq> 0"
  obtains s1 xs where "list_enq_if_unlinked slot (list_publish op p slot s) = Some s1"
    and "list_linked S s1 xs" and "pending (slots s1) xs = [slot]"
    and "operation (slots s1 slot) = op" and "parameter (slots s1 slot) = p"
    and "data s1 = data s" and "\<not> combine_lock s1" and "\<not> tail_slot_lock s1"
    and "\<And>x. x \<in> S \<Longrightarrow> x \<noteq> slot \<Longrightarrow> slots s1 x = slots s x"
proof -
  let ?s = "list_publish op p slot s"
  have locks: "\<not> combine_lock s" "\<not> tail_slot_lock s" and idle: "\<forall>x \<in> S. \<not> is_request_valid (slots s x)" using q by (auto simp: list_quiet_def)
  obtain xs where xs: "slot_path (slots s) (l_tail_slot s) xs" "set xs \<subseteq> S" "\<forall>x \<in> S. is_slot_linked (slots s x) \<longleftrightarrow> x \<in> set xs"
    using q by (auto simp: list_quiet_def list_linked_def)
  have sl: "slots ?s x = (if x = slot then (slots s slot)\<lparr>operation := op, parameter := p, is_request_valid := True\<rparr> else slots s x)" for x
    by (simp add: list_publish_def)
  have px: "slot_path (slots ?s) (l_tail_slot s) xs" using xs(1) slot_path_cong [of xs "slots ?s" "slots s"] by (simp add: sl)
  show thesis
  proof (cases "slot \<in> set xs")
    case True
    have "pending (slots ?s) xs = [slot]"
      using slot_path_distinct [OF xs(1)] True idle xs(2) by (intro pending_one) (auto simp: sl)
    moreover have "list_linked S ?s xs" using px xs by (auto simp: list_linked_def sl list_publish_def)
    moreover have "list_enq_if_unlinked slot ?s = Some ?s" using True xs slot by (simp add: list_enq_if_unlinked_def sl)
    ultimately show thesis using that [of ?s xs] locks by (simp add: list_publish_def)
  next
    case False
    let ?s1 = "?s\<lparr>slots := (slots ?s)(slot := (slots ?s slot)\<lparr>is_slot_linked := True,
                     op_timestamp := operation_timestamp ?s, next_slot := l_tail_slot ?s\<rparr>), l_tail_slot := slot\<rparr>"
    have e: "list_enq_if_unlinked slot ?s = Some ?s1"
      using False xs(3) slot locks by (simp add: list_enq_if_unlinked_def list_enq_slot_def sl) (simp add: list_publish_def)
    have "slot_path (slots ?s1) (l_tail_slot s) xs"
      using xs(1) False by (subst slot_path_cong [where sl' = "slots s"]) (auto simp: sl)
    then have P: "slot_path (slots ?s1) (l_tail_slot ?s1) (slot # xs)" using slot(2) by (simp add: list_publish_def)
    moreover have "pending (slots ?s1) (slot # xs) = [slot]"
      using slot_path_distinct [OF P] idle xs(2) False by (intro pending_one) (auto simp: sl)
    moreover have "list_linked S ?s1 (slot # xs)" using P xs slot(1) by (auto simp: list_linked_def sl)
    ultimately show thesis using that [of ?s1 "slot # xs"] e locks by (simp add: list_publish_def)
  qed
qed

lemma list_fc_operation_step:
  assumes srt: "sorts_requests srt" and q: "list_quiet S lo hi A s" and slot: "slot \<in> S" "slot \<noteq> 0" and p: "lo < p" "p < hi"
  shows "\<exists>s'. list_fc_operation srt op p slot s = Some (s', snd (list_spec A op p)) \<and> list_quiet S lo hi (fst (list_spec A op p)) s'"
proof -
  obtain s1 xs where e: "list_enq_if_unlinked slot (list_publish op p slot s) = Some s1" and ll: "list_linked S s1 xs"
    and pe: "pending (slots s1) xs = [slot]" and op: "operation (slots s1 slot) = op" "parameter (slots s1 slot) = p"
    and d: "data s1 = data s" and lk: "\<not> combine_lock s1" "\<not> tail_slot_lock s1"
    and same: "\<And>x. x \<in> S \<Longrightarrow> x \<noteq> slot \<Longrightarrow> slots s1 x = slots s x"
    using list_published [OF q slot] by blast
  let ?s2 = "s1\<lparr>combine_lock := True, combine_lock_status := True\<rparr>"
  have slot_xs: "slot \<in> set xs" using pe set_pending [of "slots s1" xs] by auto
  have e2: "list_enq_if_unlinked slot ?s2 = Some ?s2" using ll slot_xs slot(1) by (simp add: list_enq_if_unlinked_def list_linked_def)
  have "slot_path (slots ?s2) (l_tail_slot ?s2) xs" using ll by (simp add: list_linked_def)
  moreover have "list_holds (region (data ?s2)) (l_head_node (data ?s2)) lo hi A" using q d by (simp add: list_quiet_def)
  ultimately obtain s3 order ys where r: "flat_combine_sort srt ?s2 = Some s3" "pass_result (slots s1) xs order lo hi A ys s3"
      "\<not> tail_slot_lock s3"
    using flat_combine_sort_pass [OF srt, of ?s2 xs lo hi A] lk pe op p by auto
  have order: "order = [slot]" using r(2) pe by (simp add: pass_result_def)
  have ret: "ret_val (slots s3 slot) = snd (list_spec A op p)"
    and A': "list_holds (region (data s3)) (l_head_node (data s3)) lo hi (fst (list_spec A op p))"
    using r(2) order op by (auto simp: pass_result_def split_beta)
  let ?s4 = "s3\<lparr>combine_lock := False, combine_lock_status := False\<rparr>"
  have idle: "\<not> is_request_valid (slots s3 x)" if "x \<in> S" for x
    using r(2) q that same slot_xs by (cases "x \<in> set xs"; cases "x = slot") (auto simp: pass_result_def list_quiet_def)
  have lnk: "is_slot_linked (slots s3 x) \<longleftrightarrow> x \<in> set ys" if "x \<in> S" for x
  proof (cases "x \<in> set xs")
    case True
    then show ?thesis using r(2) ll that by (simp add: pass_result_def list_linked_def)
  next
    case False
    then have "x \<notin> set ys" "slots s3 x = slots s1 x" using r(2) subseq_subset by (auto simp: pass_result_def)
    then show ?thesis using False ll that by (simp add: list_linked_def)
  qed
  have "set ys \<subseteq> S" using r(2) ll subseq_subset by (fastforce simp: pass_result_def list_linked_def)
  then have "list_linked S ?s4 ys" using r(2) lnk by (simp add: list_linked_def pass_result_def)
  then have "list_quiet S lo hi (fst (list_spec A op p)) ?s4" using idle A' r(3) by (auto simp: list_quiet_def)
  moreover have "list_fc_operation srt op p slot s = Some (?s4, snd (list_spec A op p))"
    using e e2 lk(1) r(1) ret by (simp add: list_fc_operation_def)
  ultimately show ?thesis by blast
qed

lemma list_run_steps:
  assumes "sorts_requests srt" and "list_quiet S lo hi A s"
    and "\<forall>(slot, op, p) \<in> set cs. slot \<in> S \<and> slot \<noteq> 0 \<and> lo < p \<and> p < hi"
  shows "\<exists>s'. list_run srt cs s = Some (s', snd (run_spec list_spec A (map snd cs))) \<and>
    list_quiet S lo hi (fst (run_spec list_spec A (map snd cs))) s'"
  using assms(2,3)
proof (induction cs arbitrary: A s)
  case (Cons c cs)
  obtain slot op p where c: "c = (slot, op, p)" by (cases c)
  obtain s1 where s1: "list_fc_operation srt op p slot s = Some (s1, snd (list_spec A op p))"
      "list_quiet S lo hi (fst (list_spec A op p)) s1"
    using list_fc_operation_step [OF assms(1) Cons.prems(1), of slot p op] Cons.prems(2) c by auto
  then show ?case using Cons.IH [OF s1(2)] Cons.prems(2) c by (auto simp: split_beta)
qed simp

text \<open>The empty list the program starts with: two sentinel nodes.\<close>

definition empty_region :: "lnode heap" where
  "empty_region = \<lparr>cells = [1 \<mapsto> \<lparr>key = 0, next_node = 2\<rparr>, 2 \<mapsto> \<lparr>key = 0xFFFFFFFF, next_node = 0\<rparr>], brk = 3\<rparr>"

lemma empty_region_holds: "list_holds empty_region 1 0 0xFFFFFFFF {}"
proof -
  have nn: "node_key empty_region 1 = 0" "node_key empty_region 2 = 0xFFFFFFFF" "node_link empty_region 1 = 2" "node_link empty_region 2 = 0"
    by (simp_all add: node_key_def node_link_def empty_region_def)
  have lt: "(0::u32) < 0xFFFFFFFF" by simp
  have "list_nodes empty_region 1 0 0xFFFFFFFF [1, 2]"
    using nn lt by (auto simp: list_nodes_def sorted_chain_def path_simps heap_ok_def)
      (auto simp: empty_region_def split: if_splits)
  moreover have "keys_between 0 0xFFFFFFFF (node_key empty_region) [1, 2] = {}" using nn by (auto simp: keys_between_def)
  ultimately show ?thesis by (auto simp: list_holds_def)
qed

lemma LinkedList_quiet:
  assumes "list_holds h hn lo hi A"
  shows "list_quiet S lo hi A (LinkedList hn tn (\<lambda>_. SlotInfo) h)"
  using assms by (auto simp: list_quiet_def LinkedList_def SlotInfo_def list_linked_def intro!: exI [of _ "[]"])

lemma sort_key_sorts [simp]: "sorts_requests (\<lambda>f. sort_key f)"
  by (simp add: sorts_requests_def)

text \<open>
  C9. One combiner pass: for some order of the pending requests that sorts them by key, the
  results handed to the slots and the keys left in the list are those of executing the
  requests one after the other on a set. No request stays pending, and only idle slots leave the
  publication list.
\<close>

theorem flat_combine_sort_serves:
  assumes "sorts_requests srt" and "\<not> tail_slot_lock s" and "slot_path (slots s) (l_tail_slot s) xs"
    and "list_holds (region (data s)) (l_head_node (data s)) lo hi A"
    and "\<forall>x \<in> set (pending (slots s) xs). lo < parameter (slots s x) \<and> parameter (slots s x) < hi"
  shows "\<exists>s' order ys. flat_combine_sort srt s = Some s' \<and> pass_result (slots s) xs order lo hi A ys s'"
  using flat_combine_sort_pass [OF assms] by blast

definition two_adds :: list_fc where
  "two_adds = (LinkedList 1 2 ((\<lambda>_. SlotInfo)
     (5 := SlotInfo\<lparr>is_request_valid := True, operation := ADD_OP, parameter := 9, is_slot_linked := True, next_slot := 6\<rparr>,
      6 := SlotInfo\<lparr>is_request_valid := True, operation := ADD_OP, parameter := 4, is_slot_linked := True\<rparr>)) empty_region)
     \<lparr>l_tail_slot := 5\<rparr>"

theorem flat_combine_sort_serves_witness:
  "\<exists>s' order ys. flat_combine_sort (\<lambda>f. sort_key f) two_adds = Some s' \<and>
     pass_result (slots two_adds) [5, 6] order 0 0xFFFFFFFF {} ys s'"
  by (rule flat_combine_sort_serves)
    (use empty_region_holds in \<open>auto simp: two_adds_def LinkedList_def slot_path_def SlotInfo_def\<close>)

text \<open>
  C8. Calls of \<open>fc_operation\<close> one after the other on a list with sentinel keys \<open>lo\<close> and
  \<open>hi\<close> behave as operations on the set of its keys, for parameters strictly between the two.
\<close>

theorem LinkedList_operations_set:
  assumes "sorts_requests srt" and "list_holds h hn lo hi A"
    and "\<forall>(slot, op, p) \<in> set cs. slot \<noteq> 0 \<and> lo < p \<and> p < hi"
  shows "\<exists>s'. list_run srt cs (LinkedList hn tn (\<lambda>_. SlotInfo) h) = Some (s', snd (run_spec list_spec A (map snd cs))) \<and>
    list_holds (region (data s')) (l_head_node (data s')) lo hi (fst (run_spec list_spec A (map snd cs)))"
  using list_run_steps [OF assms(1) LinkedList_quiet [OF assms(2), of UNIV tn], of cs] assms(3)
  by (auto simp: list_quiet_def)

theorem LinkedList_operations_set_witness:
  "\<exists>s'. list_run (\<lambda>f. sort_key f) [(5, ADD_OP, 9), (6, ADD_OP, 9), (5, CONTAINS_OP, 4), (6, REMOVE_OP, 9)]
       (LinkedList 1 2 (\<lambda>_. SlotInfo) empty_region) = Some (s', [1, 0, 0, 1]) \<and>
     list_holds (region (data s')) (l_head_node (data s')) 0 0xFFFFFFFF {}"
  using LinkedList_operations_set [of "\<lambda>f. sort_key f" empty_region 1 0 "0xFFFFFFFF" "{}"
      "[(5, ADD_OP, 9), (6, ADD_OP, 9), (5, CONTAINS_OP, 4), (6, REMOVE_OP, 9)]" 2] empty_region_holds
  by (simp add: list_spec_def op_of_def ADD_OP_def CONTAINS_OP_def REMOVE_OP_def)

text \<open>
  A key equal to the head sentinel's stops the traversal at the head, where \<open>prev_node\<close> is
  still \<open>NULL\<close>: removing it writes through the null pointer.
\<close>

theorem remove_head_sentinel_crashes:
  assumes "list_holds h hn lo hi A" and "op \<noteq> CONTAINS_OP" and "op \<noteq> ADD_OP"
  shows "exec_request op lo (0, hn, h) = None"
proof -
  obtain as where as: "list_nodes h hn lo hi as" using assms(1) by (auto simp: list_holds_def)
  then obtain as' where as': "as = hn # as'" by (cases as) (auto simp: list_nodes_def sorted_chain_def)
  have rd: "rd_node h hn = Some (lo, node_link h hn)"
    using as rd_node_nodes [of as h hn] unfolding as' by (simp add: list_nodes_def)
  have "cells h 0 = None" using as by (simp add: list_nodes_def heap_simps)
  then show ?thesis using assms(2,3) rd
    by (simp add: exec_request_def advance.simps link_node_def h_get_def)
qed

theorem remove_head_sentinel_crashes_witness: "exec_request REMOVE_OP 0 (0, 1, empty_region) = None"
  by (rule remove_head_sentinel_crashes [OF empty_region_holds]) (simp_all add: REMOVE_OP_def ADD_OP_def CONTAINS_OP_def)

end
