(* ===== verification/Skip_Chain.thy ===== *)
theory Skip_Chain
  imports Sorted_Chain
begin

text \<open>
  Skip lists, for any memory that gives a node its key \<open>ky\<close>, its height \<open>lv\<close> and its link
  \<open>nx l\<close> at each level \<open>l\<close>. The nodes of height above \<open>l\<close> form a sorted chain at level \<open>l\<close>
  (\<open>skip_ok\<close>). \<open>find_nodes\<close> is the descent through the levels that all skip lists of the
  repository share; it records the last node before the key and the first one from it on at
  every level. Linking a new node between these, or unlinking the node found, at the levels below
  its height keeps the skip list well formed.
\<close>

text \<open>
  \<open>rd l a\<close> reads the key of \<open>a\<close> and its link at level \<open>l\<close>. \<open>stop\<close> says whether the descent ends at the
  first level where the key is found. \<open>preds\<close> and \<open>succs\<close> are arrays that start uninitialised.
\<close>

fun find_nodes ::
  "(nat \<Rightarrow> 'p::zero \<Rightarrow> (u32 \<times> 'p) option) \<Rightarrow> u32 \<Rightarrow> bool \<Rightarrow> nat \<Rightarrow> 'p \<Rightarrow> 'p \<Rightarrow> (nat \<rightharpoonup> 'p) \<Rightarrow> (nat \<rightharpoonup> 'p) \<Rightarrow>
   ('p \<times> (nat \<rightharpoonup> 'p) \<times> (nat \<rightharpoonup> 'p)) option" where
  "find_nodes rd param stop 0 prev found preds succs = Some (found, preds, succs)"
| "find_nodes rd param stop (Suc l) prev found preds succs =
     do { (_, cur) \<leftarrow> rd l prev;
          (prv, c) \<leftarrow> advance (rd l) param prev cur;
          (k, _) \<leftarrow> rd l c;
          if found = 0 \<and> param = k \<and> stop then Some (c, preds, succs)
          else find_nodes rd param stop l prv (if found = 0 \<and> param = k then c else found)
                 (preds(l \<mapsto> prv)) (succs(l \<mapsto> c)) }"

text \<open>
  The loops that link a new node, and unlink the node found, at the levels of a list. \<open>getn m l a\<close>
  reads \<open>a->next[l]\<close> and \<open>setn l a v m\<close> writes it.
\<close>

fun link_levels ::
  "(nat \<Rightarrow> 'p \<Rightarrow> 'p \<Rightarrow> 'm \<Rightarrow> 'm option) \<Rightarrow> nat list \<Rightarrow> 'p \<Rightarrow> (nat \<rightharpoonup> 'p) \<Rightarrow> (nat \<rightharpoonup> 'p) \<Rightarrow> 'm \<Rightarrow> 'm option" where
  "link_levels setn [] new preds succs m = Some m"
| "link_levels setn (l # ls) new preds succs m =
     do { s \<leftarrow> succs l;
          m1 \<leftarrow> setn l new s m;
          p \<leftarrow> preds l;
          m2 \<leftarrow> setn l p new m1;
          link_levels setn ls new preds succs m2 }"

fun unlink_levels ::
  "('m \<Rightarrow> nat \<Rightarrow> 'p \<Rightarrow> 'p option) \<Rightarrow> (nat \<Rightarrow> 'p \<Rightarrow> 'p \<Rightarrow> 'm \<Rightarrow> 'm option) \<Rightarrow> nat list \<Rightarrow> 'p \<Rightarrow> (nat \<rightharpoonup> 'p) \<Rightarrow> 'm \<Rightarrow> 'm option" where
  "unlink_levels getn setn [] found preds m = Some m"
| "unlink_levels getn setn (l # ls) found preds m =
     do { n \<leftarrow> getn m l found;
          p \<leftarrow> preds l;
          m1 \<leftarrow> setn l p n m;
          unlink_levels getn setn ls found preds m1 }"

text \<open>
  The height of a new node, from a random number: the loop counts the low one bits of \<open>x >> 1\<close>. All skip lists of the repository
  draw it this way.
\<close>

function ones_loop :: "nat \<Rightarrow> nat \<Rightarrow> nat" where
  "ones_loop x level = (if odd (x div 2) then ones_loop (x div 2) (level + 1) else level)"
  by auto
termination by (relation "measure fst") (auto elim: oddE)

declare ones_loop.simps [simp del]

definition randomLevel :: "nat \<Rightarrow> u32 \<Rightarrow> nat" where
  "randomLevel ml r =
     (let x = unat r mod 2 ^ ml
      in if odd x then 1
         else let level = ones_loop x 2 in if ml - 1 < level then ml - 1 else level)"

lemma ones_loop_ge: "level \<le> ones_loop x level"
proof (induction x level rule: ones_loop.induct)
  case (1 x level)
  then show ?case by (subst ones_loop.simps) auto
qed

lemma randomLevel_bounds: "2 \<le> ml \<Longrightarrow> 0 < randomLevel ml r \<and> randomLevel ml r < ml"
  using ones_loop_ge [of 2 "unat r mod 2 ^ ml"] by (auto simp: randomLevel_def Let_def)

definition at_level :: "('p \<Rightarrow> nat) \<Rightarrow> nat \<Rightarrow> 'p list \<Rightarrow> 'p list" where
  "at_level lv l as = filter (\<lambda>a. l < lv a) as"

definition before :: "('p \<Rightarrow> u32) \<Rightarrow> u32 \<Rightarrow> 'p list \<Rightarrow> 'p list" where
  "before ky p as = filter (\<lambda>a. ky a < p) as"

definition from_on :: "('p \<Rightarrow> u32) \<Rightarrow> u32 \<Rightarrow> 'p list \<Rightarrow> 'p list" where
  "from_on ky p as = filter (\<lambda>a. p \<le> ky a) as"

definition skip_ok :: "(nat \<Rightarrow> 'p::zero \<Rightarrow> 'p) \<Rightarrow> ('p \<Rightarrow> u32) \<Rightarrow> ('p \<Rightarrow> nat) \<Rightarrow> 'p \<Rightarrow> nat \<Rightarrow> 'p list \<Rightarrow> bool" where
  "skip_ok nx ky lv hn ml as \<longleftrightarrow>
     as \<noteq> [] \<and> hd as = hn \<and> 0 < ml \<and> ml \<le> lv hn \<and> ml \<le> lv (last as) \<and> (\<forall>a \<in> set as. 0 < lv a) \<and>
     sorted_keys ky as \<and> (\<forall>l < ml. sorted_chain (nx l) ky hn (at_level lv l as))"

text \<open>The nodes the descent records at level \<open>l\<close>.\<close>

definition pred_at :: "('p \<Rightarrow> u32) \<Rightarrow> ('p \<Rightarrow> nat) \<Rightarrow> 'p list \<Rightarrow> u32 \<Rightarrow> nat \<Rightarrow> 'p" where
  "pred_at ky lv as p l = last (at_level lv l (before ky p as))"

definition succ_at :: "('p \<Rightarrow> u32) \<Rightarrow> ('p \<Rightarrow> nat) \<Rightarrow> 'p list \<Rightarrow> u32 \<Rightarrow> nat \<Rightarrow> 'p" where
  "succ_at ky lv as p l = hd (at_level lv l (from_on ky p as))"

lemma level_append [simp]: "at_level lv l (as @ bs) = at_level lv l as @ at_level lv l bs"
  by (simp add: at_level_def)

lemma level_Cons [simp]: "at_level lv l (a # as) = (if l < lv a then a # at_level lv l as else at_level lv l as)"
  by (simp add: at_level_def)

lemma level_Nil [simp]: "at_level lv l [] = []"
  by (simp add: at_level_def)

lemma set_level [simp]: "set (at_level lv l as) = {a \<in> set as. l < lv a}"
  by (simp add: at_level_def)

lemma level_cong: "(\<And>a. a \<in> set as \<Longrightarrow> lv a = lv' a) \<Longrightarrow> at_level lv l as = at_level lv' l as"
  by (auto simp: at_level_def intro: filter_cong)

lemma sorted_split: "sorted_keys ky as \<Longrightarrow> as = before ky p as @ from_on ky p as"
proof (induction as)
  case (Cons a as)
  have "before ky p as = []" if "p \<le> ky a"
  proof -
    have "\<not> ky b < p" if "b \<in> set as" for b
      using Cons.prems that \<open>p \<le> ky a\<close> by (meson not_less order.strict_trans1 order_less_imp_le sorted_keys_Cons)
    then show ?thesis by (simp add: before_def filter_empty_conv)
  qed
  then show ?case using Cons by (auto simp: before_def from_on_def sorted_keys_Cons not_less)
qed (simp add: before_def from_on_def)

lemma set_split: "sorted_keys ky as \<Longrightarrow> set (before ky p as) \<union> set (from_on ky p as) = set as"
  using arg_cong [OF sorted_split, of ky as set p] by simp

lemma before_key: "u \<in> set (before ky p as) \<Longrightarrow> ky u < p"
  and from_on_key: "u \<in> set (from_on ky p as) \<Longrightarrow> p \<le> ky u"
  by (auto simp: before_def from_on_def)

text \<open>A sorted list has only one split at a key.\<close>

lemma stop_unique:
  assumes "us @ cs = us' @ cs'" and "\<forall>u \<in> set us. ky u < p" and "\<forall>c \<in> set cs. p \<le> ky c"
    and "\<forall>u \<in> set us'. ky u < p" and "\<forall>c \<in> set cs'. p \<le> (ky c :: u32)"
  shows "us = us' \<and> cs = cs'"
proof -
  have "filter (\<lambda>a. ky a < p) (us @ cs) = us" using assms(2,3) by (simp add: filter_empty_conv leD)
  moreover have "filter (\<lambda>a. ky a < p) (us' @ cs') = us'" using assms(4,5) by (simp add: filter_empty_conv leD)
  ultimately show ?thesis using assms(1) by auto
qed

lemma stop_at_all:
  assumes "sorted_keys ky (us @ cs)" and "stop_at ky p us cs"
  shows "\<forall>u \<in> set us. ky u < p" and "\<forall>c \<in> set cs. p \<le> ky c"
proof -
  obtain c ds where cs: "cs = c # ds" using assms(2) by (cases cs) (auto simp: stop_at_def)
  show "\<forall>u \<in> set us. ky u < p" using assms(2) by (simp add: stop_at_def)
  have "p \<le> ky c" "\<And>d. d \<in> set ds \<Longrightarrow> ky c < ky d" using assms cs by (auto simp: stop_at_def path_simps)
  then show "\<forall>c \<in> set cs. p \<le> ky c" using cs by (metis order.trans order_less_imp_le set_ConsD)
qed

subsection \<open>The descent\<close>

lemma last_filter: "as \<noteq> [] \<Longrightarrow> P (last as) \<Longrightarrow> last (filter P as) = last as"
  by (induction as rule: rev_induct) auto

lemma skip_okD:
  assumes "skip_ok nx ky lv hn ml as"
  shows "as \<noteq> []" "hd as = hn" "0 < ml" "ml \<le> lv hn" "ml \<le> lv (last as)" "a \<in> set as \<Longrightarrow> 0 < lv a"
    "sorted_keys ky as" "l < ml \<Longrightarrow> sorted_chain (nx l) ky hn (at_level lv l as)" "hn \<in> set as" "last as \<in> set as"
  using assms by (auto simp: skip_ok_def)

lemma level_split: "sorted_keys ky as \<Longrightarrow> at_level lv l as = at_level lv l (before ky p as) @ at_level lv l (from_on ky p as)"
  using sorted_split [of ky as p] by (metis level_append)

text \<open>Reading a node gives its key and its link; the key of the head is never used.\<close>

definition reads ::
  "(nat \<Rightarrow> 'p::zero \<Rightarrow> (u32 \<times> 'p) option) \<Rightarrow> (nat \<Rightarrow> 'p \<Rightarrow> 'p) \<Rightarrow> ('p \<Rightarrow> u32) \<Rightarrow> ('p \<Rightarrow> nat) \<Rightarrow> 'p \<Rightarrow> nat \<Rightarrow> 'p list \<Rightarrow> bool" where
  "reads rd nx ky lv hn ml as \<longleftrightarrow>
     (\<forall>a \<in> set as. \<forall>l. l < ml \<longrightarrow> l < lv a \<longrightarrow> (\<exists>k. rd l a = Some (k, nx l a) \<and> (a \<noteq> hn \<longrightarrow> k = ky a)))"

lemma readsD:
  assumes "reads rd nx ky lv hn ml as" "a \<in> set as" "l < ml" "l < lv a"
  shows "\<exists>k. rd l a = Some (k, nx l a)" "a \<noteq> hn \<Longrightarrow> rd l a = Some (ky a, nx l a)"
  using assms by (auto simp: reads_def)

lemma skip_head_least:
  assumes ok: "skip_ok nx ky lv hn ml as" and "b \<in> set as"
  shows "ky hn \<le> ky b"
proof -
  obtain as' where as: "as = hn # as'" using skip_okD(1,2) [OF ok] by (cases as) auto
  then have "\<forall>b \<in> set as'. ky hn < ky b" using skip_okD(7) [OF ok] by (simp add: sorted_keys_Cons)
  then show ?thesis using as assms(2) by auto
qed

lemma pred_at_props:
  assumes ok: "skip_ok nx ky lv hn ml as" and l: "l < ml" and "ky hn < p"
  shows "at_level lv l (before ky p as) \<noteq> []" "pred_at ky lv as p l \<in> set as" "l < lv (pred_at ky lv as p l)" "ky (pred_at ky lv as p l) < p"
proof -
  have "hn \<in> set (at_level lv l (before ky p as))" using skip_okD(4,9) [OF ok] l assms(3) by (auto simp: before_def)
  then show ne: "at_level lv l (before ky p as) \<noteq> []" by (metis empty_iff list.set(1))
  have "pred_at ky lv as p l \<in> set (at_level lv l (before ky p as))" unfolding pred_at_def by (rule last_in_set [OF ne])
  then show "pred_at ky lv as p l \<in> set as" "l < lv (pred_at ky lv as p l)" "ky (pred_at ky lv as p l) < p" by (auto simp: before_def)
qed

lemma succ_at_props:
  assumes ok: "skip_ok nx ky lv hn ml as" and l: "l < ml" and "p \<le> ky (last as)"
  shows "at_level lv l (from_on ky p as) \<noteq> []" "succ_at ky lv as p l \<in> set as" "l < lv (succ_at ky lv as p l)"
    "p \<le> ky (succ_at ky lv as p l)"
proof -
  have "last as \<in> set (at_level lv l (from_on ky p as))" using skip_okD(5,10) [OF ok] l assms(3) by (auto simp: from_on_def)
  then show ne: "at_level lv l (from_on ky p as) \<noteq> []" by (metis empty_iff list.set(1))
  have "succ_at ky lv as p l \<in> set (at_level lv l (from_on ky p as))" unfolding succ_at_def by (rule hd_in_set [OF ne])
  then show "succ_at ky lv as p l \<in> set as" "l < lv (succ_at ky lv as p l)" "p \<le> ky (succ_at ky lv as p l)" by (auto simp: from_on_def)
qed

text \<open>At every level the descent meets the key exactly if a node of that height has it.\<close>

lemma succ_at_key:
  assumes ok: "skip_ok nx ky lv hn ml as" and l: "l < ml" and p: "p \<le> ky (last as)"
    and a: "a \<in> set as" "l < lv a" "ky a = p"
  shows "succ_at ky lv as p l = a"
proof -
  let ?L = "at_level lv l (from_on ky p as)"
  obtain c cs where L: "?L = c # cs" using succ_at_props(1) [OF ok l p] by (cases ?L) auto
  have "sorted_keys ky (at_level lv l as)" using skip_okD(8) [OF ok l] by (simp add: sorted_chain_def)
  then have so: "sorted_keys ky (c # cs)" using level_split [OF skip_okD(7) [OF ok], of lv l p] L by (simp add: sorted_keys_append)
  have "c \<in> set ?L" unfolding L by simp
  then have "p \<le> ky c" using from_on_key [of c ky p as] by simp
  moreover have "a \<in> set (c # cs)" unfolding L [symmetric] using a by (auto simp: from_on_def)
  ultimately have "a = c" using so a(3) L by (auto simp: sorted_keys_Cons dest: leD)
  then show ?thesis using L by (simp add: succ_at_def)
qed

lemma level_search:
  assumes ok: "skip_ok nx ky lv hn ml as" and rd: "reads rd nx ky lv hn ml as" and l: "l < ml"
    and prev: "prev \<in> set as" "l < lv prev" "ky prev < p" and p: "p \<le> ky (last as)"
  shows "\<exists>k. rd l prev = Some (k, nx l prev)" "advance (rd l) p prev (nx l prev) = Some (pred_at ky lv as p l, succ_at ky lv as p l)"
proof -
  let ?L = "at_level lv l as"
  show "\<exists>k. rd l prev = Some (k, nx l prev)" by (rule readsD(1) [OF rd prev(1) l prev(2)])
  have sc: "sorted_chain (nx l) ky hn ?L" by (rule skip_okD(8) [OF ok l])
  have "prev \<in> set ?L" using prev by simp
  then obtain us ds where L: "?L = us @ prev # ds" by (meson split_list)
  have so: "sorted_keys ky (us @ prev # ds)" and pa: "lpath (nx l) hn ((us @ [prev]) @ ds) 0" using sc L by (auto simp: sorted_chain_def)
  have la: "last ?L = last as" unfolding at_level_def using skip_okD(1,5) [OF ok] l by (intro last_filter) auto
  have ne: "ds \<noteq> []" using la L prev(3) p by auto
  then have pl: "p \<le> ky (last ds)" using la L p by simp
  have "lpath (nx l) (nx l prev) ds 0" using lpath_end [OF pa] by simp
  moreover have "rd l a = Some (ky a, nx l a)" if "a \<in> set ds" for a
  proof -
    have "a \<in> set ?L" unfolding L using that by simp
    then have a: "a \<in> set as" "l < lv a" by simp_all
    have "ky prev < ky a" using so that by (simp add: path_simps)
    then have "a \<noteq> hn" using skip_head_least [OF ok prev(1)] by auto
    then show ?thesis by (rule readsD(2) [OF rd a(1) l a(2)])
  qed
  moreover have "\<forall>u \<in> set (us @ [prev]). ky u < p" using so prev(3) by (auto simp: path_simps intro: order.strict_trans)
  ultimately obtain us' cs' where S: "us' @ cs' = us @ prev # ds" "length (us @ [prev]) \<le> length us'" "stop_at ky p us' cs'"
      "advance (rd l) p (prev_of (us @ [prev])) (nx l prev) = Some (prev_of us', hd cs')"
    using advance_stop [of "nx l" "nx l prev" ds "rd l" ky p "us @ [prev]"] ne pl by auto
  have eq: "us' @ cs' = at_level lv l (before ky p as) @ at_level lv l (from_on ky p as)"
    using S(1) L level_split [OF skip_okD(7) [OF ok], of lv l p] by simp
  have "sorted_keys ky (us' @ cs')" using so S(1) by simp
  from stop_at_all [OF this S(3)] have "us' = at_level lv l (before ky p as) \<and> cs' = at_level lv l (from_on ky p as)"
    using eq before_key from_on_key by (intro stop_unique) (auto simp: at_level_def)
  moreover have "us' \<noteq> []" using S(2) by auto
  ultimately show "advance (rd l) p prev (nx l prev) = Some (pred_at ky lv as p l, succ_at ky lv as p l)"
    using S(4) by (simp add: pred_at_def succ_at_def prev_of_def)
qed

text \<open>
  The descent from level \<open>m\<close>: it returns the node with the key if there is one, and, unless
  it stopped at that node, the recorded neighbours at every level below \<open>m\<close>.
\<close>

definition descended ::
  "('p::zero \<Rightarrow> u32) \<Rightarrow> ('p \<Rightarrow> nat) \<Rightarrow> 'p list \<Rightarrow> u32 \<Rightarrow> bool \<Rightarrow> nat \<Rightarrow> 'p \<Rightarrow> (nat \<rightharpoonup> 'p) \<Rightarrow> (nat \<rightharpoonup> 'p) \<Rightarrow>
   'p \<times> (nat \<rightharpoonup> 'p) \<times> (nat \<rightharpoonup> 'p) \<Rightarrow> bool" where
  "descended ky lv as p stop m found P Q r \<longleftrightarrow> (case r of (F, P', Q') \<Rightarrow>
     (F \<noteq> 0 \<longrightarrow> F \<in> set as \<and> ky F = p) \<and> (0 < m \<or> found \<noteq> 0 \<longrightarrow> F = 0 \<longrightarrow> (\<forall>a \<in> set as. ky a \<noteq> p)) \<and>
     (\<not> (stop \<and> F \<noteq> 0) \<longrightarrow> (\<forall>l < m. P' l = Some (pred_at ky lv as p l) \<and> Q' l = Some (succ_at ky lv as p l)) \<and>
       (\<forall>l \<ge> m. P' l = P l \<and> Q' l = Q l)))"

lemma descended_Suc:
  assumes D: "descended ky lv as p stop l f (P(l \<mapsto> pred_at ky lv as p l)) (Q(l \<mapsto> succ_at ky lv as p l)) r"
    and f: "f = 0 \<Longrightarrow> l = 0 \<Longrightarrow> \<forall>a \<in> set as. ky a \<noteq> p"
  shows "descended ky lv as p stop (Suc l) found P Q r"
proof -
  obtain F P' Q' where r: "r = (F, P', Q')" by (cases r)
  have "\<forall>a \<in> set as. ky a \<noteq> p" if "F = 0"
  proof (cases "0 < l \<or> f \<noteq> 0")
    case True
    then show ?thesis using D that unfolding descended_def r by blast
  next
    case False
    then show ?thesis using f by simp
  qed
  moreover have "\<forall>k < Suc l. P' k = Some (pred_at ky lv as p k) \<and> Q' k = Some (succ_at ky lv as p k)" if "\<not> (stop \<and> F \<noteq> 0)"
    using D that by (auto simp: descended_def r less_Suc_eq)
  moreover have "\<forall>k \<ge> Suc l. P' k = P k \<and> Q' k = Q k" if "\<not> (stop \<and> F \<noteq> 0)" using D that by (simp add: descended_def r)
  moreover have "F \<noteq> 0 \<longrightarrow> F \<in> set as \<and> ky F = p" using D by (simp add: descended_def r)
  ultimately show ?thesis unfolding descended_def r by blast
qed

lemma find_nodes_descends:
  assumes ok: "skip_ok nx ky lv hn ml as" and rd: "reads rd nx ky lv hn ml as" and z: "0 \<notin> set as"
    and p: "ky hn < p" "p \<le> ky (last as)"
    and "m \<le> ml" and "prev \<in> set as" "m \<le> lv prev" "ky prev < p" and "found \<noteq> 0 \<longrightarrow> found \<in> set as \<and> ky found = p"
  shows "\<exists>r. find_nodes rd p stop m prev found P Q = Some r \<and> descended ky lv as p stop m found P Q r"
  using assms(6-)
proof (induction m arbitrary: prev found P Q)
  case 0
  then show ?case using skip_okD(3) [OF ok] by (auto simp: descended_def)
next
  case (Suc l)
  let ?pr = "pred_at ky lv as p l" and ?su = "succ_at ky lv as p l"
  have l: "l < ml" and pv: "l < lv prev" using Suc.prems by auto
  note LS = level_search [OF ok rd l Suc.prems(2) pv Suc.prems(4) p(2)]
  obtain kp where kp: "rd l prev = Some (kp, nx l prev)" using LS(1) by blast
  note S = kp LS(2)
  have "?su \<noteq> hn" using succ_at_props(4) [OF ok l p(2)] p(1) by auto
  then have rs: "rd l ?su = Some (ky ?su, nx l ?su)"
    by (rule readsD(2) [OF rd succ_at_props(2) [OF ok l p(2)] l succ_at_props(3) [OF ok l p(2)]])
  show ?case
  proof (cases "found = 0 \<and> p = ky ?su \<and> stop")
    case True
    then have "find_nodes rd p stop (Suc l) prev found P Q = Some (?su, P, Q)" using S rs by simp
    then show ?thesis using True succ_at_props [OF ok l p(2)] z by (auto simp: descended_def)
  next
    case False
    define f where "f = (if found = 0 \<and> p = ky ?su then ?su else found)"
    have e: "find_nodes rd p stop (Suc l) prev found P Q = find_nodes rd p stop l ?pr f (P(l \<mapsto> ?pr)) (Q(l \<mapsto> ?su))"
      using False S rs by (auto simp: f_def)
    have f: "f \<noteq> 0 \<longrightarrow> f \<in> set as \<and> ky f = p" using Suc.prems(5) succ_at_props [OF ok l p(2)] by (auto simp: f_def)
    obtain r where r: "find_nodes rd p stop l ?pr f (P(l \<mapsto> ?pr)) (Q(l \<mapsto> ?su)) = Some r"
        "descended ky lv as p stop l f (P(l \<mapsto> ?pr)) (Q(l \<mapsto> ?su)) r"
      using Suc.IH [OF order_less_imp_le [OF l] pred_at_props(2) [OF ok l p(1)]
          order_less_imp_le [OF pred_at_props(3) [OF ok l p(1)]] pred_at_props(4) [OF ok l p(1)] f] by blast
    have "\<forall>a \<in> set as. ky a \<noteq> p" if "f = 0" "l = 0"
    proof -
      have "ky ?su \<noteq> p" using that succ_at_props(2) [OF ok l p(2)] z by (auto simp: f_def split: if_splits)
      then show ?thesis using succ_at_key [OF ok l p(2)] skip_okD(6) [OF ok] \<open>l = 0\<close> by auto
    qed
    then show ?thesis using e r descended_Suc [OF r(2)] by auto
  qed
qed

subsection \<open>Linking and unlinking a node\<close>

lemma skip_insert:
  assumes ok: "skip_ok nx ky lv hn ml as" and k: "0 < k" "k \<le> ml" and p: "ky hn < p" "p < ky (last as)"
    and new: "\<forall>b \<in> set as. ky b \<noteq> p" and a: "a \<noteq> 0" "a \<notin> set as" "ky' a = p" "lv' a = k"
    and same: "\<And>b. b \<in> set as \<Longrightarrow> ky' b = ky b" "\<And>b. b \<in> set as \<Longrightarrow> lv' b = lv b"
    and links: "\<And>l. l < k \<Longrightarrow> nx' l a = succ_at ky lv as p l" "\<And>l. l < k \<Longrightarrow> nx' l (pred_at ky lv as p l) = a"
    and others: "\<And>l b. l < ml \<Longrightarrow> b \<in> set as \<Longrightarrow> \<not> (l < k \<and> b = pred_at ky lv as p l) \<Longrightarrow> nx' l b = nx l b"
  shows "skip_ok nx' ky' lv' hn ml (before ky p as @ a # from_on ky p as)"
proof -
  let ?us = "before ky p as" and ?cs = "from_on ky p as"
  have ple: "p \<le> ky (last as)" using p(2) by simp
  have split: "as = ?us @ ?cs" by (rule sorted_split [OF skip_okD(7) [OF ok]])
  have in_us: "b \<in> set as" if "b \<in> set ?us" for b using that by (simp add: before_def)
  have in_cs: "b \<in> set as" if "b \<in> set ?cs" for b using that by (simp add: from_on_def)
  have lvl: "at_level lv' l ?us = at_level lv l ?us" "at_level lv' l ?cs = at_level lv l ?cs" for l
    using same(2) in_us in_cs by (auto intro!: level_cong)
  have chain: "sorted_chain (nx' l) ky' hn (at_level lv' l (?us @ a # ?cs))" if l: "l < ml" for l
  proof -
    let ?U = "at_level lv l ?us" and ?C = "at_level lv l ?cs"
    have sc: "sorted_chain (nx l) ky hn (?U @ ?C)" using skip_okD(8) [OF ok l] level_split [OF skip_okD(7) [OF ok], of lv l p] by simp
    have sub: "b \<in> set as \<and> l < lv b" if "b \<in> set (?U @ ?C)" for b using that in_us in_cs by auto
    show ?thesis
    proof (cases "l < k")
      case True
      have st: "stop_at ky p ?U ?C"
        using succ_at_props [OF ok l ple] before_key by (auto simp: stop_at_def succ_at_def)
      have "sorted_chain (nx' l) ky' hn (?U @ a # ?C)"
      proof (rule sorted_chain_insert [OF sc pred_at_props(1) [OF ok l p(1)] st])
        show "ky (hd ?C) \<noteq> p" using new succ_at_props(2) [OF ok l ple] by (simp add: succ_at_def)
        show "a \<notin> set (?U @ ?C)" using a(2) sub by blast
        show "nx' l a = hd ?C" "nx' l (last ?U) = a" using links True by (simp_all add: succ_at_def pred_at_def)
        show "nx' l b = nx l b" if "b \<in> set (?U @ ?C)" "b \<noteq> last ?U" for b
          using others [OF l, of b] sub [OF that(1)] that(2) by (simp add: pred_at_def)
        show "ky' b = ky b" if "b \<in> set (?U @ ?C)" for b using same(1) sub [OF that] by simp
      qed (use a in auto)
      then show ?thesis using True a(4) lvl by simp
    next
      case False
      have "nx' l b = nx l b" "ky' b = ky b" if "b \<in> set (?U @ ?C)" for b
        using others [OF l, of b] same(1) [of b] sub [OF that] False by simp_all
      then have "sorted_chain (nx' l) ky' hn (?U @ ?C)" by (rule sorted_chain_cong [OF sc])
      then show ?thesis using False a(4) lvl by simp
    qed
  qed
  have hn: "hn \<in> set ?us" using skip_okD(9) [OF ok] p(1) by (simp add: before_def)
  have la: "last as \<in> set ?cs" using skip_okD(10) [OF ok] ple by (simp add: from_on_def)
  then have lc: "last ?cs = last as" "?cs \<noteq> []" using split by (metis empty_iff last_appendR list.set(1))+
  have hd: "hd (?us @ a # ?cs) = hn" using skip_okD(2) [OF ok] split hn
    by (metis empty_iff hd_append2 list.set(1))
  have "sorted_keys ky' (at_level lv' 0 (?us @ a # ?cs))" using chain [OF skip_okD(3) [OF ok]] by (simp add: sorted_chain_def)
  moreover have pos: "0 < lv' b" if "b \<in> set (?us @ a # ?cs)" for b
    using that skip_okD(6) [OF ok] same(2) a(4) k(1) in_us in_cs by auto
  then have "at_level lv' 0 (?us @ a # ?cs) = ?us @ a # ?cs" unfolding at_level_def by (simp add: filter_id_conv)
  ultimately have "sorted_keys ky' (?us @ a # ?cs)" by simp
  moreover have "ml \<le> lv' hn" "ml \<le> lv' (last (?us @ a # ?cs))"
    using skip_okD(4,5,9,10) [OF ok] same(2) lc by auto
  ultimately show ?thesis using chain hd pos skip_okD(3) [OF ok] by (auto simp: skip_ok_def)
qed

lemma from_on_Cons:
  assumes ok: "skip_ok nx ky lv hn ml as" and c: "c \<in> set as" "ky c = p"
  shows "\<exists>ds. from_on ky p as = c # ds"
proof -
  have so: "sorted_keys ky (from_on ky p as)"
    using skip_okD(7) [OF ok] sorted_split [OF skip_okD(7) [OF ok], of p] by (metis sorted_keys_append)
  have "c \<in> set (from_on ky p as)" using c by (simp add: from_on_def)
  then obtain d ds where d: "from_on ky p as = d # ds" by (cases "from_on ky p as") auto
  have "p \<le> ky d" using from_on_key [of d ky p as] d by simp
  then have "c = d" using so d \<open>c \<in> set (from_on ky p as)\<close> c(2) by (auto simp: sorted_keys_Cons dest: leD)
  then show ?thesis using d by simp
qed

lemma skip_remove:
  assumes ok: "skip_ok nx ky lv hn ml as" and p: "ky hn < p" "p < ky (last as)" and c: "from_on ky p as = c # ds" "ky c = p"
    and same: "\<And>b. b \<in> set as \<Longrightarrow> b \<noteq> c \<Longrightarrow> ky' b = ky b" "\<And>b. b \<in> set as \<Longrightarrow> b \<noteq> c \<Longrightarrow> lv' b = lv b"
    and links: "\<And>l. l < ml \<Longrightarrow> l < lv c \<Longrightarrow> nx' l (pred_at ky lv as p l) = nx l c"
    and others: "\<And>l b. l < ml \<Longrightarrow> b \<in> set as \<Longrightarrow> b \<noteq> c \<Longrightarrow> \<not> (l < lv c \<and> b = pred_at ky lv as p l) \<Longrightarrow> nx' l b = nx l b"
  shows "skip_ok nx' ky' lv' hn ml (before ky p as @ ds)"
proof -
  let ?us = "before ky p as"
  have split: "as = ?us @ c # ds" using sorted_split [OF skip_okD(7) [OF ok], of p] c(1) by simp
  have so: "sorted_keys ky (?us @ c # ds)" using skip_okD(7) [OF ok] split by simp
  have ne: "b \<in> set as" "b \<noteq> c" if "b \<in> set (?us @ ds)" for b
  proof -
    show "b \<in> set as" using that by (subst split) auto
    show "b \<noteq> c" using that so by (auto simp: path_simps)
  qed
  have lvl: "at_level lv' l ?us = at_level lv l ?us" "at_level lv' l ds = at_level lv l ds" for l
    using same(2) ne by (auto intro!: level_cong)
  have chain: "sorted_chain (nx' l) ky' hn (at_level lv' l (?us @ ds))" if l: "l < ml" for l
  proof -
    let ?U = "at_level lv l ?us" and ?D = "at_level lv l ds"
    have sc: "sorted_chain (nx l) ky hn (?U @ at_level lv l (c # ds))"
      using skip_okD(8) [OF ok l] level_split [OF skip_okD(7) [OF ok], of lv l p] c(1) by simp
    have sub: "b \<in> set as \<and> b \<noteq> c" if "b \<in> set (?U @ ?D)" for b using that ne by auto
    show ?thesis
    proof (cases "l < lv c")
      case True
      have "sorted_chain (nx' l) ky' hn (?U @ ?D)"
      proof (rule sorted_chain_remove [OF _ pred_at_props(1) [OF ok l p(1)]])
        show "sorted_chain (nx l) ky hn (?U @ c # ?D)" using sc True by simp
        show "nx' l (last ?U) = nx l c" using links [OF l True] by (simp add: pred_at_def)
        show "nx' l b = nx l b" if "b \<in> set (?U @ ?D)" "b \<noteq> last ?U" for b
          using others [OF l, of b] sub [OF that(1)] that(2) by (simp add: pred_at_def)
        show "ky' b = ky b" if "b \<in> set (?U @ ?D)" for b using same(1) sub [OF that] by simp
      qed
      then show ?thesis using lvl by simp
    next
      case False
      then have "sorted_chain (nx l) ky hn (?U @ ?D)" using sc by simp
      moreover have "nx' l b = nx l b" "ky' b = ky b" if "b \<in> set (?U @ ?D)" for b
        using others [OF l, of b] same(1) [of b] sub [OF that] False by simp_all
      ultimately have "sorted_chain (nx' l) ky' hn (?U @ ?D)" by (rule sorted_chain_cong)
      then show ?thesis using lvl by simp
    qed
  qed
  have hn: "hn \<in> set ?us" using skip_okD(9) [OF ok] p(1) by (simp add: before_def)
  have "last as = last (c # ds)" using split by (metis last_appendR list.distinct(1))
  then have la: "ds \<noteq> []" "last ds = last as" using p(2) c(2) by (auto split: if_splits)
  have hd: "hd (?us @ ds) = hn" using skip_okD(2) [OF ok] split hn by (metis empty_iff hd_append2 list.set(1))
  have pos: "0 < lv' b" if "b \<in> set (?us @ ds)" for b using skip_okD(6) [OF ok] same(2) ne [OF that] by simp
  have "sorted_keys ky (?us @ ds) \<longleftrightarrow> sorted_keys ky' (?us @ ds)" using same(1) ne by (intro sorted_keys_cong) simp
  then have "sorted_keys ky' (?us @ ds)" using so by (simp add: path_simps)
  moreover have "ml \<le> lv' hn" "ml \<le> lv' (last (?us @ ds))"
    using skip_okD(4,5) [OF ok] same(2) ne [of hn] ne [of "last ds"] hn la last_in_set [OF la(1)] by auto
  ultimately show ?thesis using chain hd pos skip_okD(3) [OF ok] la(1) by (auto simp: skip_ok_def)
qed

subsection \<open>Memories with links\<close>

text \<open>
  What the loops rely on: writing a link of a live node changes that link and nothing else that
  \<open>same\<close> observes; \<open>vis\<close> are the links that are observed. The laws hold for the C++ heap and for the
  blocks of the PIM vault, where only blocks have links.
\<close>

locale link_memory =
  fixes getn :: "'m \<Rightarrow> nat \<Rightarrow> 'p::zero \<Rightarrow> 'p option"
    and setn :: "nat \<Rightarrow> 'p \<Rightarrow> 'p \<Rightarrow> 'm \<Rightarrow> 'm option"
    and alive :: "'m \<Rightarrow> 'p \<Rightarrow> bool"
    and same :: "'m \<Rightarrow> 'm \<Rightarrow> bool"
    and maxl :: nat
    and vis :: "nat \<Rightarrow> 'p \<Rightarrow> bool"
  assumes set_get: "alive m a \<Longrightarrow> l < maxl \<Longrightarrow>
      \<exists>m'. setn l a v m = Some m' \<and> same m m' \<and> (\<forall>k b. vis k b \<longrightarrow> getn m' k b = (if k = l \<and> b = a then Some v else getn m k b))"
    and same_refl: "same m m"
    and same_trans: "same m1 m2 \<Longrightarrow> same m2 m3 \<Longrightarrow> same m1 m3"
    and same_alive: "same m1 m2 \<Longrightarrow> alive m2 a \<longleftrightarrow> alive m1 a"
begin

lemma link_levels_links:
  assumes "alive m new" and "distinct ls"
    and "\<And>l. l \<in> set ls \<Longrightarrow> l < maxl \<and> succs l = Some (S l) \<and> preds l = Some (P l) \<and> alive m (P l) \<and> P l \<noteq> new"
  shows "\<exists>m'. link_levels setn ls new preds succs m = Some m' \<and> same m m' \<and>
    (\<forall>k b. vis k b \<longrightarrow> getn m' k b = (if k \<in> set ls \<and> b = new then Some (S k) else if k \<in> set ls \<and> b = P k then Some new else getn m k b))"
  using assms
proof (induction ls arbitrary: m)
  case Nil
  then show ?case by (simp add: same_refl)
next
  case (Cons l ls)
  have l: "l < maxl" "succs l = Some (S l)" "preds l = Some (P l)" "alive m (P l)" "P l \<noteq> new" using Cons.prems(3) by auto
  obtain m1 where m1: "setn l new (S l) m = Some m1" "same m m1"
      "\<forall>k b. vis k b \<longrightarrow> getn m1 k b = (if k = l \<and> b = new then Some (S l) else getn m k b)"
    using set_get [OF Cons.prems(1) l(1), of "S l"] by blast
  have "alive m1 (P l)" using same_alive [OF m1(2)] l(4) by simp
  then obtain m2 where m2: "setn l (P l) new m1 = Some m2" "same m1 m2"
      "\<forall>k b. vis k b \<longrightarrow> getn m2 k b = (if k = l \<and> b = P l then Some new else getn m1 k b)"
    using set_get [OF _ l(1), of m1 "P l" new] by blast
  have s2: "same m m2" using same_trans [OF m1(2) m2(2)] .
  then have a2: "alive m2 b \<longleftrightarrow> alive m b" for b by (rule same_alive)
  obtain m' where m': "link_levels setn ls new preds succs m2 = Some m'" "same m2 m'"
      "\<forall>k b. vis k b \<longrightarrow> getn m' k b = (if k \<in> set ls \<and> b = new then Some (S k) else if k \<in> set ls \<and> b = P k then Some new else getn m2 k b)"
    using Cons.IH [of m2] Cons.prems a2 by auto
  have "getn m' k b = (if k \<in> set (l # ls) \<and> b = new then Some (S k) else if k \<in> set (l # ls) \<and> b = P k then Some new else getn m k b)" if "vis k b" for k b
    using that m'(3) m2(3) m1(3) l(5) Cons.prems(2) by (cases "k = l") auto
  moreover have "link_levels setn (l # ls) new preds succs m = Some m'" using l m1(1) m2(1) m'(1) by simp
  ultimately show ?case using same_trans [OF s2 m'(2)] by blast
qed

lemma unlink_levels_links:
  assumes "distinct ls"
    and "\<And>l. l \<in> set ls \<Longrightarrow> l < maxl \<and> getn m l c = Some (N l) \<and> preds l = Some (P l) \<and> alive m (P l) \<and> P l \<noteq> c \<and> vis l c"
  shows "\<exists>m'. unlink_levels getn setn ls c preds m = Some m' \<and> same m m' \<and>
    (\<forall>k b. vis k b \<longrightarrow> getn m' k b = (if k \<in> set ls \<and> b = P k then Some (N k) else getn m k b))"
  using assms
proof (induction ls arbitrary: m)
  case Nil
  then show ?case by (simp add: same_refl)
next
  case (Cons l ls)
  have l: "l < maxl" "getn m l c = Some (N l)" "preds l = Some (P l)" "alive m (P l)" "P l \<noteq> c" using Cons.prems(2) by auto
  obtain m1 where m1: "setn l (P l) (N l) m = Some m1" "same m m1"
      "\<forall>k b. vis k b \<longrightarrow> getn m1 k b = (if k = l \<and> b = P l then Some (N l) else getn m k b)"
    using set_get [OF l(4,1), of "N l"] by blast
  have a1: "alive m1 b \<longleftrightarrow> alive m b" for b using m1(2) by (rule same_alive)
  have n1: "getn m1 k c = getn m k c" if "k \<in> set ls" for k using m1(3) that Cons.prems by auto
  obtain m' where m': "unlink_levels getn setn ls c preds m1 = Some m'" "same m1 m'"
      "\<forall>k b. vis k b \<longrightarrow> getn m' k b = (if k \<in> set ls \<and> b = P k then Some (N k) else getn m1 k b)"
    using Cons.IH [of m1] Cons.prems a1 n1 by auto
  have "getn m' k b = (if k \<in> set (l # ls) \<and> b = P k then Some (N k) else getn m k b)" if "vis k b" for k b
    using that m'(3) m1(3) Cons.prems(1) by (cases "k = l") auto
  moreover have "unlink_levels getn setn (l # ls) c preds m = Some m'" using l m1(1) m'(1) by simp
  ultimately show ?case using same_trans [OF m1(2) m'(2)] by blast
qed

end

end
