(* ===== verification/FC_SkipList.thy ===== *)
theory FC_SkipList
  imports FC_Slots Skip_Chain
begin

text \<open>
  The flat-combining skip list (\<open>SW/HOST/app/multithread_fc_skiplist/FCSkipList.hh\<close>) and its
  partitioned version (\<open>FCPartSkipList.hh\<close>).

  The heads of the two sentinels are \<open>INT_MIN\<close> and \<open>INT_MAX\<close> converted to \<open>ulong_t\<close>. The
  descent never reads the key of the head, so its value does not matter. Links of a new node are
  uninitialised until written: \<open>nexts\<close> is a partial map, and reading an uninitialised link has no
  outcome. \<open>rand()\<close> is a sequence of numbers below \<open>2 ^ 31\<close>.
\<close>

definition SK_ADD_OP :: u32 where "SK_ADD_OP = 1"
definition SK_CONTAINS_OP :: u32 where "SK_CONTAINS_OP = 2"
definition SK_REMOVE_OP :: u32 where "SK_REMOVE_OP = 3"
definition FCSK_UNUSED_SLOT_THRESHOLD :: int where "FCSK_UNUSED_SLOT_THRESHOLD = 10"
definition MAX_LEVEL :: nat where "MAX_LEVEL = 14"
definition INT_MAX :: u32 where "INT_MAX = 0x7FFFFFFF"
definition INT_MIN :: u32 where "INT_MIN = 0x80000000"

record snode =
  skey :: u32
  top_level :: nat
  nexts :: "nat \<rightharpoonup> ptr"

record skip_data =
  s_head_node :: ptr
  max_level :: nat
  ubound :: u32
  lbound :: u32
  s_heap :: "snode heap"
  rand_seq :: "nat \<Rightarrow> u32"
  rand_pos :: nat

text \<open>The loop that picks the smallest \<open>i\<close> with \<open>size < 1 << i\<close>.\<close>

definition level_for :: "int \<Rightarrow> nat option" where
  "level_for sz = List.find (\<lambda>i. sz < 2 ^ i) [1..<MAX_LEVEL]"

text \<open>
  The constructors: the one without arguments takes the bounds from \<open>KEY_LOWER_BOUND\<close> and \<open>KEY_UPPER_BOUND\<close>,
  which the build generates; the one with bounds exits on bad ones (\<^const>\<open>None\<close>) and then does the same.
  \<open>size\<close> is an \<open>int\<close>, so a range of \<open>2 ^ 31\<close> keys or more is negative.
\<close>

definition skip_default :: "u32 \<Rightarrow> u32 \<Rightarrow> (nat \<Rightarrow> u32) \<Rightarrow> skip_data" where
  "skip_default l u rs =
     (let (tn, h1) = h_new \<lparr>skey = INT_MAX, top_level = MAX_LEVEL, nexts = (\<lambda>i. if i < MAX_LEVEL then Some 0 else None)\<rparr> h_empty;
          (hn, h2) = h_new \<lparr>skey = INT_MIN, top_level = MAX_LEVEL, nexts = (\<lambda>i. if i < MAX_LEVEL then Some tn else None)\<rparr> h1
      in \<lparr>s_head_node = hn, max_level = (case level_for (sint (u - l + 1)) of Some i \<Rightarrow> i | None \<Rightarrow> MAX_LEVEL),
          ubound = u, lbound = l, s_heap = h2, rand_seq = rs, rand_pos = 0\<rparr>)"

definition skip_new :: "u32 \<Rightarrow> u32 \<Rightarrow> (nat \<Rightarrow> u32) \<Rightarrow> skip_data option" where
  "skip_new l u rs = (if u < l then None else Some (skip_default l u rs))"

definition SkipList :: "u32 \<Rightarrow> skip_data \<Rightarrow> skip_data fc_object" where
  "SkipList ts d = \<lparr>slots = (\<lambda>_. SlotInfo), operation_timestamp = ts, data = d, tail_slot = 0, combine_cas = 0\<rparr>"

definition set_max_level :: "u32 \<Rightarrow> skip_data \<Rightarrow> skip_data" where
  "set_max_level initsize d =
     (case level_for (uint initsize) of Some i \<Rightarrow> d\<lparr>max_level := i\<rparr> | None \<Rightarrow> d)"

definition in_bounds :: "u32 \<Rightarrow> skip_data \<Rightarrow> bool" where
  "in_bounds k d \<longleftrightarrow> lbound d \<le> k \<and> k \<le> ubound d"

definition sk_next :: "snode heap \<Rightarrow> nat \<Rightarrow> ptr \<Rightarrow> ptr option" where
  "sk_next h l a = do { n \<leftarrow> h_get h a; nexts n l }"

definition sk_rd :: "snode heap \<Rightarrow> nat \<Rightarrow> ptr \<Rightarrow> (u32 \<times> ptr) option" where
  "sk_rd h l a = do { n \<leftarrow> h_get h a; m \<leftarrow> nexts n l; Some (skey n, m) }"

definition sk_set_next :: "nat \<Rightarrow> ptr \<Rightarrow> ptr \<Rightarrow> snode heap \<Rightarrow> snode heap option" where
  "sk_set_next l a v h =
     do { n \<leftarrow> h_get h a;
          if l < MAX_LEVEL then h_set a (n\<lparr>nexts := (nexts n)(l \<mapsto> v)\<rparr>) h else None }"

text \<open>The body of \<open>flat_combine\<close>: descend, then look, link a new node, or unlink the one found.\<close>

definition skip_find :: "u32 \<Rightarrow> u32 \<Rightarrow> skip_data \<Rightarrow> (ptr \<times> (nat \<rightharpoonup> ptr) \<times> (nat \<rightharpoonup> ptr)) option" where
  "skip_find op p d =
     find_nodes (sk_rd (s_heap d)) p (op = SK_CONTAINS_OP) (max_level d) (s_head_node d) 0 Map.empty Map.empty"

definition skip_add :: "u32 \<Rightarrow> (nat \<rightharpoonup> ptr) \<Rightarrow> (nat \<rightharpoonup> ptr) \<Rightarrow> skip_data \<Rightarrow> skip_data option" where
  "skip_add p preds succs d =
     (let top = randomLevel (max_level d) (rand_seq d (rand_pos d));
          (new, h1) = h_new \<lparr>skey = p, top_level = top, nexts = Map.empty\<rparr> (s_heap d)
      in map_option (\<lambda>h. d\<lparr>s_heap := h, rand_pos := rand_pos d + 1\<rparr>)
           (link_levels sk_set_next [0..<top] new preds succs h1))"

definition skip_remove_node :: "ptr \<Rightarrow> (nat \<rightharpoonup> ptr) \<Rightarrow> skip_data \<Rightarrow> skip_data option" where
  "skip_remove_node found preds d =
     do { n \<leftarrow> h_get (s_heap d) found;
          h1 \<leftarrow> unlink_levels sk_next sk_set_next [0..<top_level n] found preds (s_heap d);
          h2 \<leftarrow> h_delete found h1;
          Some (d\<lparr>s_heap := h2\<rparr>) }"

definition skip_exec :: "skip_data exec_body" where
  "skip_exec d op p =
     do { (found, preds, succs) \<leftarrow> skip_find op p d;
          if op = SK_CONTAINS_OP then Some (d, if found \<noteq> 0 then 1 else 0)
          else if op = SK_ADD_OP then
            (if found = 0 then map_option (\<lambda>d'. (d', 1)) (skip_add p preds succs d) else Some (d, 0))
          else
            (if found \<noteq> 0 then map_option (\<lambda>d'. (d', 1)) (skip_remove_node found preds d) else Some (d, 0)) }"

definition SkipList_flat_combine :: "skip_data fc_object \<Rightarrow> skip_data fc_object option" where
  "SkipList_flat_combine = flat_combine FCSK_UNUSED_SLOT_THRESHOLD skip_exec"

definition SkipList_fc_operation :: "u32 \<Rightarrow> u32 \<Rightarrow> ptr \<Rightarrow> skip_data fc_object \<Rightarrow> (skip_data fc_object \<times> u32) option" where
  "SkipList_fc_operation = fc_operation FCSK_UNUSED_SLOT_THRESHOLD skip_exec"

text \<open>The destructor follows the links of level 0.\<close>

partial_function (option) skip_free :: "ptr \<Rightarrow> snode heap \<Rightarrow> snode heap option" where
  "skip_free cur h =
     (if cur = 0 then Some h
      else do { n \<leftarrow> sk_next h 0 cur; h' \<leftarrow> h_delete cur h; skip_free n h' })"

definition SkipList_destroy :: "skip_data \<Rightarrow> snode heap option" where
  "SkipList_destroy d = skip_free (s_head_node d) (s_heap d)"

text \<open>\<open>print\<close>: the keys of one level, without the sentinels, and of all levels from the top.\<close>

partial_function (option) print_level :: "nat \<Rightarrow> ptr \<Rightarrow> snode heap \<Rightarrow> u32 list option" where
  "print_level l cur h =
     do { (k, n) \<leftarrow> sk_rd h l cur;
          if n = 0 then Some []
          else do { ks \<leftarrow> print_level l n h; Some (k # ks) } }"

fun print_levels :: "nat \<Rightarrow> skip_data \<Rightarrow> (nat \<times> u32 list) list option" where
  "print_levels 0 d = Some []"
| "print_levels (Suc l) d =
     do { c \<leftarrow> sk_next (s_heap d) l (s_head_node d);
          ks \<leftarrow> print_level l c (s_heap d);
          rest \<leftarrow> print_levels l d;
          Some ((l, ks) # rest) }"

definition SkipList_print :: "skip_data \<Rightarrow> (nat \<times> u32 list) list option" where
  "SkipList_print d = print_levels (max_level d) d"

subsection \<open>The set of keys\<close>

definition sk_ky :: "snode heap \<Rightarrow> ptr \<Rightarrow> ptr \<Rightarrow> u32" where
  "sk_ky h hn a = (if a = hn then 0 else case cells h a of Some n \<Rightarrow> skey n | None \<Rightarrow> 0)"

definition sk_lv :: "snode heap \<Rightarrow> ptr \<Rightarrow> nat" where
  "sk_lv h a = (case cells h a of Some n \<Rightarrow> top_level n | None \<Rightarrow> 0)"

definition sk_nx :: "snode heap \<Rightarrow> nat \<Rightarrow> ptr \<Rightarrow> ptr" where
  "sk_nx h l a = (case sk_next h l a of Some m \<Rightarrow> m | None \<Rightarrow> 0)"

definition sk_repr :: "snode heap \<Rightarrow> ptr \<Rightarrow> nat \<Rightarrow> ptr list \<Rightarrow> bool" where
  "sk_repr h hn ml as \<longleftrightarrow> heap_ok h \<and> skip_ok (sk_nx h) (sk_ky h hn) (sk_lv h) hn ml as \<and> set as \<subseteq> dom (cells h) \<and>
     (\<forall>a \<in> set as. \<forall>l. l < ml \<longrightarrow> l < sk_lv h a \<longrightarrow> sk_next h l a \<noteq> None) \<and> sk_ky h hn (last as) = INT_MAX \<and>
     (\<forall>a \<in> set as. a \<noteq> hn \<longrightarrow> a \<noteq> last as \<longrightarrow> sk_lv h a \<le> ml)"

definition sk_nodes :: "skip_data \<Rightarrow> ptr list" where
  "sk_nodes d = walk (brk (s_heap d)) (sk_nx (s_heap d) 0) (s_head_node d)"

definition sk_inv :: "skip_data \<Rightarrow> bool" where
  "sk_inv d \<longleftrightarrow> 2 \<le> max_level d \<and> max_level d \<le> MAX_LEVEL \<and> sk_repr (s_heap d) (s_head_node d) (max_level d) (sk_nodes d)"

definition sk_abs :: "skip_data \<Rightarrow> u32 set" where
  "sk_abs d = keys_between 0 INT_MAX (sk_ky (s_heap d) (s_head_node d)) (sk_nodes d)"

definition sk_op_of :: "u32 \<Rightarrow> set_op" where
  "sk_op_of op = (if op = SK_CONTAINS_OP then Contains else if op = SK_ADD_OP then Add else Remove)"

definition skip_spec :: "u32 set seq_spec" where
  "skip_spec A op p = set_step A (sk_op_of op) p"

definition skip_pre :: "u32 set \<Rightarrow> u32 \<Rightarrow> u32 \<Rightarrow> bool" where
  "skip_pre A op p \<longleftrightarrow> 0 < p \<and> p < INT_MAX"

definition sk_same :: "snode heap \<Rightarrow> snode heap \<Rightarrow> bool" where
  "sk_same h h' \<longleftrightarrow> brk h' = brk h \<and>
     (\<forall>a. map_option (\<lambda>n. (skey n, top_level n)) (cells h' a) = map_option (\<lambda>n. (skey n, top_level n)) (cells h a))"

interpretation heap_links: link_memory sk_next sk_set_next "\<lambda>h a. cells h a \<noteq> None" sk_same MAX_LEVEL "\<lambda>_ _. True"
proof
  fix m :: "snode heap" and a v l
  assume "cells m a \<noteq> None" and l: "l < MAX_LEVEL"
  then obtain n where n: "cells m a = Some n" by blast
  let ?m = "m\<lparr>cells := (cells m)(a \<mapsto> n\<lparr>nexts := (nexts n)(l \<mapsto> v)\<rparr>)\<rparr>"
  have "sk_set_next l a v m = Some ?m" using n l by (simp add: sk_set_next_def h_get_def h_set_def)
  moreover have "sk_same m ?m" using n by (simp add: sk_same_def)
  moreover have "\<forall>k b. sk_next ?m k b = (if k = l \<and> b = a then Some v else sk_next m k b)"
    using n by (simp add: sk_next_def h_get_def)
  ultimately show "\<exists>m'. sk_set_next l a v m = Some m' \<and> sk_same m m' \<and>
      (\<forall>k b. True \<longrightarrow> sk_next m' k b = (if k = l \<and> b = a then Some v else sk_next m k b))" by blast
next
  show "sk_same m m" for m by (simp add: sk_same_def)
  show "sk_same m1 m3" if "sk_same m1 m2" "sk_same m2 m3" for m1 m2 m3 using that by (simp add: sk_same_def)
  show "cells m2 a \<noteq> None \<longleftrightarrow> cells m1 a \<noteq> None" if "sk_same m1 m2" for m1 m2 a
  proof -
    have "map_option (\<lambda>n. (skey n, top_level n)) (cells m2 a) = map_option (\<lambda>n. (skey n, top_level n)) (cells m1 a)"
      using that by (simp add: sk_same_def)
    then show ?thesis by (cases "cells m1 a"; cases "cells m2 a") auto
  qed
qed

lemmas heap_link_levels = heap_links.link_levels_links [unfolded simp_thms]
lemmas heap_unlink_levels = heap_links.unlink_levels_links [unfolded simp_thms]

lemma sk_sameD:
  assumes "sk_same h h'"
  shows "brk h' = brk h" "cells h' a = None \<longleftrightarrow> cells h a = None" "sk_ky h' hn a = sk_ky h hn a" "sk_lv h' a = sk_lv h a"
proof -
  have e: "map_option (\<lambda>n. (skey n, top_level n)) (cells h' a) = map_option (\<lambda>n. (skey n, top_level n)) (cells h a)"
    using assms by (simp add: sk_same_def)
  show "brk h' = brk h" using assms by (simp add: sk_same_def)
  show "cells h' a = None \<longleftrightarrow> cells h a = None" using e by (cases "cells h a"; cases "cells h' a") auto
  show "sk_ky h' hn a = sk_ky h hn a" "sk_lv h' a = sk_lv h a"
    using e by (cases "cells h a"; cases "cells h' a"; auto simp: sk_ky_def sk_lv_def)+
qed

lemma sk_same_dom: "sk_same h h' \<Longrightarrow> dom (cells h') = dom (cells h)"
  using sk_sameD(2) by (auto simp: dom_def)

lemma sk_same_heap_ok: "sk_same h h' \<Longrightarrow> heap_ok h' \<longleftrightarrow> heap_ok h"
  using sk_same_dom sk_sameD(1) by (auto simp: heap_ok_def)

lemma level_zero: "skip_ok nx ky lv hn ml as \<Longrightarrow> at_level lv 0 as = as"
  using skip_okD(6) by (fastforce simp: at_level_def filter_id_conv)

lemma sk_nodes_eq:
  assumes "sk_repr h hn ml as"
  shows "walk (brk h) (sk_nx h 0) hn = as"
proof -
  have ok: "skip_ok (sk_nx h) (sk_ky h hn) (sk_lv h) hn ml as" and hp: "heap_ok h" "set as \<subseteq> dom (cells h)"
    using assms by (auto simp: sk_repr_def)
  have sc: "sorted_chain (sk_nx h 0) (sk_ky h hn) hn as" using skip_okD(8) [OF ok skip_okD(3) [OF ok]] level_zero [OF ok] by simp
  then have "length as \<le> brk h" using heap_ok_length [OF hp] sorted_chain_distinct by blast
  then show ?thesis using sc by (intro walk_lpath) (auto simp: sorted_chain_def)
qed

lemma sk_reads: "sk_repr h hn ml as \<Longrightarrow> reads (sk_rd h) (sk_nx h) (sk_ky h hn) (sk_lv h) hn ml as"
  unfolding reads_def
proof (intro ballI allI impI)
  fix a l
  assume R: "sk_repr h hn ml as" and a: "a \<in> set as" "l < ml" "l < sk_lv h a"
  then have "sk_next h l a \<noteq> None" by (simp add: sk_repr_def)
  then obtain m where m: "sk_next h l a = Some m" by blast
  then obtain n where n: "cells h a = Some n" "nexts n l = Some m"
    unfolding sk_next_def h_get_def by (cases "cells h a") auto
  then have "sk_rd h l a = Some (skey n, sk_nx h l a)" using m by (simp add: sk_rd_def sk_nx_def h_get_def)
  then show "\<exists>k. sk_rd h l a = Some (k, sk_nx h l a) \<and> (a \<noteq> hn \<longrightarrow> k = sk_ky h hn a)" using n by (simp add: sk_ky_def)
qed

subsection \<open>The operations\<close>

lemma sk_reprD:
  assumes "sk_repr h hn ml as"
  shows "heap_ok h" "skip_ok (sk_nx h) (sk_ky h hn) (sk_lv h) hn ml as" "set as \<subseteq> dom (cells h)"
    "a \<in> set as \<Longrightarrow> l < ml \<Longrightarrow> l < sk_lv h a \<Longrightarrow> sk_next h l a = Some (sk_nx h l a)" "sk_ky h hn (last as) = INT_MAX"
    "a \<in> set as \<Longrightarrow> a \<noteq> hn \<Longrightarrow> a \<noteq> last as \<Longrightarrow> sk_lv h a \<le> ml" "0 \<notin> set as" "sk_ky h hn hn = 0"
    "a \<in> set as \<Longrightarrow> cells h a \<noteq> None"
  using assms by (auto simp: sk_repr_def sk_nx_def sk_ky_def heap_ok_def split: option.splits)

lemma skip_find_correct:
  assumes R: "sk_repr (s_heap d) (s_head_node d) (max_level d) as" and p: "0 < p" "p < INT_MAX"
  shows "\<exists>r. skip_find op p d = Some r \<and>
    descended (sk_ky (s_heap d) (s_head_node d)) (sk_lv (s_heap d)) as p (op = SK_CONTAINS_OP) (max_level d) 0 Map.empty Map.empty r"
  unfolding skip_find_def
proof (rule find_nodes_descends [OF sk_reprD(2) [OF R] sk_reads [OF R] sk_reprD(7) [OF R]])
  show "p \<le> sk_ky (s_heap d) (s_head_node d) (last as)" using p sk_reprD(5) [OF R] by simp
qed (use p sk_reprD(8) [OF R] skip_okD [OF sk_reprD(2) [OF R]] in auto)

text \<open>A node linked at the levels below its height.\<close>

lemma sk_insert:
  assumes R: "sk_repr h hn ml as" and k: "0 < k" "k \<le> ml" "ml \<le> MAX_LEVEL" and p: "0 < p" "p < INT_MAX"
    and new: "\<forall>b \<in> set as. sk_ky h hn b \<noteq> p"
    and ps: "\<And>l. l < ml \<Longrightarrow> preds l = Some (pred_at (sk_ky h hn) (sk_lv h) as p l)"
      "\<And>l. l < ml \<Longrightarrow> succs l = Some (succ_at (sk_ky h hn) (sk_lv h) as p l)"
  defines "h1 \<equiv> snd (h_new \<lparr>skey = p, top_level = k, nexts = Map.empty\<rparr> h)"
  shows "\<exists>h2. link_levels sk_set_next [0..<k] (brk h) preds succs h1 = Some h2 \<and>
    sk_repr h2 hn ml (before (sk_ky h hn) p as @ brk h # from_on (sk_ky h hn) p as) \<and>
    (\<forall>b \<in> set as. sk_ky h2 hn b = sk_ky h hn b) \<and> sk_ky h2 hn (brk h) = p"
proof -
  note ok = sk_reprD(2) [OF R]
  let ?P = "pred_at (sk_ky h hn) (sk_lv h) as p" and ?S = "succ_at (sk_ky h hn) (sk_lv h) as p"
  let ?as = "before (sk_ky h hn) p as @ brk h # from_on (sk_ky h hn) p as"
  have khn: "sk_ky h hn hn < p" and kl: "p < sk_ky h hn (last as)" using p sk_reprD(5,8) [OF R] by simp_all
  have fresh: "brk h \<notin> set as" "brk h \<noteq> 0"
    using sk_reprD(9) [OF R, of "brk h"] heap_ok_brk [OF sk_reprD(1) [OF R]] heap_ok_brk_pos [OF sk_reprD(1) [OF R]] by auto
  have c1: "cells h1 = (cells h)(brk h \<mapsto> \<lparr>skey = p, top_level = k, nexts = Map.empty\<rparr>)" by (simp add: h1_def h_new_def)
  have P: "?P l \<in> set as" if "l < k" for l using pred_at_props(2) [OF ok _ khn] that k(2) by simp
  have "\<exists>h2. link_levels sk_set_next [0..<k] (brk h) preds succs h1 = Some h2 \<and> sk_same h1 h2 \<and>
    (\<forall>l b. sk_next h2 l b = (if l \<in> set [0..<k] \<and> b = brk h then Some (?S l) else if l \<in> set [0..<k] \<and> b = ?P l then Some (brk h) else sk_next h1 l b))"
  proof (rule heap_link_levels)
    show "cells h1 (brk h) \<noteq> None" by (simp add: c1)
    show "l < MAX_LEVEL \<and> succs l = Some (?S l) \<and> preds l = Some (?P l) \<and> cells h1 (?P l) \<noteq> None \<and> ?P l \<noteq> brk h"
      if "l \<in> set [0..<k]" for l
      using that k ps P [of l] fresh(1) sk_reprD(9) [OF R, of "?P l"] by (auto simp: c1)
  qed simp
  then obtain h2 where e: "link_levels sk_set_next [0..<k] (brk h) preds succs h1 = Some h2" and s: "sk_same h1 h2"
    and nx: "\<And>l b. sk_next h2 l b = (if l < k \<and> b = brk h then Some (?S l) else if l < k \<and> b = ?P l then Some (brk h) else sk_next h1 l b)"
    by auto
  have n1: "sk_next h1 l b = sk_next h l b" if "b \<in> set as" for l b using that fresh(1) by (auto simp: sk_next_def h_get_def c1)
  have hne: "hn \<noteq> brk h" using skip_okD(9) [OF ok] fresh(1) by auto
  have ky: "sk_ky h2 hn b = sk_ky h hn b" "sk_lv h2 b = sk_lv h b" if "b \<in> set as" for b
    unfolding sk_sameD(3,4) [OF s] using that fresh(1) by (auto simp: sk_ky_def sk_lv_def c1)
  have kyn: "sk_ky h2 hn (brk h) = p" "sk_lv h2 (brk h) = k"
    unfolding sk_sameD(3,4) [OF s] using hne by (auto simp: sk_ky_def sk_lv_def c1)
  have sub: "set ?as = insert (brk h) (set as)" using sorted_split [OF skip_okD(7) [OF ok], of p]
    by (metis Un_insert_right list.simps(15) set_append)
  have in_as: "a \<in> set as" if "a \<noteq> brk h" "a \<in> set ?as" for a using that by (auto simp: before_def from_on_def)
  have "skip_ok (sk_nx h2) (sk_ky h2 hn) (sk_lv h2) hn ml ?as"
  proof (rule skip_insert [OF ok k(1,2) khn kl new fresh(2,1) kyn ky])
    show "sk_nx h2 l (brk h) = ?S l" "sk_nx h2 l (?P l) = brk h" if "l < k" for l
      using that nx [of l] P [of l] fresh(1) by (auto simp: sk_nx_def)
    show "sk_nx h2 l b = sk_nx h l b" if "b \<in> set as" "\<not> (l < k \<and> b = ?P l)" for l b
      using that nx [of l b] n1 fresh(1) by (auto simp: sk_nx_def)
  qed
  moreover have "heap_ok h1" using sk_reprD(1) [OF R] by (auto simp: heap_ok_def h1_def h_new_def less_Suc_eq)
  then have "heap_ok h2" by (simp add: sk_same_heap_ok [OF s])
  moreover have "set ?as \<subseteq> dom (cells h2)" unfolding sub sk_same_dom [OF s] c1 using sk_reprD(3) [OF R] by auto
  moreover have "sk_next h2 l a \<noteq> None" if "a \<in> set ?as" "l < ml" "l < sk_lv h2 a" for a l
  proof (cases "a = brk h")
    case True
    then show ?thesis using that kyn(2) nx [of l a] by simp
  next
    case False
    then have "a \<in> set as" using that(1) by (intro in_as)
    then show ?thesis using that nx [of l a] n1 ky(2) sk_reprD(4) [OF R, of a l] False by auto
  qed
  moreover have lst: "last ?as = last as"
    using succ_at_props(1) [OF ok skip_okD(3) [OF ok]] sorted_split [OF skip_okD(7) [OF ok], of p] kl
    by (metis at_level_def filter.simps(1) last.simps last_appendR list.distinct(1) order_less_imp_le)
  moreover have "sk_lv h2 a \<le> ml" if "a \<in> set ?as" "a \<noteq> hn" "a \<noteq> last ?as" for a
    using that sk_reprD(6) [OF R, of a] kyn(2) k(2) ky(2) [of a] in_as [of a] lst by (cases "a = brk h") auto
  ultimately have "sk_repr h2 hn ml ?as" using ky(1) [OF skip_okD(10) [OF ok]] sk_reprD(5) [OF R] unfolding sk_repr_def by auto
  then show ?thesis using e ky(1) kyn(1) by blast
qed

text \<open>The node found is unlinked at all its levels and freed.\<close>

lemma sk_remove:
  assumes R: "sk_repr h hn ml as" and ml: "ml \<le> MAX_LEVEL" and p: "0 < p" "p < INT_MAX"
    and c: "c \<in> set as" "sk_ky h hn c = p"
    and ps: "\<And>l. l < ml \<Longrightarrow> preds l = Some (pred_at (sk_ky h hn) (sk_lv h) as p l)"
  shows "\<exists>h2 ds. from_on (sk_ky h hn) p as = c # ds \<and>
    unlink_levels sk_next sk_set_next [0..<sk_lv h c] c preds h = Some h2 \<and>
    sk_repr (h2\<lparr>cells := (cells h2)(c := None)\<rparr>) hn ml (before (sk_ky h hn) p as @ ds) \<and> cells h2 c \<noteq> None \<and>
    (\<forall>b \<in> set (before (sk_ky h hn) p as @ ds). sk_ky (h2\<lparr>cells := (cells h2)(c := None)\<rparr>) hn b = sk_ky h hn b)"
proof -
  note ok = sk_reprD(2) [OF R]
  let ?P = "pred_at (sk_ky h hn) (sk_lv h) as p" and ?us = "before (sk_ky h hn) p as"
  have khn: "sk_ky h hn hn < p" and kl: "p < sk_ky h hn (last as)" using p sk_reprD(5,8) [OF R] by simp_all
  obtain ds where ds: "from_on (sk_ky h hn) p as = c # ds" using from_on_Cons [OF ok c] by blast
  have ne: "c \<noteq> hn" "c \<noteq> last as" using khn kl c(2) by auto
  have lvc: "sk_lv h c \<le> ml" using sk_reprD(6) [OF R c(1) ne] .
  have P: "?P l \<in> set as" "?P l \<noteq> c" if "l < ml" for l
    using pred_at_props(2,4) [OF ok that khn] c(2) by auto
  have "\<exists>h2. unlink_levels sk_next sk_set_next [0..<sk_lv h c] c preds h = Some h2 \<and> sk_same h h2 \<and>
    (\<forall>l b. sk_next h2 l b = (if l \<in> set [0..<sk_lv h c] \<and> b = ?P l then Some (sk_nx h l c) else sk_next h l b))"
  proof (rule heap_unlink_levels)
    show "l < MAX_LEVEL \<and> sk_next h l c = Some (sk_nx h l c) \<and> preds l = Some (?P l) \<and> cells h (?P l) \<noteq> None \<and> ?P l \<noteq> c"
      if "l \<in> set [0..<sk_lv h c]" for l
      using that lvc ml ps P [of l] sk_reprD(4) [OF R c(1), of l] sk_reprD(9) [OF R, of "?P l"] by auto
  qed simp
  then obtain h2 where e: "unlink_levels sk_next sk_set_next [0..<sk_lv h c] c preds h = Some h2" and s: "sk_same h h2"
    and nx: "\<And>l b. sk_next h2 l b = (if l < sk_lv h c \<and> b = ?P l then Some (sk_nx h l c) else sk_next h l b)" by auto
  let ?h = "h2\<lparr>cells := (cells h2)(c := None)\<rparr>"
  have ky: "sk_ky ?h hn b = sk_ky h hn b" "sk_lv ?h b = sk_lv h b" "sk_next ?h l b = sk_next h2 l b" if "b \<noteq> c" for b l
    using that sk_sameD(3) [OF s, of hn b] sk_sameD(4) [OF s, of b] by (auto simp: sk_ky_def sk_lv_def sk_next_def h_get_def)
  have in_as: "b \<in> set as" "b \<noteq> c" if "b \<in> set (?us @ ds)" for b
  proof -
    have "b \<in> set (?us @ c # ds)" using that by auto
    then show "b \<in> set as" unfolding ds [symmetric] by (auto simp: before_def from_on_def)
    have "sorted_keys (sk_ky h hn) (?us @ c # ds)" using skip_okD(7) [OF ok] sorted_split [OF skip_okD(7) [OF ok], of p] ds by simp
    then show "b \<noteq> c" using that by (auto simp: path_simps)
  qed
  have "skip_ok (sk_nx ?h) (sk_ky ?h hn) (sk_lv ?h) hn ml (?us @ ds)"
  proof (rule skip_remove [OF ok khn kl ds c(2) ky(1,2)])
    show "sk_nx ?h l (?P l) = sk_nx h l c" if "l < ml" "l < sk_lv h c" for l
      using that nx [of l "?P l"] ky(3) P [of l] by (simp add: sk_nx_def)
    show "sk_nx ?h l b = sk_nx h l b" if "b \<noteq> c" "\<not> (l < sk_lv h c \<and> b = ?P l)" for l b
      using that nx [of l b] ky(3) [of b l] by (auto simp: sk_nx_def)
  qed
  moreover have "heap_ok ?h" using sk_reprD(1) [OF R] sk_same_heap_ok [OF s] by (auto intro: heap_ok_del)
  moreover have "set (?us @ ds) \<subseteq> dom (cells ?h)" using in_as sk_reprD(3) [OF R] sk_same_dom [OF s] by fastforce
  moreover have "sk_next ?h l a \<noteq> None" if "a \<in> set (?us @ ds)" "l < ml" "l < sk_lv ?h a" for a l
    using sk_reprD(4) [OF R in_as(1) [OF that(1)] that(2)] ky [OF in_as(2) [OF that(1)]] that(3) nx [of l a] by auto
  moreover have lst: "last (?us @ ds) = last as"
  proof -
    have "last as = last (?us @ c # ds)" using sorted_split [OF skip_okD(7) [OF ok], of p] ds by simp
    then show ?thesis using ne(2) by (auto split: if_splits)
  qed
  moreover have "sk_lv ?h a \<le> ml" if "a \<in> set (?us @ ds)" "a \<noteq> hn" "a \<noteq> last (?us @ ds)" for a
    using sk_reprD(6) [OF R in_as(1) [OF that(1)]] ky(2) [OF in_as(2) [OF that(1)]] that lst by simp
  moreover have "sk_ky ?h hn (last as) = INT_MAX" using ky(1) [of "last as"] ne(2) sk_reprD(5) [OF R] by simp
  ultimately have "sk_repr ?h hn ml (?us @ ds)" unfolding sk_repr_def by simp
  moreover have "cells h2 c \<noteq> None" using sk_reprD(9) [OF R c(1)] sk_sameD(2) [OF s] by simp
  ultimately show ?thesis using e ds ky(1) in_as(2) by blast
qed

lemma sk_invI:
  assumes "sk_repr h hn ml as" and "s_heap d = h" "s_head_node d = hn" "max_level d = ml" and "2 \<le> ml" "ml \<le> MAX_LEVEL"
  shows "sk_inv d" and "sk_abs d = keys_between 0 INT_MAX (sk_ky h hn) as"
proof -
  have "sk_nodes d = as" using sk_nodes_eq [OF assms(1)] assms(2,3) by (simp add: sk_nodes_def)
  then show "sk_inv d" "sk_abs d = keys_between 0 INT_MAX (sk_ky h hn) as" using assms by (simp_all add: sk_inv_def sk_abs_def)
qed

lemma skip_add_correct:
  assumes i: "sk_inv d" and p: "0 < p" "p < INT_MAX"
    and new: "\<forall>b \<in> set (sk_nodes d). sk_ky (s_heap d) (s_head_node d) b \<noteq> p"
    and ps: "\<And>l. l < max_level d \<Longrightarrow> preds l = Some (pred_at (sk_ky (s_heap d) (s_head_node d)) (sk_lv (s_heap d)) (sk_nodes d) p l)"
      "\<And>l. l < max_level d \<Longrightarrow> succs l = Some (succ_at (sk_ky (s_heap d) (s_head_node d)) (sk_lv (s_heap d)) (sk_nodes d) p l)"
  shows "\<exists>d'. skip_add p preds succs d = Some d' \<and> sk_inv d' \<and> sk_abs d' = insert p (sk_abs d)"
proof -
  let ?h = "s_heap d" and ?hn = "s_head_node d" and ?ml = "max_level d"
  let ?k = "randomLevel ?ml (rand_seq d (rand_pos d))" and ?us = "before (sk_ky ?h ?hn) p (sk_nodes d)" and ?cs = "from_on (sk_ky ?h ?hn) p (sk_nodes d)"
  have R: "sk_repr ?h ?hn ?ml (sk_nodes d)" and ml: "2 \<le> ?ml" "?ml \<le> MAX_LEVEL" using i by (auto simp: sk_inv_def)
  have k: "0 < ?k" "?k \<le> ?ml" using randomLevel_bounds [OF ml(1), of "rand_seq d (rand_pos d)"] by auto
  obtain h2 where h2: "link_levels sk_set_next [0..<?k] (brk ?h) preds succs (snd (h_new \<lparr>skey = p, top_level = ?k, nexts = Map.empty\<rparr> ?h)) = Some h2"
      "sk_repr h2 ?hn ?ml (?us @ brk ?h # ?cs)" "\<forall>b \<in> set (sk_nodes d). sk_ky h2 ?hn b = sk_ky ?h ?hn b" "sk_ky h2 ?hn (brk ?h) = p"
    using sk_insert [OF R k ml(2) p new ps] by blast
  have sp: "sk_nodes d = ?us @ ?cs" by (rule sorted_split [OF skip_okD(7) [OF sk_reprD(2) [OF R]]])
  have "\<And>b. b \<in> set (?us @ ?cs) \<Longrightarrow> sk_ky h2 ?hn b = sk_ky ?h ?hn b" using h2(3) unfolding sp [symmetric] by simp
  then have "keys_between 0 INT_MAX (sk_ky h2 ?hn) (?us @ brk ?h # ?cs) = insert p (keys_between 0 INT_MAX (sk_ky ?h ?hn) (?us @ ?cs))"
    using keys_between_insert [of ?us ?cs "sk_ky h2 ?hn" "sk_ky ?h ?hn" 0 "brk ?h" INT_MAX] p h2(4) by simp
  then have K: "keys_between 0 INT_MAX (sk_ky h2 ?hn) (?us @ brk ?h # ?cs) = insert p (sk_abs d)" unfolding sp [symmetric] by (simp add: sk_abs_def)
  let ?d = "d\<lparr>s_heap := h2, rand_pos := rand_pos d + 1\<rparr>"
  have "skip_add p preds succs d = Some ?d" using h2(1) by (simp add: skip_add_def Let_def h_new_def)
  then show ?thesis using sk_invI [OF h2(2), of ?d] ml K by auto
qed

lemma skip_remove_correct:
  assumes i: "sk_inv d" and p: "0 < p" "p < INT_MAX"
    and c: "c \<in> set (sk_nodes d)" "sk_ky (s_heap d) (s_head_node d) c = p"
    and ps: "\<And>l. l < max_level d \<Longrightarrow> preds l = Some (pred_at (sk_ky (s_heap d) (s_head_node d)) (sk_lv (s_heap d)) (sk_nodes d) p l)"
  shows "\<exists>d'. skip_remove_node c preds d = Some d' \<and> sk_inv d' \<and> sk_abs d' = sk_abs d - {p}"
proof -
  let ?h = "s_heap d" and ?hn = "s_head_node d" and ?ml = "max_level d" let ?us = "before (sk_ky ?h ?hn) p (sk_nodes d)"
  have R: "sk_repr ?h ?hn ?ml (sk_nodes d)" and ml: "2 \<le> ?ml" "?ml \<le> MAX_LEVEL" using i by (auto simp: sk_inv_def)
  obtain h2 ds where h2: "from_on (sk_ky ?h ?hn) p (sk_nodes d) = c # ds"
      "unlink_levels sk_next sk_set_next [0..<sk_lv ?h c] c preds ?h = Some h2"
      "sk_repr (h2\<lparr>cells := (cells h2)(c := None)\<rparr>) ?hn ?ml (?us @ ds)" "cells h2 c \<noteq> None"
      "\<forall>b \<in> set (?us @ ds). sk_ky (h2\<lparr>cells := (cells h2)(c := None)\<rparr>) ?hn b = sk_ky ?h ?hn b"
    using sk_remove [OF R ml(2) p c ps] by blast
  let ?h2 = "h2\<lparr>cells := (cells h2)(c := None)\<rparr>"
  have sp: "sk_nodes d = ?us @ c # ds" using sorted_split [OF skip_okD(7) [OF sk_reprD(2) [OF R]], of p] h2(1) by simp
  have so: "sorted_keys (sk_ky ?h ?hn) (?us @ c # ds)" using skip_okD(7) [OF sk_reprD(2) [OF R]] unfolding sp [symmetric] .
  have "keys_between 0 INT_MAX (sk_ky ?h2 ?hn) (?us @ ds) = keys_between 0 INT_MAX (sk_ky ?h ?hn) (?us @ c # ds) - {sk_ky ?h ?hn c}"
    by (rule keys_between_remove [OF so]) (use h2(5) in blast)
  then have K: "keys_between 0 INT_MAX (sk_ky ?h2 ?hn) (?us @ ds) = sk_abs d - {p}" unfolding sp [symmetric] c(2) by (simp add: sk_abs_def)
  obtain n where n: "cells ?h c = Some n" using sk_reprD(9) [OF R c(1)] by blast
  have "skip_remove_node c preds d = Some (d\<lparr>s_heap := ?h2\<rparr>)"
    using h2(2,4) n by (auto simp: skip_remove_node_def h_get_def h_delete_def sk_lv_def)
  then show ?thesis using sk_invI [OF h2(3), of "d\<lparr>s_heap := ?h2\<rparr>"] ml K by auto
qed

interpretation fcsk: seq_object skip_exec sk_inv sk_abs skip_spec skip_pre
proof
  fix d op p
  assume i: "sk_inv d" and pre: "skip_pre (sk_abs d) op p"
  let ?ky = "sk_ky (s_heap d) (s_head_node d)" and ?lv = "sk_lv (s_heap d)"
  have R: "sk_repr (s_heap d) (s_head_node d) (max_level d) (sk_nodes d)" and ml: "0 < max_level d" using i by (auto simp: sk_inv_def)
  have p: "0 < p" "p < INT_MAX" using pre by (auto simp: skip_pre_def)
  obtain F P Q where f: "skip_find op p d = Some (F, P, Q)"
      "descended ?ky ?lv (sk_nodes d) p (op = SK_CONTAINS_OP) (max_level d) 0 Map.empty Map.empty (F, P, Q)"
    using skip_find_correct [OF R p, of op] by (metis prod_cases3)
  have mem: "F \<noteq> 0 \<longleftrightarrow> p \<in> sk_abs d" using f(2) ml p by (auto simp: descended_def sk_abs_def keys_between_def)
  have F: "F \<in> set (sk_nodes d)" "?ky F = p" if "F \<noteq> 0" using f(2) that by (auto simp: descended_def)
  have PQ: "P l = Some (pred_at ?ky ?lv (sk_nodes d) p l)" "Q l = Some (succ_at ?ky ?lv (sk_nodes d) p l)"
    if "op \<noteq> SK_CONTAINS_OP" "l < max_level d" for l using f(2) that by (auto simp: descended_def)
  consider "op = SK_CONTAINS_OP" | "op = SK_ADD_OP" "op \<noteq> SK_CONTAINS_OP" | "op \<noteq> SK_ADD_OP" "op \<noteq> SK_CONTAINS_OP" by blast
  then show "\<exists>d'. skip_exec d op p = Some (d', snd (skip_spec (sk_abs d) op p)) \<and> sk_abs d' = fst (skip_spec (sk_abs d) op p) \<and> sk_inv d'"
  proof cases
    case 1
    then show ?thesis using f(1) i mem by (simp add: skip_exec_def skip_spec_def sk_op_of_def)
  next
    case 2
    show ?thesis
    proof (cases "F = 0")
      case True
      then have "\<forall>b \<in> set (sk_nodes d). ?ky b \<noteq> p" using f(2) ml by (auto simp: descended_def)
      then obtain d' where "skip_add p P Q d = Some d'" "sk_inv d'" "sk_abs d' = insert p (sk_abs d)"
        using skip_add_correct [OF i p, of P Q] PQ 2(2) by blast
      then show ?thesis using 2 f(1) True mem by (simp add: skip_exec_def skip_spec_def sk_op_of_def)
    next
      case False
      then show ?thesis using 2 f(1) i mem by (simp add: skip_exec_def skip_spec_def sk_op_of_def insert_absorb)
    qed
  next
    case 3
    show ?thesis
    proof (cases "F = 0")
      case True
      then show ?thesis using 3 f(1) i mem by (simp add: skip_exec_def skip_spec_def sk_op_of_def)
    next
      case False
      then obtain d' where "skip_remove_node F P d = Some d'" "sk_inv d'" "sk_abs d' = sk_abs d - {p}"
        using skip_remove_correct [OF i p F, of P] PQ 3(2) by blast
      then show ?thesis using 3 f(1) False mem by (simp add: skip_exec_def skip_spec_def sk_op_of_def)
    qed
  qed
qed

subsection \<open>New skip lists\<close>

lemma level_for_bounds: "level_for sz = Some i \<Longrightarrow> 1 \<le> i \<and> i < MAX_LEVEL \<and> sz < 2 ^ i"
  by (auto simp: level_for_def find_Some_iff)

lemma level_for_two: "level_for sz = Some i \<Longrightarrow> 2 \<le> sz \<Longrightarrow> 2 \<le> i"
  using level_for_bounds [of sz i] by (cases "i = 1") auto

lemma skip_new_empty:
  assumes "skip_new l u rs = Some d"
  shows "s_head_node d = 2" "s_heap d = \<lparr>cells = [1 \<mapsto> \<lparr>skey = INT_MAX, top_level = MAX_LEVEL, nexts = (\<lambda>i. if i < MAX_LEVEL then Some 0 else None)\<rparr>,
      2 \<mapsto> \<lparr>skey = INT_MIN, top_level = MAX_LEVEL, nexts = (\<lambda>i. if i < MAX_LEVEL then Some (Suc 0) else None)\<rparr>], brk = 3\<rparr>"
    "l \<le> u" "lbound d = l" "ubound d = u"
    "max_level d = (case level_for (sint (u - l + 1)) of Some i \<Rightarrow> i | None \<Rightarrow> MAX_LEVEL)"
  using assms by (auto simp: skip_new_def skip_default_def h_new_def h_empty_def Let_def numeral_eq_Suc split: if_splits)

lemma empty_repr:
  assumes "skip_new l u rs = Some d" and "0 < ml" "ml \<le> MAX_LEVEL"
  shows "sk_repr (s_heap d) 2 ml [2, 1]"
proof -
  let ?h = "s_heap d"
  have nx: "sk_next ?h i 2 = Some 1" "sk_next ?h i 1 = Some 0" if "i < MAX_LEVEL" for i
    using that by (simp_all add: skip_new_empty(2) [OF assms(1)] sk_next_def h_get_def)
  have k: "sk_ky ?h 2 2 = 0" "sk_ky ?h 2 1 = INT_MAX" "sk_lv ?h 2 = MAX_LEVEL" "sk_lv ?h 1 = MAX_LEVEL"
    by (simp_all add: skip_new_empty(2) [OF assms(1)] sk_ky_def sk_lv_def)
  have dm: "dom (cells ?h) = {1, 2}" "brk ?h = 3" by (auto simp: skip_new_empty(2) [OF assms(1)])
  have "sorted_chain (sk_nx ?h i) (sk_ky ?h 2) 2 (at_level (sk_lv ?h) i [2, 1])" if "i < ml" for i
    using nx [of i] k that assms(3) by (simp add: sorted_chain_def path_simps sk_nx_def INT_MAX_def)
  then have "skip_ok (sk_nx ?h) (sk_ky ?h 2) (sk_lv ?h) 2 ml [2, 1]"
    using k assms(2,3) by (auto simp: skip_ok_def path_simps INT_MAX_def)
  moreover have "heap_ok ?h" using dm by (auto simp: heap_ok_def)
  moreover have "\<forall>a \<in> set [2, 1]. \<forall>i. i < ml \<longrightarrow> i < sk_lv ?h a \<longrightarrow> sk_next ?h i a \<noteq> None" using nx k assms(3) by simp
  ultimately show ?thesis using k dm by (auto simp: sk_repr_def)
qed

lemma skip_new_inv:
  assumes "skip_new l u rs = Some d" and "2 \<le> max_level d" "max_level d \<le> MAX_LEVEL"
  shows "sk_inv d" "sk_abs d = {}"
proof -
  have R: "sk_repr (s_heap d) 2 (max_level d) [2, 1]" using empty_repr [OF assms(1)] assms(2,3) by simp
  have "sk_ky (s_heap d) 2 2 = 0" "sk_ky (s_heap d) 2 1 = INT_MAX"
    by (simp_all add: skip_new_empty(2) [OF assms(1)] sk_ky_def)
  then show "sk_inv d" "sk_abs d = {}"
    using sk_invI [OF R refl skip_new_empty(1) [OF assms(1)] refl assms(2,3)] by (auto simp: keys_between_def)
qed

lemma new_max_level:
  assumes "skip_new l u rs = Some d" and "2 \<le> sint (u - l + 1)"
  shows "2 \<le> max_level d" "max_level d \<le> MAX_LEVEL"
  using skip_new_empty(6) [OF assms(1)] level_for_two [OF _ assms(2)] level_for_bounds [of "sint (u - l + 1)"]
  by (auto simp: MAX_LEVEL_def split: option.splits)

lemma SkipList_quiet: "fc_quiet S (SkipList ts d)"
  by (auto simp: SkipList_def fc_quiet_def linked_list_def SlotInfo_def intro!: exI [of _ "[]"])

lemma skip_pre_all: "run_pre skip_pre skip_spec A rs" if "\<forall>(op, p) \<in> set rs. 0 < p \<and> p < INT_MAX"
  using that by (induction rs arbitrary: A) (auto simp: skip_pre_def)

text \<open>
  C10. Calls of \<open>fc_operation\<close> one after the other on a new skip list, whose key range has at least two and
  fewer than \<open>2 ^ 31\<close> keys, behave as operations on a set of keys, for every sequence of random levels and
  all keys strictly between \<open>0\<close> and \<open>INT_MAX\<close>. Every call returns, and no invalid or uninitialised
  pointer is used.
\<close>

theorem SkipList_operations_set:
  assumes "skip_new l u rs = Some d" and "2 \<le> sint (u - l + 1)"
    and "\<forall>(slot, op, p) \<in> set cs. slot \<noteq> 0 \<and> 0 < p \<and> p < INT_MAX"
  shows "\<exists>s'. fc_run FCSK_UNUSED_SLOT_THRESHOLD skip_exec cs (SkipList ts d) = Some (s', snd (run_spec skip_spec {} (map snd cs))) \<and>
    sk_abs (data s') = fst (run_spec skip_spec {} (map snd cs)) \<and> sk_inv (data s')"
proof -
  have "sk_inv d" "sk_abs d = {}" using skip_new_inv [OF assms(1) new_max_level [OF assms(1,2)]] by auto
  then show ?thesis
    using fcsk.fc_run_steps [of UNIV "SkipList ts d" cs FCSK_UNUSED_SLOT_THRESHOLD] SkipList_quiet [of UNIV ts d] assms(3)
      skip_pre_all [of "map snd cs"] by (fastforce simp: SkipList_def)
qed

theorem SkipList_operations_set_witness:
  "\<exists>d s'. skip_new 1 100 (\<lambda>_. 6) = Some d \<and>
     fc_run FCSK_UNUSED_SLOT_THRESHOLD skip_exec
       [(4, SK_ADD_OP, 7), (5, SK_ADD_OP, 3), (4, SK_ADD_OP, 7), (4, SK_CONTAINS_OP, 3), (5, SK_REMOVE_OP, 3), (4, SK_CONTAINS_OP, 3)]
       (SkipList 0 d) = Some (s', [1, 1, 0, 1, 1, 0]) \<and> sk_abs (data s') = {7}"
proof -
  let ?cs = "[(4, SK_ADD_OP, 7), (5, SK_ADD_OP, 3), (4, SK_ADD_OP, 7), (4, SK_CONTAINS_OP, 3), (5, SK_REMOVE_OP, 3), (4, SK_CONTAINS_OP, 3)]
    :: (nat \<times> u32 \<times> u32) list"
  obtain d where d: "skip_new 1 100 (\<lambda>_. 6) = Some d" by (simp add: skip_new_def skip_default_def Let_def split_beta)
  have "sint (100 - 1 + 1 :: u32) = 100" by simp
  then show ?thesis using SkipList_operations_set [OF d, of ?cs 0] d
    by (auto simp: skip_spec_def sk_op_of_def SK_ADD_OP_def SK_CONTAINS_OP_def SK_REMOVE_OP_def INT_MAX_def)
qed

text \<open>
  The height of a new node is at least one and below the current number of levels, whatever
  \<open>rand()\<close> returns, when there are at least two levels.
\<close>

theorem randomLevel_in_range: "2 \<le> ml \<Longrightarrow> 0 < randomLevel ml r \<and> randomLevel ml r < ml"
  by (rule randomLevel_bounds)

theorem randomLevel_in_range_witness: "0 < randomLevel 2 6 \<and> randomLevel 2 6 < 2"
  using randomLevel_in_range [of 2 6] by simp

text \<open>
  With one level (a range of one key, or \<open>set_max_level\<close> with a size below two) an even random number
  gives height zero: \<open>ADD_OP\<close> reports success but links the node at no level, and the key is not found
  afterwards.
\<close>

theorem one_level_loses_key:
  assumes "skip_new l u rs = Some d" and "even (unat (rs 0))" and "0 < p" and "p < INT_MAX"
  shows "\<exists>d' r. skip_exec (set_max_level 1 d) SK_ADD_OP p = Some (d', 1) \<and> skip_exec d' SK_CONTAINS_OP p = Some (r, 0)"
proof -
  let ?d = "set_max_level 1 d"
  have lf: "level_for 1 = Some 1" by (simp add: level_for_def MAX_LEVEL_def upt_rec)
  then have sm: "?d = d\<lparr>max_level := 1\<rparr>" by (simp add: set_max_level_def)
  have hp: "s_heap ?d = s_heap d" "s_head_node ?d = 2" "max_level ?d = 1" "rand_seq ?d 0 = rs 0" "rand_pos ?d = 0"
    using assms(1) by (auto simp: sm skip_new_def skip_default_def h_new_def h_empty_def Let_def split: if_splits)
  have z: "randomLevel 1 (rs 0) = 0" using assms(2) by (simp add: randomLevel_def Let_def ones_loop.simps [of 0 2] mod_2_eq_odd)
  have rd: "sk_rd (s_heap d) 0 2 = Some (INT_MIN, 1)" "sk_rd (s_heap d) 0 1 = Some (INT_MAX, 0)"
    by (simp_all add: skip_new_empty(2) [OF assms(1)] sk_rd_def h_get_def MAX_LEVEL_def)
  have find: "\<exists>P Q. find_nodes (sk_rd h) p s 1 2 0 Map.empty Map.empty = Some (0, P, Q)"
    if "sk_rd h 0 2 = Some (INT_MIN, 1)" "sk_rd h 0 1 = Some (INT_MAX, 0)" for h s
  proof -
    have "advance (sk_rd h 0) p 2 1 = Some (2, 1)"
      using that(2) less_not_sym [OF assms(4)] by (subst advance.simps) simp
    then show ?thesis using that assms(4) by simp
  qed
  define h1 where "h1 = snd (h_new \<lparr>skey = p, top_level = 0, nexts = Map.empty\<rparr> (s_heap d))"
  have "sk_rd h1 0 2 = Some (INT_MIN, 1)" "sk_rd h1 0 1 = Some (INT_MAX, 0)"
    by (simp_all add: h1_def h_new_def skip_new_empty(2) [OF assms(1)] sk_rd_def h_get_def MAX_LEVEL_def)
  then have c: "skip_exec (?d\<lparr>s_heap := h1, rand_pos := 1\<rparr>) SK_CONTAINS_OP p = Some (?d\<lparr>s_heap := h1, rand_pos := 1\<rparr>, 0)"
    using find [of h1 True] hp by (auto simp: skip_exec_def skip_find_def sm simp del: find_nodes.simps)
  obtain P Q where f: "find_nodes (sk_rd (s_heap d)) p False 1 2 0 Map.empty Map.empty = Some (0, P, Q)" using find [OF rd] by blast
  have "skip_add p P Q ?d = Some (?d\<lparr>s_heap := h1, rand_pos := 1\<rparr>)"
    using z hp by (simp add: skip_add_def Let_def split_beta h1_def h_new_def)
  then have "skip_exec ?d SK_ADD_OP p = Some (?d\<lparr>s_heap := h1, rand_pos := 1\<rparr>, 1)"
    using f hp by (simp add: skip_exec_def skip_find_def SK_ADD_OP_def SK_CONTAINS_OP_def del: find_nodes.simps)
  then show ?thesis using c by blast
qed

theorem one_level_loses_key_witness:
  "\<exists>d d' r. skip_new 1 100 (\<lambda>_. 6) = Some d \<and> skip_exec (set_max_level 1 d) SK_ADD_OP 5 = Some (d', 1) \<and>
     skip_exec d' SK_CONTAINS_OP 5 = Some (r, 0)"
proof -
  obtain d where d: "skip_new 1 100 (\<lambda>_. 6) = Some d" by (simp add: skip_new_def skip_default_def Let_def split_beta)
  then show ?thesis using one_level_loses_key [OF d, of 5] by (auto simp: INT_MAX_def)
qed

end
