(* ===== verification/FC_PartSkipList.thy ===== *)
theory FC_PartSkipList
  imports FC_SkipList
begin

text \<open>
  The partitioned skip list (\<open>FCPartSkipList.hh\<close>): one flat-combining skip list per range of keys,
  and the choice of the partition in the benchmark (\<open>multithread_fc_skiplist/main.cc\<close>). Every
  partition has its own combiner and its own slots. Together the partitions are one set of keys.
\<close>

record part_list =
  min_key :: u32
  max_key :: u32
  num_partitions :: nat
  partition_size :: u32
  parts :: "skip_data fc_object list"

definition part_size :: "u32 \<Rightarrow> u32 \<Rightarrow> nat \<Rightarrow> u32" where
  "part_size mn mx n = (mx - mn + 1) div of_nat n"

text \<open>
  The constructor; \<open>ts\<close> and \<open>rs\<close> give each partition its indeterminate timestamp and its random numbers.
\<close>

definition PartSkipList :: "u32 \<Rightarrow> u32 \<Rightarrow> nat \<Rightarrow> (nat \<Rightarrow> u32) \<Rightarrow> (nat \<Rightarrow> nat \<Rightarrow> u32) \<Rightarrow> part_list option" where
  "PartSkipList mn mx n ts rs =
     (let sz = part_size mn mx n
      in map_option (\<lambda>ps. \<lparr>min_key = mn, max_key = mx, num_partitions = n, partition_size = sz, parts = ps\<rparr>)
           (those (map (\<lambda>i. map_option (SkipList (ts i))
              (skip_new (sz * of_nat i + mn) (sz * of_nat (i + 1) + mn - 1) (rs i))) [0..<n])))"

definition part_set_max_level :: "u32 \<Rightarrow> part_list \<Rightarrow> part_list" where
  "part_set_max_level initsize pl =
     pl\<lparr>parts := map (\<lambda>s. s\<lparr>data := set_max_level initsize (data s)\<rparr>) (parts pl)\<rparr>"

text \<open>\<open>parts[part_id]->fc_operation\<close>; an index outside the array has no outcome.\<close>

definition part_fc_operation :: "u32 \<Rightarrow> u32 \<Rightarrow> nat \<Rightarrow> ptr \<Rightarrow> part_list \<Rightarrow> (part_list \<times> u32) option" where
  "part_fc_operation op p part_id slot pl =
     (if part_id < length (parts pl) then
        map_option (\<lambda>(s, r). (pl\<lparr>parts := (parts pl)[part_id := s]\<rparr>, r)) (SkipList_fc_operation op p slot (parts pl ! part_id))
      else None)"

definition part_print :: "part_list \<Rightarrow> (nat \<times> u32 list) list list option" where
  "part_print pl = those (map (\<lambda>s. SkipList_print (data s)) (parts pl))"

text \<open>The benchmark's choice of the partition of a key.\<close>

definition part_id_of :: "u32 \<Rightarrow> u32 \<Rightarrow> u32 \<Rightarrow> nat" where
  "part_id_of lb sz k = unat ((k - lb) div sz)"

fun part_run :: "u32 \<Rightarrow> u32 \<Rightarrow> (ptr \<times> u32 \<times> u32) list \<Rightarrow> part_list \<Rightarrow> (part_list \<times> u32 list) option" where
  "part_run lb sz [] pl = Some (pl, [])"
| "part_run lb sz ((slot, op, p) # cs) pl =
     (case part_fc_operation op p (part_id_of lb sz p) slot pl of
        None \<Rightarrow> None
      | Some (pl1, r) \<Rightarrow> map_option (\<lambda>(pl2, rs). (pl2, r # rs)) (part_run lb sz cs pl1))"

subsection \<open>One set of keys\<close>

definition part_abs :: "part_list \<Rightarrow> u32 set" where
  "part_abs pl = (\<Union>s \<in> set (parts pl). sk_abs (data s))"

definition part_ok :: "u32 \<Rightarrow> u32 \<Rightarrow> part_list \<Rightarrow> bool" where
  "part_ok lb sz pl \<longleftrightarrow> (\<forall>i < length (parts pl). fc_quiet UNIV (parts pl ! i) \<and> sk_inv (data (parts pl ! i)) \<and>
     (\<forall>k \<in> sk_abs (data (parts pl ! i)). part_id_of lb sz k = i))"

lemma part_abs_iff: "k \<in> part_abs pl \<longleftrightarrow> (\<exists>j < length (parts pl). k \<in> sk_abs (data (parts pl ! j)))"
  unfolding part_abs_def UN_iff Bex_def in_set_conv_nth by blast

lemma part_okD:
  assumes "part_ok lb sz pl" "j < length (parts pl)"
  shows "fc_quiet UNIV (parts pl ! j)" "sk_inv (data (parts pl ! j))" "k \<in> sk_abs (data (parts pl ! j)) \<Longrightarrow> part_id_of lb sz k = j"
  using assms by (simp_all add: part_ok_def)

lemma part_mem:
  assumes "part_ok lb sz pl" and "i < length (parts pl)"
  shows "k \<in> sk_abs (data (parts pl ! i)) \<longleftrightarrow> k \<in> part_abs pl \<and> part_id_of lb sz k = i"
  using assms part_okD(3) unfolding part_abs_iff by blast

lemma part_abs_update:
  assumes ok: "part_ok lb sz pl" and i: "i < length (parts pl)"
  shows "part_abs (pl\<lparr>parts := (parts pl)[i := s]\<rparr>) = {k \<in> part_abs pl. part_id_of lb sz k \<noteq> i} \<union> sk_abs (data s)"
proof (rule set_eqI)
  fix k
  have "k \<in> part_abs (pl\<lparr>parts := (parts pl)[i := s]\<rparr>) \<longleftrightarrow>
      (\<exists>j < length (parts pl). if i = j then k \<in> sk_abs (data s) else k \<in> sk_abs (data (parts pl ! j)))"
    using i by (simp add: part_abs_iff nth_list_update if_distrib cong: if_cong)
  also have "\<dots> \<longleftrightarrow> (\<exists>j < length (parts pl). j \<noteq> i \<and> k \<in> sk_abs (data (parts pl ! j))) \<or> k \<in> sk_abs (data s)"
    using i by auto
  also have "(\<exists>j < length (parts pl). j \<noteq> i \<and> k \<in> sk_abs (data (parts pl ! j))) \<longleftrightarrow> k \<in> part_abs pl \<and> part_id_of lb sz k \<noteq> i"
    using part_okD(3) [OF ok] unfolding part_abs_iff by blast
  finally show "k \<in> part_abs (pl\<lparr>parts := (parts pl)[i := s]\<rparr>) \<longleftrightarrow> k \<in> {k \<in> part_abs pl. part_id_of lb sz k \<noteq> i} \<union> sk_abs (data s)"
    by simp
qed

lemma skip_spec_local:
  assumes "\<And>k. k \<in> B \<longleftrightarrow> k \<in> A \<and> Q k" and "Q p"
  shows "{k \<in> A. \<not> Q k} \<union> fst (skip_spec B op p) = fst (skip_spec A op p)" and "snd (skip_spec B op p) = snd (skip_spec A op p)"
  using assms by (cases "sk_op_of op"; auto simp: skip_spec_def)+

lemma skip_spec_keys: "k \<in> fst (skip_spec B op p) \<Longrightarrow> k \<in> B \<or> k = p"
  by (cases "sk_op_of op") (auto simp: skip_spec_def)

lemma part_step:
  assumes ok: "part_ok lb sz pl" and i: "part_id_of lb sz p < length (parts pl)" and p: "0 < p" "p < INT_MAX" and "slot \<noteq> 0"
  shows "\<exists>pl'. part_fc_operation op p (part_id_of lb sz p) slot pl = Some (pl', snd (skip_spec (part_abs pl) op p)) \<and>
    part_abs pl' = fst (skip_spec (part_abs pl) op p) \<and> part_ok lb sz pl' \<and> length (parts pl') = length (parts pl)"
proof -
  let ?i = "part_id_of lb sz p" let ?s = "parts pl ! ?i"
  note q = part_okD(1) [OF ok i] and inv = part_okD(2) [OF ok i]
  obtain s' where s': "SkipList_fc_operation op p slot ?s = Some (s', snd (skip_spec (sk_abs (data ?s)) op p))"
      "sk_abs (data s') = fst (skip_spec (sk_abs (data ?s)) op p)" "sk_inv (data s')" "fc_quiet UNIV s'"
    using fcsk.fc_operation_step [OF q inv, of op p slot FCSK_UNUSED_SLOT_THRESHOLD] p assms(5)
    by (auto simp: skip_pre_def SkipList_fc_operation_def)
  let ?pl = "pl\<lparr>parts := (parts pl)[?i := s']\<rparr>"
  have B: "k \<in> sk_abs (data ?s) \<longleftrightarrow> k \<in> part_abs pl \<and> part_id_of lb sz k = ?i" for k
    by (rule part_mem [OF ok i])
  have "part_abs ?pl = fst (skip_spec (part_abs pl) op p)"
    using part_abs_update [OF ok i, of s'] s'(2) skip_spec_local(1) [OF B refl, of op] by simp
  moreover have "part_ok lb sz ?pl" unfolding part_ok_def
  proof (intro allI impI)
    fix j assume j: "j < length (parts ?pl)"
    show "fc_quiet UNIV (parts ?pl ! j) \<and> sk_inv (data (parts ?pl ! j)) \<and> (\<forall>k \<in> sk_abs (data (parts ?pl ! j)). part_id_of lb sz k = j)"
    proof (cases "j = ?i")
      case True
      then show ?thesis using i s' B skip_spec_keys [of _ "sk_abs (data ?s)" op p] by auto
    next
      case False
      then show ?thesis using j ok by (simp add: part_ok_def)
    qed
  qed
  moreover have "part_fc_operation op p ?i slot pl = Some (?pl, snd (skip_spec (part_abs pl) op p))"
    using i s'(1) skip_spec_local(2) [OF B refl, of op] by (simp add: part_fc_operation_def)
  ultimately show ?thesis by auto
qed

lemma part_run_steps:
  assumes "part_ok lb sz pl" and "\<forall>(slot, op, p) \<in> set cs. slot \<noteq> 0 \<and> part_id_of lb sz p < length (parts pl) \<and> 0 < p \<and> p < INT_MAX"
  shows "\<exists>pl'. part_run lb sz cs pl = Some (pl', snd (run_spec skip_spec (part_abs pl) (map snd cs))) \<and>
    part_abs pl' = fst (run_spec skip_spec (part_abs pl) (map snd cs)) \<and> part_ok lb sz pl'"
  using assms
proof (induction cs arbitrary: pl)
  case (Cons c cs)
  obtain slot op p where c: "c = (slot, op, p)" by (cases c)
  obtain pl1 where pl1: "part_fc_operation op p (part_id_of lb sz p) slot pl = Some (pl1, snd (skip_spec (part_abs pl) op p))"
      "part_abs pl1 = fst (skip_spec (part_abs pl) op p)" "part_ok lb sz pl1" "length (parts pl1) = length (parts pl)"
    using part_step [OF Cons.prems(1), of p slot op] Cons.prems(2) c by auto
  have "\<forall>(slot, op, p) \<in> set cs. slot \<noteq> 0 \<and> part_id_of lb sz p < length (parts pl1) \<and> 0 < p \<and> p < INT_MAX"
    using Cons.prems(2) pl1(4) by auto
  from Cons.IH [OF pl1(3) this] show ?case using pl1(1,2) c by (auto simp: split_beta)
qed simp

subsection \<open>New partitioned lists\<close>

lemma those_Some: "those xs = Some ys \<Longrightarrow> length ys = length xs \<and> (\<forall>i < length xs. xs ! i = Some (ys ! i))"
proof (induction xs arbitrary: ys)
  case (Cons x xs)
  then obtain y zs where x: "x = Some y" "those xs = Some zs" "ys = y # zs" by (auto split: option.splits)
  have "(x # xs) ! i = Some (ys ! i)" if "i < length (x # xs)" for i
    using Cons.IH [OF x(2)] x that by (cases i) auto
  then show ?case using Cons.IH [OF x(2)] x by simp
qed simp

lemma PartSkipList_parts:
  assumes "PartSkipList mn mx n ts rs = Some pl"
  shows "length (parts pl) = n" "partition_size pl = part_size mn mx n"
    "j < n \<Longrightarrow> \<exists>d. parts pl ! j = SkipList (ts j) d \<and>
       skip_new (part_size mn mx n * of_nat j + mn) (part_size mn mx n * of_nat (j + 1) + mn - 1) (rs j) = Some d"
proof -
  let ?f = "\<lambda>i. map_option (SkipList (ts i)) (skip_new (part_size mn mx n * of_nat i + mn) (part_size mn mx n * of_nat (i + 1) + mn - 1) (rs i))"
  have th: "those (map ?f [0..<n]) = Some (parts pl)" and "partition_size pl = part_size mn mx n"
    using assms by (auto simp: PartSkipList_def Let_def)
  then show "partition_size pl = part_size mn mx n" "length (parts pl) = n" using those_Some [OF th] by auto
  assume "j < n"
  then have "?f j = Some (parts pl ! j)" using those_Some [OF th] by simp
  then show "\<exists>d. parts pl ! j = SkipList (ts j) d \<and>
       skip_new (part_size mn mx n * of_nat j + mn) (part_size mn mx n * of_nat (j + 1) + mn - 1) (rs j) = Some d"
    by (auto simp del: of_nat_Suc)
qed

lemma PartSkipList_ok:
  assumes "PartSkipList mn mx n ts rs = Some pl" and "2 \<le> sint (part_size mn mx n)"
  shows "part_ok lb sz pl" "part_abs pl = {}"
proof -
  have p: "fc_quiet UNIV (parts pl ! j) \<and> sk_inv (data (parts pl ! j)) \<and> sk_abs (data (parts pl ! j)) = {}" if "j < length (parts pl)" for j
  proof -
    have j: "j < n" using that PartSkipList_parts(1) [OF assms(1)] by simp
    obtain d where d: "parts pl ! j = SkipList (ts j) d"
        "skip_new (part_size mn mx n * of_nat j + mn) (part_size mn mx n * of_nat (j + 1) + mn - 1) (rs j) = Some d"
      using PartSkipList_parts(3) [OF assms(1) j] by blast
    have "part_size mn mx n * of_nat (j + 1) + mn - 1 - (part_size mn mx n * of_nat j + mn) + 1 = part_size mn mx n"
      by (simp add: algebra_simps)
    then have "sk_inv d" "sk_abs d = {}" using skip_new_inv [OF d(2) new_max_level [OF d(2)]] assms(2) by auto
    moreover have "data (SkipList (ts j) d) = d" by (simp add: SkipList_def)
    ultimately show ?thesis using SkipList_quiet d(1) by simp
  qed
  then show "part_ok lb sz pl" by (simp add: part_ok_def)
  show "part_abs pl = {}" using p part_abs_iff by blast
qed

text \<open>
  C11. Calls on a new partitioned skip list, each sent to the partition the benchmark computes from the
  key, behave as operations on one set of keys, as long as the computed partition exists and each
  partition has at least two keys.
\<close>

theorem PartSkipList_operations_set:
  assumes "PartSkipList mn mx n ts rs = Some pl" and "2 \<le> sint (part_size mn mx n)"
    and "\<forall>(slot, op, p) \<in> set cs. slot \<noteq> 0 \<and> part_id_of mn (part_size mn mx n) p < n \<and> 0 < p \<and> p < INT_MAX"
  shows "\<exists>pl'. part_run mn (part_size mn mx n) cs pl = Some (pl', snd (run_spec skip_spec {} (map snd cs))) \<and>
    part_abs pl' = fst (run_spec skip_spec {} (map snd cs))"
  using part_run_steps [OF PartSkipList_ok(1) [OF assms(1,2)], of cs mn "part_size mn mx n"] PartSkipList_ok(2) [OF assms(1,2)]
    PartSkipList_parts(1) [OF assms(1)] assms(3) by auto

theorem PartSkipList_operations_set_witness:
  "\<exists>pl pl'. PartSkipList 1 100 2 (\<lambda>_. 0) (\<lambda>_ _. 6) = Some pl \<and>
     part_run 1 50 [(4, SK_ADD_OP, 7), (5, SK_ADD_OP, 70), (4, SK_CONTAINS_OP, 70), (5, SK_REMOVE_OP, 7)] pl = Some (pl', [1, 1, 1, 1]) \<and>
     part_abs pl' = {70}"
proof -
  let ?cs = "[(4, SK_ADD_OP, 7), (5, SK_ADD_OP, 70), (4, SK_CONTAINS_OP, 70), (5, SK_REMOVE_OP, 7)] :: (nat \<times> u32 \<times> u32) list"
  have sz: "part_size 1 100 2 = 50" by (simp add: part_size_def)
  obtain pl where pl: "PartSkipList 1 100 2 (\<lambda>_. 0) (\<lambda>_ _. 6) = Some pl"
    by (simp add: PartSkipList_def sz Let_def upt_rec skip_new_def skip_default_def split_beta)
  then show ?thesis using PartSkipList_operations_set [OF pl, of ?cs]
    by (auto simp: sz part_id_of_def skip_spec_def sk_op_of_def SK_ADD_OP_def SK_CONTAINS_OP_def SK_REMOVE_OP_def INT_MAX_def)
qed

lemma unat_start: "unat sz * i + unat mn < 2 ^ 32 \<Longrightarrow> unat (sz * of_nat i + mn :: u32) = unat sz * i + unat mn"
proof -
  assume a: "unat sz * i + unat mn < 2 ^ 32"
  have "unat (of_nat (unat sz * i + unat mn) :: u32) = unat sz * i + unat mn" by (subst unat_of_nat) (use a in simp)
  then show ?thesis by simp
qed

text \<open>
  A key of the covered range is in the bounds of exactly one partition, the one the
  benchmark computes. (A remainder of the division leaves the largest keys of the range
  uncovered.)
\<close>

theorem part_bounds:
  assumes "PartSkipList mn mx n ts rs = Some pl" and "part_size mn mx n \<noteq> 0"
    and "unat mn + n * unat (part_size mn mx n) < 2 ^ 32" and "mn \<le> k" and "unat k < unat mn + n * unat (part_size mn mx n)" and "j < n"
  shows "in_bounds k (data (parts pl ! j)) \<longleftrightarrow> j = part_id_of mn (part_size mn mx n) k"
proof -
  let ?sz = "part_size mn mx n" let ?z = "unat ?sz"
  obtain d where d: "parts pl ! j = SkipList (ts j) d"
      "skip_new (?sz * of_nat j + mn) (?sz * of_nat (j + 1) + mn - 1) (rs j) = Some d"
    using PartSkipList_parts(3) [OF assms(1,6)] by blast
  have z: "0 < ?z" using assms(2) by (simp add: unat_gt_0)
  have "(j + 1) * ?z \<le> n * ?z" using assms(6) by (intro mult_right_mono) simp_all
  then have "?z * (j + 1) \<le> n * ?z" by (simp only: mult.commute)
  then have lt: "?z * (j + 1) + unat mn < 2 ^ 32" using assms(3) by linarith
  then have lo: "unat (?sz * of_nat j + mn) = ?z * j + unat mn" by (intro unat_start) (simp add: algebra_simps)
  have up: "unat (?sz * of_nat (j + 1) + mn) = ?z * (j + 1) + unat mn" using lt by (rule unat_start)
  have "1 \<le> ?sz * of_nat (j + 1) + mn" using up z by (simp add: word_le_nat_alt)
  then have up1: "unat (?sz * of_nat (j + 1) + mn - 1) = ?z * (j + 1) + unat mn - 1" using up by (simp add: unat_sub)
  have ib: "in_bounds k (data (parts pl ! j)) \<longleftrightarrow> ?z * j + unat mn \<le> unat k \<and> unat k \<le> ?z * (j + 1) + unat mn - 1"
    unfolding in_bounds_def d(1) SkipList_def using skip_new_empty(4,5) [OF d(2)] lo up1 by (simp add: word_le_nat_alt)
  have id: "part_id_of mn ?sz k = (unat k - unat mn) div ?z" using assms(4) by (simp add: part_id_of_def unat_div unat_sub)
  have mk: "unat mn \<le> unat k" using assms(4) by (simp add: word_le_nat_alt)
  have "?z * j + unat mn \<le> unat k \<and> unat k \<le> ?z * (j + 1) + unat mn - 1 \<longleftrightarrow> ?z * j \<le> unat k - unat mn \<and> unat k - unat mn < ?z * (j + 1)"
    using mk z by (auto simp: algebra_simps)
  also have "\<dots> \<longleftrightarrow> (unat k - unat mn) div ?z = j"
    using z by (metis Suc_eq_plus1 div_nat_eqI dividend_less_times_div times_div_less_eq_dividend mult.commute mult_Suc_right)
  finally show ?thesis using ib id by auto
qed

theorem part_bounds_witness:
  "\<exists>pl. PartSkipList 1 100 2 (\<lambda>_. 0) (\<lambda>_ _. 6) = Some pl \<and> in_bounds 70 (data (parts pl ! 1)) \<and> \<not> in_bounds 70 (data (parts pl ! 0))"
proof -
  have sz: "part_size 1 100 2 = 50" by (simp add: part_size_def)
  obtain pl where pl: "PartSkipList 1 100 2 (\<lambda>_. 0) (\<lambda>_ _. 6) = Some pl"
    by (simp add: PartSkipList_def sz Let_def upt_rec skip_new_def skip_default_def split_beta)
  then show ?thesis using part_bounds [OF pl, of 70 0] part_bounds [OF pl, of 70 1] by (simp add: sz part_id_of_def)
qed

end
