(* ===== verification/PIM_Requests.thy ===== *)
theory PIM_Requests
  imports SMC_Prelude
begin

unbundle bit_operations_syntax

text \<open>
  The request slots a host thread and a PIM kernel share: the bit fields of \<open>info_bits\<close> as the
  three applications define them (\<open>defs.hh\<close> of \<open>multithread_nonstop_pim_linkedlist\<close>,
  \<open>multithread_nonstop_pim_skiplist\<close> and \<open>multithread_pim_queue\<close>), and the host's side of one request
  (\<open>LINKED_LIST_OPERATION\<close>). The lemmas are the protocol of the bit fields: what the host writes is what the
  kernel reads, the result the kernel writes is what the host reads, and no field of an earlier
  request is left over.
\<close>

type_synonym u16 = "16 word"
type_synonym u8 = "8 word"

named_theorems info_simps \<open>masks of request words\<close>

lemmas mask_simps = bit.conj_disj_distrib2 and.assoc or.assoc

subsection \<open>Linked list requests (16 bits)\<close>

record request_slot =
  info_bits :: u16
  timestamp :: u16
  req_parameter :: u32

definition LL_ADD_OP :: u16 where [info_simps]: "LL_ADD_OP = 0x4000"
definition LL_REMOVE_OP :: u16 where [info_simps]: "LL_REMOVE_OP = 0x2000"
definition LL_CONTAINS_OP :: u16 where [info_simps]: "LL_CONTAINS_OP = 0x6000"

definition SET_OPERATION :: "u16 \<Rightarrow> u16 \<Rightarrow> u16" where [info_simps]: "SET_OPERATION ib op = (ib AND 0x1FFE) OR op"
definition EXTRACT_OPERATION :: "u16 \<Rightarrow> u16" where [info_simps]: "EXTRACT_OPERATION ib = ib AND 0x6000"
definition SET_RETVAL :: "u16 \<Rightarrow> u16 \<Rightarrow> u16" where [info_simps]: "SET_RETVAL ib r = ib OR r"
definition GET_RETVAL :: "u16 \<Rightarrow> u16" where [info_simps]: "GET_RETVAL ib = ib AND 1"
definition SET_REQUEST :: "u16 \<Rightarrow> u16" where [info_simps]: "SET_REQUEST ib = ib OR 0x8000"
definition CHECK_VALID_REQUEST :: "u16 \<Rightarrow> u16" where [info_simps]: "CHECK_VALID_REQUEST ib = ib AND 0x8000"
definition CLEAR_REQUEST :: "u16 \<Rightarrow> u16" where [info_simps]: "CLEAR_REQUEST ib = ib AND 0x7FFF"

definition ll_op :: "u16 \<Rightarrow> bool" where
  "ll_op op \<longleftrightarrow> op = LL_ADD_OP \<or> op = LL_REMOVE_OP \<or> op = LL_CONTAINS_OP"

text \<open>
  What the host writes for a request: the parameter, the operation, and then the request bit. \<open>old\<close> is
  the host's copy of \<open>info_bits\<close> from its previous request.
\<close>

definition ll_request :: "u16 \<Rightarrow> u16 \<Rightarrow> u32 \<Rightarrow> request_slot \<Rightarrow> request_slot" where
  "ll_request old op k s = s\<lparr>req_parameter := k, info_bits := SET_REQUEST (SET_OPERATION old op)\<rparr>"

text \<open>What the kernel writes when it has served a request.\<close>

definition ll_answer :: "u16 \<Rightarrow> request_slot \<Rightarrow> request_slot" where
  "ll_answer r s = s\<lparr>info_bits := CLEAR_REQUEST (SET_RETVAL (info_bits s) r)\<rparr>"

text \<open>The operation field and the request bit, as the kernel reads them.\<close>

lemma request_read:
  assumes "ll_op op"
  shows "EXTRACT_OPERATION (info_bits (ll_request old op k s)) = op"
    and "CHECK_VALID_REQUEST (info_bits (ll_request old op k s)) \<noteq> 0"
    and "req_parameter (ll_request old op k s) = k"
  using assms by (auto simp: ll_op_def ll_request_def info_simps mask_simps)

text \<open>The request bit is clear after an answer; a request starts with a clear result.\<close>

lemma answer_clears [simp]:
  "r = 0 \<or> r = 1 \<Longrightarrow> CHECK_VALID_REQUEST (info_bits (ll_answer r s)) = 0"
  by (auto simp: ll_answer_def info_simps mask_simps)

lemma request_no_result: "ll_op op \<Longrightarrow> GET_RETVAL (info_bits (ll_request old op k s)) = 0"
  by (auto simp: ll_op_def ll_request_def info_simps mask_simps)

lemma answer_result:
  assumes "GET_RETVAL (info_bits s) = 0" and "r = 0 \<or> r = 1"
  shows "GET_RETVAL (info_bits (ll_answer r s)) = r"
  using assms by (auto simp: ll_answer_def info_simps mask_simps)

text \<open>
  C12. The request protocol of the linked list: the kernel reads the operation and the parameter the
  host wrote, whatever was left of the previous request, and the host reads the result the kernel wrote
  and finds the request cleared.
\<close>

theorem ll_protocol_roundtrip:
  assumes "ll_op op" and "r = 0 \<or> r = 1"
  shows "EXTRACT_OPERATION (info_bits (ll_request old op k s)) = op \<and>
    CHECK_VALID_REQUEST (info_bits (ll_request old op k s)) \<noteq> 0 \<and>
    req_parameter (ll_request old op k s) = k \<and>
    CHECK_VALID_REQUEST (info_bits (ll_answer r (ll_request old op k s))) = 0 \<and>
    GET_RETVAL (info_bits (ll_answer r (ll_request old op k s))) = r"
  using request_read [OF assms(1)] answer_clears [OF assms(2)] answer_result [OF request_no_result [OF assms(1)] assms(2)]
  by simp

theorem ll_protocol_roundtrip_witness:
  "EXTRACT_OPERATION (info_bits (ll_request 0xFFFF LL_ADD_OP 7 \<lparr>info_bits = 3, timestamp = 0, req_parameter = 9\<rparr>)) = LL_ADD_OP \<and>
   GET_RETVAL (info_bits (ll_answer 1 (ll_request 0xFFFF LL_ADD_OP 7 \<lparr>info_bits = 3, timestamp = 0, req_parameter = 9\<rparr>))) = 1"
  using ll_protocol_roundtrip [of LL_ADD_OP 1 "0xFFFF" 7 "\<lparr>info_bits = 3, timestamp = 0, req_parameter = 9\<rparr>"] by (simp add: ll_op_def)

subsection \<open>Skip list requests (8 bits)\<close>

record skip_request =
  sinfo_bits :: u8
  random_level :: u8
  stimestamp :: u16
  sparameter :: u32

definition SKP_ADD_OP :: u8 where [info_simps]: "SKP_ADD_OP = 0x40"
definition SKP_REMOVE_OP :: u8 where [info_simps]: "SKP_REMOVE_OP = 0x20"
definition SKP_CONTAINS_OP :: u8 where [info_simps]: "SKP_CONTAINS_OP = 0x60"

definition S_SET_OPERATION :: "u8 \<Rightarrow> u8 \<Rightarrow> u8" where [info_simps]: "S_SET_OPERATION ib op = (ib AND 0x1E) OR op"
definition S_EXTRACT_OPERATION :: "u8 \<Rightarrow> u8" where [info_simps]: "S_EXTRACT_OPERATION ib = ib AND 0x60"
definition S_SET_RETVAL :: "u8 \<Rightarrow> u8 \<Rightarrow> u8" where [info_simps]: "S_SET_RETVAL ib r = ib OR r"
definition S_GET_RETVAL :: "u8 \<Rightarrow> u8" where [info_simps]: "S_GET_RETVAL ib = ib AND 1"
definition S_SET_REQUEST :: "u8 \<Rightarrow> u8" where [info_simps]: "S_SET_REQUEST ib = ib OR 0x80"
definition S_CHECK_VALID_REQUEST :: "u8 \<Rightarrow> u8" where [info_simps]: "S_CHECK_VALID_REQUEST ib = ib AND 0x80"
definition S_CLEAR_REQUEST :: "u8 \<Rightarrow> u8" where [info_simps]: "S_CLEAR_REQUEST ib = ib AND 0x7F"

definition skp_op :: "u8 \<Rightarrow> bool" where
  "skp_op op \<longleftrightarrow> op = SKP_ADD_OP \<or> op = SKP_REMOVE_OP \<or> op = SKP_CONTAINS_OP"

text \<open>An addition also writes the level the host has drawn.\<close>

definition skp_request :: "u8 \<Rightarrow> u8 \<Rightarrow> u32 \<Rightarrow> u8 \<Rightarrow> skip_request \<Rightarrow> skip_request" where
  "skp_request old op k lev s =
     (let s1 = s\<lparr>sparameter := k, sinfo_bits := S_SET_REQUEST (S_SET_OPERATION old op)\<rparr>
      in if op = SKP_ADD_OP then s1\<lparr>random_level := lev\<rparr> else s1)"

definition skp_answer :: "u8 \<Rightarrow> skip_request \<Rightarrow> skip_request" where
  "skp_answer r s = s\<lparr>sinfo_bits := S_CLEAR_REQUEST (S_SET_RETVAL (sinfo_bits s) r)\<rparr>"

lemma skp_request_read:
  assumes "skp_op op"
  shows "S_EXTRACT_OPERATION (sinfo_bits (skp_request old op k lev s)) = op"
    and "S_CHECK_VALID_REQUEST (sinfo_bits (skp_request old op k lev s)) \<noteq> 0"
    and "S_GET_RETVAL (sinfo_bits (skp_request old op k lev s)) = 0"
    and "sparameter (skp_request old op k lev s) = k"
    and "op = SKP_ADD_OP \<Longrightarrow> random_level (skp_request old op k lev s) = lev"
  using assms by (auto simp: skp_op_def skp_request_def Let_def info_simps mask_simps)

lemma skp_answer_clears [simp]: "r = 0 \<or> r = 1 \<Longrightarrow> S_CHECK_VALID_REQUEST (sinfo_bits (skp_answer r s)) = 0"
  by (auto simp: skp_answer_def info_simps mask_simps)

lemma skp_answer_result:
  "S_GET_RETVAL (sinfo_bits s) = 0 \<Longrightarrow> r = 0 \<or> r = 1 \<Longrightarrow> S_GET_RETVAL (sinfo_bits (skp_answer r s)) = r"
  by (auto simp: skp_answer_def info_simps mask_simps)

subsection \<open>Queue requests (16 bits, two valid bits)\<close>

definition Q_SET_ENQ :: "u16 \<Rightarrow> u16" where [info_simps]: "Q_SET_ENQ ib = ib OR 0x8000"
definition Q_SET_DEQ :: "u16 \<Rightarrow> u16" where [info_simps]: "Q_SET_DEQ ib = ib AND 0x7FFF"
definition Q_EXTRACT_OP :: "u16 \<Rightarrow> u16" where [info_simps]: "Q_EXTRACT_OP ib = ib AND 0x8000"
definition Q_SET_REQUEST :: "u16 \<Rightarrow> u16" where [info_simps]: "Q_SET_REQUEST ib = ib OR 0x0003"
definition Q_CLEAR_PIM_VALID :: "u16 \<Rightarrow> u16" where [info_simps]: "Q_CLEAR_PIM_VALID ib = ib AND 0xFFFD"
definition Q_CHECK_VALID_REQUEST :: "u16 \<Rightarrow> u16" where [info_simps]: "Q_CHECK_VALID_REQUEST ib = ib AND 0x0001"
definition Q_CHECK_VALID_PIM :: "u16 \<Rightarrow> u16" where [info_simps]: "Q_CHECK_VALID_PIM ib = ib AND 0x0002"
definition Q_CLEAR_REQUEST :: "u16 \<Rightarrow> u16" where [info_simps]: "Q_CLEAR_REQUEST ib = ib AND 0xFFFE"
definition Q_CLEAR_REQUEST_PIM_VALID :: "u16 \<Rightarrow> u16" where [info_simps]: "Q_CLEAR_REQUEST_PIM_VALID ib = ib AND 0xFFFC"

text \<open>The request bit, the PIM-valid bit and the operation bit are independent of each other.\<close>

lemma queue_bits [simp]:
  "Q_CHECK_VALID_REQUEST (Q_SET_REQUEST ib) \<noteq> 0" "Q_CHECK_VALID_PIM (Q_SET_REQUEST ib) \<noteq> 0"
  "Q_CHECK_VALID_REQUEST (Q_CLEAR_REQUEST ib) = 0" "Q_CHECK_VALID_PIM (Q_CLEAR_REQUEST ib) = Q_CHECK_VALID_PIM ib"
  "Q_CHECK_VALID_REQUEST (Q_CLEAR_REQUEST_PIM_VALID ib) = 0" "Q_CHECK_VALID_PIM (Q_CLEAR_REQUEST_PIM_VALID ib) = 0"
  "Q_EXTRACT_OP (Q_SET_REQUEST (Q_SET_ENQ ib)) \<noteq> 0" "Q_EXTRACT_OP (Q_SET_REQUEST (Q_SET_DEQ ib)) = 0"
  "Q_EXTRACT_OP (Q_CLEAR_REQUEST ib) = Q_EXTRACT_OP ib" "Q_EXTRACT_OP (Q_CLEAR_REQUEST_PIM_VALID ib) = Q_EXTRACT_OP ib"
  "Q_CHECK_VALID_PIM (Q_CLEAR_PIM_VALID ib) = 0" "Q_CHECK_VALID_REQUEST (Q_CLEAR_PIM_VALID ib) = Q_CHECK_VALID_REQUEST ib"
  by (simp_all add: info_simps mask_simps)

text \<open>
  The request protocol of the skip list: the kernel reads the operation, the parameter and, for an
  addition, the level the host wrote; the host reads the kernel's result and finds the request cleared.
\<close>

theorem skp_protocol_roundtrip:
  assumes "skp_op op" and "r = 0 \<or> r = 1"
  shows "S_EXTRACT_OPERATION (sinfo_bits (skp_request old op k lev s)) = op \<and>
    S_CHECK_VALID_REQUEST (sinfo_bits (skp_request old op k lev s)) \<noteq> 0 \<and>
    sparameter (skp_request old op k lev s) = k \<and>
    (op = SKP_ADD_OP \<longrightarrow> random_level (skp_request old op k lev s) = lev) \<and>
    S_CHECK_VALID_REQUEST (sinfo_bits (skp_answer r (skp_request old op k lev s))) = 0 \<and>
    S_GET_RETVAL (sinfo_bits (skp_answer r (skp_request old op k lev s))) = r"
  using skp_request_read [OF assms(1)] skp_answer_clears [OF assms(2)] skp_answer_result [OF skp_request_read(3) [OF assms(1)] assms(2)]
  by simp

theorem skp_protocol_roundtrip_witness:
  "S_EXTRACT_OPERATION (sinfo_bits (skp_request 0xFF SKP_REMOVE_OP 7 1 \<lparr>sinfo_bits = 3, random_level = 0, stimestamp = 0, sparameter = 9\<rparr>))
     = SKP_REMOVE_OP \<and>
   S_GET_RETVAL (sinfo_bits (skp_answer 0 (skp_request 0xFF SKP_REMOVE_OP 7 1 \<lparr>sinfo_bits = 3, random_level = 0, stimestamp = 0, sparameter = 9\<rparr>))) = 0"
  using skp_protocol_roundtrip [of SKP_REMOVE_OP 0 "0xFF" 7 1 "\<lparr>sinfo_bits = 3, random_level = 0, stimestamp = 0, sparameter = 9\<rparr>"]
  by (simp add: skp_op_def)

end
