(* ===== verification/PIM_Vault.thy ===== *)
theory PIM_Vault
  imports SMC_Prelude
begin

text \<open>
  The memory vault of the PIM processor and the block allocator that the linked-list and the
  skip-list kernel share (\<open>SW/PIM/kernels/clean_linked_list.c\<close>, \<open>clean_skiplist.c\<close>). The vault is one flat
  memory of 32-bit words at byte addresses from \<open>BLOCK_BASE_ADDR\<close> on; an access outside it has no outcome
  (\<^const>\<open>None\<close>). A block is \<open>4 * w\<close> bytes, its fields are the words at offsets \<open>4 * k\<close>, and a free
  block keeps the address of the next free block in its first word, on top of the key.

  That two fields of blocks never share an address is proved from the block size and alignment (\<open>fld_eq\<close>),
  not assumed: the allocator and the data structures live in the same memory.
\<close>

named_theorems vault_simps \<open>accesses to the vault\<close>

type_synonym vmem = "u32 \<Rightarrow> u32"

definition BLOCK_BASE_ADDR :: u32 where "BLOCK_BASE_ADDR = 0xC0000000"
definition VAULT_SIZE :: nat where "VAULT_SIZE = 0x8000000"

text \<open>The registers and memory of the PIM device; \<open>'r\<close> is what the kernel keeps in \<open>PIM_VREG\<close>.\<close>

record 'r pim =
  sreg :: "nat \<Rightarrow> u32"
  vmem :: vmem
  vreg :: "nat \<Rightarrow> 'r"

definition in_vault :: "u32 \<Rightarrow> bool" where
  "in_vault a \<longleftrightarrow> BLOCK_BASE_ADDR \<le> a \<and> unat a < unat BLOCK_BASE_ADDR + VAULT_SIZE"

definition vrd :: "vmem \<Rightarrow> u32 \<Rightarrow> u32 option" where
  "vrd m a = (if in_vault a then Some (m a) else None)"

definition vwr :: "u32 \<Rightarrow> u32 \<Rightarrow> vmem \<Rightarrow> vmem option" where
  "vwr a v m = (if in_vault a then Some (m(a := v)) else None)"

definition fld :: "u32 \<Rightarrow> nat \<Rightarrow> u32" where
  "fld b k = b + 4 * of_nat k"

definition set_sreg :: "nat \<Rightarrow> u32 \<Rightarrow> ('r, 'm) pim_scheme \<Rightarrow> ('r, 'm) pim_scheme" where
  "set_sreg i v s = s\<lparr>sreg := (sreg s)(i := v)\<rparr>"

definition put :: "u32 \<Rightarrow> nat \<Rightarrow> u32 \<Rightarrow> ('r, 'm) pim_scheme \<Rightarrow> ('r, 'm) pim_scheme option" where
  "put b k v s = map_option (\<lambda>m. s\<lparr>vmem := m\<rparr>) (vwr (fld b k) v (vmem s))"

subsection \<open>The allocator\<close>

text \<open>\<open>PIM_SREG[3]\<close> is \<open>FREE_BLOCKS_HEAD\<close>.\<close>

definition alloc_memory_block :: "('r, 'm) pim_scheme \<Rightarrow> (u32 \<times> ('r, 'm) pim_scheme) option" where
  "alloc_memory_block s =
     (let b = sreg s 3
      in if b \<noteq> 0 then do { n \<leftarrow> vrd (vmem s) (fld b 0); Some (b, set_sreg 3 n s) } else Some (b, s))"

definition free_memory_block :: "u32 \<Rightarrow> ('r, 'm) pim_scheme \<Rightarrow> ('r, 'm) pim_scheme option" where
  "free_memory_block b s = do { s1 \<leftarrow> put b 0 (sreg s 3) s; Some (set_sreg 3 b s1) }"

text \<open>The loop of \<open>list_init\<close> that chains the blocks \<open>i, i + 1, \<dots>\<close> into the free list.\<close>

fun init_blocks :: "nat \<Rightarrow> nat list \<Rightarrow> ('r, 'm) pim_scheme \<Rightarrow> ('r, 'm) pim_scheme option" where
  "init_blocks bs [] s = Some s"
| "init_blocks bs (i # is) s =
     (let b = BLOCK_BASE_ADDR + of_nat (i * bs)
      in do { s1 \<leftarrow> put b 0 (sreg s 3) s; init_blocks bs is (set_sreg 3 b s1) })"

text \<open>
  \<open>list_init\<close>, which is the same in both kernels but for the layout of a node: \<open>bs\<close> is \<open>BLOCK_SIZE\<close>, \<open>n\<close>
  \<open>NUM_MEM_BLOCKS\<close>, \<open>off\<close> the word of \<open>next[0]\<close>, \<open>topf\<close> the word of \<open>top_level\<close> and \<open>ml\<close> the number of
  levels. \<open>PIM_SREG[4]\<close> and \<open>PIM_SREG[5]\<close> point to the sentinels.
\<close>

fun init_nexts :: "nat \<Rightarrow> nat list \<Rightarrow> ('r, 'm) pim_scheme \<Rightarrow> ('r, 'm) pim_scheme option" where
  "init_nexts off [] s = Some s"
| "init_nexts off (i # is) s =
     do { s1 \<leftarrow> put (sreg s 4) (off + i) (sreg s 5) s;
          s2 \<leftarrow> put (sreg s1 5) (off + i) 0 s1;
          init_nexts off is s2 }"

definition list_init :: "nat \<Rightarrow> nat \<Rightarrow> nat \<Rightarrow> nat \<Rightarrow> nat \<Rightarrow> ('r, 'm) pim_scheme \<Rightarrow> ('r, 'm) pim_scheme option" where
  "list_init bs n off topf ml s =
     do { s1 \<leftarrow> init_blocks bs [0..<n] (set_sreg 3 0 s);
          (hn, s2) \<leftarrow> alloc_memory_block s1;
          (tn, s3) \<leftarrow> alloc_memory_block (set_sreg 4 hn s2);
          let s4 = set_sreg 5 tn s3;
          s5 \<leftarrow> put (sreg s4 4) 0 0 s4;
          s6 \<leftarrow> put (sreg s5 5) 0 0xFFFFFFFF s5;
          s7 \<leftarrow> put (sreg s6 4) topf (of_nat ml) s6;
          s8 \<leftarrow> put (sreg s7 5) topf (of_nat ml) s7;
          s9 \<leftarrow> init_nexts off [0..<ml] s8;
          Some (set_sreg 2 0 (set_sreg 1 (of_nat n) s9)) }"

definition block :: "nat \<Rightarrow> nat \<Rightarrow> u32" where
  "block w i = BLOCK_BASE_ADDR + of_nat (i * (4 * w))"

definition blocks :: "nat \<Rightarrow> nat \<Rightarrow> u32 set" where
  "blocks w n = block w ` {..<n}"

definition free_ok :: "nat \<Rightarrow> nat \<Rightarrow> ('r, 'm) pim_scheme \<Rightarrow> u32 list \<Rightarrow> bool" where
  "free_ok w n s fs \<longleftrightarrow> lpath (vmem s) (sreg s 3) fs 0 \<and> set fs \<subseteq> blocks w n"

lemma fld_0 [simp]: "fld b 0 = b"
  by (simp add: fld_def)

lemma set_sreg_simps [simp]:
  "sreg (set_sreg i v s) = (sreg s)(i := v)" "vmem (set_sreg i v s) = vmem s" "vreg (set_sreg i v s) = vreg s"
  by (simp_all add: set_sreg_def)

locale block_layout =
  fixes w n :: nat
  assumes width: "0 < w" and fits: "n * (4 * w) \<le> VAULT_SIZE"
begin

lemma unat_fld:
  assumes "i < n" and "k < w"
  shows "unat (fld (block w i) k) = 0xC0000000 + 4 * (i * w + k)" and "4 * (i * w + k) < VAULT_SIZE"
proof -
  have "i * w + k < Suc i * w" using assms(2) by simp
  also have "\<dots> \<le> n * w" using assms(1) by (intro mult_le_mono1) simp
  finally have lt: "4 * (i * w + k) < VAULT_SIZE" using fits by (simp add: algebra_simps)
  then show "4 * (i * w + k) < VAULT_SIZE" .
  have "fld (block w i) k = of_nat (0xC0000000 + 4 * (i * w + k))"
    by (simp add: fld_def block_def BLOCK_BASE_ADDR_def algebra_simps)
  moreover have "0xC0000000 + 4 * (i * w + k) < 2 ^ LENGTH(32)" using lt by (simp add: VAULT_SIZE_def)
  ultimately show "unat (fld (block w i) k) = 0xC0000000 + 4 * (i * w + k)"
    by (simp only: unat_of_nat mod_less)
qed

lemma fld_in_vault [simp]: "b \<in> blocks w n \<Longrightarrow> k < w \<Longrightarrow> in_vault (fld b k)"
  using unat_fld by (auto simp: blocks_def in_vault_def BLOCK_BASE_ADDR_def word_le_nat_alt)

lemma fld_eq:
  assumes "b \<in> blocks w n" "b' \<in> blocks w n" "k < w" "k' < w"
  shows "fld b k = fld b' k' \<longleftrightarrow> b = b' \<and> k = k'"
proof
  obtain i i' where i: "b = block w i" "i < n" "b' = block w i'" "i' < n" using assms by (auto simp: blocks_def)
  assume "fld b k = fld b' k'"
  then have "i * w + k = i' * w + k'" using unat_fld(1) [of i k] unat_fld(1) [of i' k'] i assms by simp
  then have "(i * w + k) div w = (i' * w + k') div w" "(i * w + k) mod w = (i' * w + k') mod w" by simp_all
  then show "b = b' \<and> k = k'" using i assms(3,4) width by simp
qed simp

lemma block_inj: "i < n \<Longrightarrow> j < n \<Longrightarrow> block w i = block w j \<Longrightarrow> i = j"
  using unat_fld(1) [of i 0] unat_fld(1) [of j 0] width by simp

lemma block_nonnull [simp]: "b \<in> blocks w n \<Longrightarrow> b \<noteq> 0"
  using unat_fld(1) [of _ 0] width by (auto simp: blocks_def dest: arg_cong [of _ _ unat])

lemma vrd_fld [simp]: "b \<in> blocks w n \<Longrightarrow> k < w \<Longrightarrow> vrd m (fld b k) = Some (m (fld b k))"
  by (simp add: vrd_def)

lemma vrd_block [simp]: "b \<in> blocks w n \<Longrightarrow> vrd m b = Some (m b)"
  using vrd_fld [of b 0] width by simp

lemma put_fld [simp]: "b \<in> blocks w n \<Longrightarrow> k < w \<Longrightarrow> put b k v s = Some (s\<lparr>vmem := (vmem s)(fld b k := v)\<rparr>)"
  by (simp add: put_def vwr_def)

lemma put_block: "b \<in> blocks w n \<Longrightarrow> put b 0 v s = Some (s\<lparr>vmem := (vmem s)(b := v)\<rparr>)"
  using put_fld [of b 0] width by simp

lemma fld_eq_block:
  "b \<in> blocks w n \<Longrightarrow> b' \<in> blocks w n \<Longrightarrow> k < w \<Longrightarrow> fld b k = b' \<longleftrightarrow> b = b' \<and> k = 0"
  "b \<in> blocks w n \<Longrightarrow> b' \<in> blocks w n \<Longrightarrow> k < w \<Longrightarrow> b' = fld b k \<longleftrightarrow> b = b' \<and> k = 0"
  using fld_eq [of b b' k 0] width by auto

text \<open>Allocation takes the first free block, or reports that there is none.\<close>

lemma alloc_memory_block_free:
  assumes "free_ok w n s fs"
  shows "fs = [] \<Longrightarrow> alloc_memory_block s = Some (0, s)"
    and "fs = b # fs' \<Longrightarrow> \<exists>v. alloc_memory_block s = Some (b, set_sreg 3 v s) \<and> free_ok w n (set_sreg 3 v s) fs' \<and> b \<in> blocks w n \<and> b \<notin> set fs'"
proof -
  have p: "lpath (vmem s) (sreg s 3) fs 0" "set fs \<subseteq> blocks w n" using assms by (auto simp: free_ok_def)
  show "fs = [] \<Longrightarrow> alloc_memory_block s = Some (0, s)" using p(1) by (simp add: alloc_memory_block_def)
  assume fs: "fs = b # fs'"
  then have b: "b \<in> blocks w n" "sreg s 3 = b" "b \<noteq> 0" using p by auto
  have "alloc_memory_block s = Some (b, set_sreg 3 (vmem s b) s)"
    using b by (simp add: alloc_memory_block_def)
  moreover have "free_ok w n (set_sreg 3 (vmem s b) s) fs'" using p fs by (auto simp: free_ok_def)
  moreover have "b \<notin> set fs'" using lpath_distinct [OF p(1)] fs by simp
  ultimately show "\<exists>v. alloc_memory_block s = Some (b, set_sreg 3 v s) \<and> free_ok w n (set_sreg 3 v s) fs' \<and> b \<in> blocks w n \<and> b \<notin> set fs'"
    using b by blast
qed

text \<open>Writes outside the free blocks' first words keep the free list.\<close>

lemma free_ok_cong:
  assumes "free_ok w n s fs" and "sreg s' 3 = sreg s 3" and "\<And>b. b \<in> set fs \<Longrightarrow> vmem s' b = vmem s b"
  shows "free_ok w n s' fs"
  using assms lpath_cong [of fs "vmem s'" "vmem s" "sreg s 3" 0] by (simp add: free_ok_def)

lemma free_memory_block_free:
  assumes "free_ok w n s fs" and "b \<in> blocks w n" and "b \<notin> set fs"
  shows "free_memory_block b s = Some (set_sreg 3 b (s\<lparr>vmem := (vmem s)(b := sreg s 3)\<rparr>))"
    and "free_ok w n (set_sreg 3 b (s\<lparr>vmem := (vmem s)(b := sreg s 3)\<rparr>)) (b # fs)"
  using assms by (simp_all add: free_memory_block_def put_block free_ok_def lpath_upd)

text \<open>After the initialisation every block is free.\<close>

lemma init_blocks_free:
  "set is \<subseteq> {..<n} \<Longrightarrow> distinct is \<Longrightarrow> free_ok w n s fs \<Longrightarrow> (\<forall>i \<in> set is. block w i \<notin> set fs) \<Longrightarrow>
   \<exists>s'. init_blocks (4 * w) is s = Some s' \<and> free_ok w n s' (rev (map (block w) is) @ fs) \<and>
     vreg s' = vreg s \<and> more s' = more s \<and> (\<forall>j. j \<noteq> 3 \<longrightarrow> sreg s' j = sreg s j)"
proof (induction "is" arbitrary: s fs)
  case Nil
  then show ?case by simp
next
  case (Cons i "is")
  have i: "i < n" "block w i \<in> blocks w n" using Cons.prems by (auto simp: blocks_def)
  let ?s1 = "set_sreg 3 (block w i) (s\<lparr>vmem := (vmem s)(block w i := sreg s 3)\<rparr>)"
  have f: "free_ok w n ?s1 (block w i # fs)" using free_memory_block_free(2) [OF Cons.prems(3) i(2)] Cons.prems(4) by simp
  have "block w j \<notin> set (block w i # fs)" if "j \<in> set is" for j
    using that Cons.prems block_inj [of j i] by auto
  then obtain s' where s': "init_blocks (4 * w) is ?s1 = Some s'" "free_ok w n s' (rev (map (block w) is) @ block w i # fs)"
      "vreg s' = vreg ?s1" "more s' = more ?s1" "\<forall>j. j \<noteq> 3 \<longrightarrow> sreg s' j = sreg ?s1 j"
    using Cons.IH [OF _ _ f] Cons.prems by auto
  have "init_blocks (4 * w) (i # is) s = Some s'"
    using s'(1) put_block [OF i(2), of "sreg s 3" s] by (simp add: Let_def block_def)
  then show ?case using s'(2-5) by (simp add: set_sreg_def)
qed

lemma init_nexts_links:
  assumes "sreg s 4 = hn" "sreg s 5 = tn" "hn \<in> blocks w n" "tn \<in> blocks w n" "hn \<noteq> tn" "\<forall>i \<in> set is. off + i < w"
  shows "\<exists>m. init_nexts off is s = Some (s\<lparr>vmem := m\<rparr>) \<and>
    (\<forall>b \<in> blocks w n. \<forall>k < w. m (fld b k) =
       (if k \<in> (+) off ` set is \<and> b = hn then tn else if k \<in> (+) off ` set is \<and> b = tn then 0 else vmem s (fld b k)))"
  using assms
proof (induction "is" arbitrary: s)
  case Nil
  then show ?case by (intro exI [of _ "vmem s"]) simp
next
  case (Cons i "is")
  let ?s2 = "s\<lparr>vmem := (vmem s)(fld hn (off + i) := tn, fld tn (off + i) := 0)\<rparr>"
  have i: "off + i < w" using Cons.prems(6) by simp
  have st: "init_nexts off (i # is) s = init_nexts off is ?s2" using Cons.prems(1-4) i by simp
  obtain m where m: "init_nexts off is ?s2 = Some (?s2\<lparr>vmem := m\<rparr>)"
    "\<forall>b \<in> blocks w n. \<forall>k < w. m (fld b k) =
       (if k \<in> (+) off ` set is \<and> b = hn then tn else if k \<in> (+) off ` set is \<and> b = tn then 0 else vmem ?s2 (fld b k))"
    using Cons.IH [of ?s2] Cons.prems by auto
  have u: "vmem ?s2 (fld b k) = (if b = tn \<and> k = off + i then 0 else if b = hn \<and> k = off + i then tn else vmem s (fld b k))"
    if "b \<in> blocks w n" "k < w" for b k
    using that i Cons.prems(3,4,5) fld_eq [of b tn k "off + i"] fld_eq [of b hn k "off + i"] by simp
  have "m (fld b k) = (if k \<in> (+) off ` set (i # is) \<and> b = hn then tn else if k \<in> (+) off ` set (i # is) \<and> b = tn then 0 else vmem s (fld b k))"
    if "b \<in> blocks w n" "k < w" for b k
  proof -
    have "m (fld b k) = (if k \<in> (+) off ` set is \<and> b = hn then tn else if k \<in> (+) off ` set is \<and> b = tn then 0
      else if b = tn \<and> k = off + i then 0 else if b = hn \<and> k = off + i then tn else vmem s (fld b k))"
      unfolding u [OF that, symmetric] by (rule m(2) [rule_format, OF that])
    then show ?thesis using Cons.prems(5) by simp
  qed
  then show ?case using st m(1) by (intro exI [of _ m]) simp
qed

lemma free_ok_empty: "sreg s 3 = 0 \<Longrightarrow> free_ok w n s []"
  by (simp add: free_ok_def)

text \<open>The state after \<open>list_init\<close>: two linked sentinels, and all other blocks are free.\<close>

lemma list_init_state:
  assumes "2 \<le> n" and "0 < off" "off + ml \<le> w" and "0 < topf" "topf < w" "\<forall>i < ml. topf \<noteq> off + i"
  shows "\<exists>s' hn tn fs. list_init (4 * w) n off topf ml s = Some s' \<and>
    sreg s' 4 = hn \<and> sreg s' 5 = tn \<and> sreg s' 1 = of_nat n \<and> sreg s' 2 = 0 \<and> (\<forall>j. j \<notin> {1, 2, 3, 4, 5} \<longrightarrow> sreg s' j = sreg s j) \<and>
    vreg s' = vreg s \<and> more s' = more s \<and>
    free_ok w n s' fs \<and> distinct (hn # tn # fs) \<and> set (hn # tn # fs) = blocks w n \<and> length fs = n - 2 \<and>
    vmem s' hn = 0 \<and> vmem s' tn = 0xFFFFFFFF \<and> vmem s' (fld hn topf) = of_nat ml \<and> vmem s' (fld tn topf) = of_nat ml \<and>
    (\<forall>i < ml. vmem s' (fld hn (off + i)) = tn \<and> vmem s' (fld tn (off + i)) = 0)"
proof -
  let ?s0 = "set_sreg 3 0 s"
  obtain s1 where s1: "init_blocks (4 * w) [0..<n] ?s0 = Some s1" "free_ok w n s1 (rev (map (block w) [0..<n]))"
      "vreg s1 = vreg s" "more s1 = more s" "\<forall>j. j \<noteq> 3 \<longrightarrow> sreg s1 j = sreg s j"
    using init_blocks_free [of "[0..<n]" ?s0 "[]"] free_ok_empty [of ?s0] by (auto simp: set_sreg_def atLeast0LessThan)
  define bs where "bs = rev (map (block w) [0..<n])"
  have lp: "lpath (vmem s1) (sreg s1 3) bs 0" using s1(2) by (simp add: free_ok_def bs_def)
  have bs: "distinct bs" "set bs = blocks w n" "length bs = n"
    using lpath_distinct [OF lp] by (auto simp: bs_def blocks_def atLeast0LessThan)
  obtain hn bs1 where b1: "bs = hn # bs1" using bs(3) assms(1) by (cases bs) auto
  obtain tn fs where b2: "bs1 = tn # fs" using bs(3) assms(1) b1 by (cases bs1) auto
  obtain v where v: "alloc_memory_block s1 = Some (hn, set_sreg 3 v s1)" "free_ok w n (set_sreg 3 v s1) bs1"
    using alloc_memory_block_free(2) [OF s1(2)] b1 by (auto simp: bs_def)
  let ?s3 = "set_sreg 4 hn (set_sreg 3 v s1)"
  have f3: "free_ok w n ?s3 bs1" by (rule free_ok_cong [OF v(2)]) simp_all
  obtain u where u: "alloc_memory_block ?s3 = Some (tn, set_sreg 3 u ?s3)" "free_ok w n (set_sreg 3 u ?s3) fs"
    using alloc_memory_block_free(2) [OF f3] b2 by auto
  let ?s4 = "set_sreg 5 tn (set_sreg 3 u ?s3)"
  have hb: "hn \<in> blocks w n" "tn \<in> blocks w n" "hn \<noteq> tn" "set fs \<subseteq> blocks w n" "hn \<notin> set fs" "tn \<notin> set fs"
    using bs b1 b2 by auto
  let ?s8 = "?s4\<lparr>vmem := (vmem s1)(hn := 0, tn := 0xFFFFFFFF, fld hn topf := of_nat ml, fld tn topf := of_nat ml)\<rparr>"
  have "\<forall>i \<in> set [0..<ml]. off + i < w" using assms(3) by auto
  then obtain m where m: "init_nexts off [0..<ml] ?s8 = Some (?s8\<lparr>vmem := m\<rparr>)"
    "\<forall>b \<in> blocks w n. \<forall>k < w. m (fld b k) =
       (if k \<in> (+) off ` set [0..<ml] \<and> b = hn then tn else if k \<in> (+) off ` set [0..<ml] \<and> b = tn then 0 else vmem ?s8 (fld b k))"
    using init_nexts_links [of ?s8 hn tn "[0..<ml]" off] hb by auto
  let ?s' = "set_sreg 2 0 (set_sreg 1 (of_nat n) (?s8\<lparr>vmem := m\<rparr>))"
  have "list_init (4 * w) n off topf ml s = Some ?s'"
    using s1(1) v(1) u(1) m(1)
    by (simp add: list_init_def Let_def put_block [OF hb(1)] put_block [OF hb(2)] put_fld [OF hb(1) assms(5)] put_fld [OF hb(2) assms(5)])
  note step = this
  define m8 where "m8 = (vmem s1)(hn := 0, tn := 0xFFFFFFFF, fld hn topf := of_nat ml, fld tn topf := of_nat ml)"
  define S where "S = (+) off ` set [0..<ml]"
  have S: "0 \<notin> S" "topf \<notin> S" "i < ml \<Longrightarrow> off + i \<in> S" for i
    using assms(2,6) unfolding S_def image_iff by auto
  have v8: "vmem ?s8 = m8" by (simp add: m8_def)
  have mm: "m (fld b k) = (if k \<in> S \<and> b = hn then tn else if k \<in> S \<and> b = tn then 0 else m8 (fld b k))"
    if "b \<in> blocks w n" "k < w" for b k
    unfolding v8 [symmetric] S_def by (rule m(2) [rule_format, OF that])
  have m0: "m b = m8 b" if "b \<in> blocks w n" for b
    using mm [OF that width] S(1) by simp
  have e: "fld hn topf \<noteq> b" "fld tn topf \<noteq> b" if "b \<in> blocks w n" for b
    using that assms(4,5) hb(1,2) by (simp_all add: fld_eq_block)
  have e8: "m8 b = (if b = tn then 0xFFFFFFFF else if b = hn then 0 else vmem s1 b)" if "b \<in> blocks w n" for b
    using e [OF that] by (auto simp: m8_def)
  have key: "m hn = 0" "m tn = 0xFFFFFFFF" using m0 e8 hb(1-3) by simp_all
  have top: "m (fld hn topf) = of_nat ml" "m (fld tn topf) = of_nat ml"
    using mm [OF hb(1) assms(5)] mm [OF hb(2) assms(5)] S(2) by (simp_all add: m8_def)
  have nxt: "m (fld hn (off + i)) = tn \<and> m (fld tn (off + i)) = 0" if "i < ml" for i
    using mm [OF hb(1), of "off + i"] mm [OF hb(2), of "off + i"] hb(3) S(3) [OF that] that assms(3) by simp
  have fr: "free_ok w n ?s' fs"
  proof (rule free_ok_cong [OF u(2)])
    show "vmem ?s' b = vmem (set_sreg 3 u ?s3) b" if "b \<in> set fs" for b
    proof -
      have "b \<in> blocks w n" "b \<noteq> hn" "b \<noteq> tn" using that hb by auto
      then show ?thesis using m0 [of b] e8 [of b] by simp
    qed
  qed simp
  have "distinct (hn # tn # fs)" "set (hn # tn # fs) = blocks w n" "length fs = n - 2" using bs b1 b2 by auto
  then show ?thesis using s1(3-5) step key top nxt fr
    by (intro exI [of _ ?s'] exI [of _ hn] exI [of _ tn] exI [of _ fs]) (simp add: set_sreg_def)
qed

end

text \<open>Blocks of 64 bytes in the linked-list kernel and of 128 bytes in the skip-list kernel.\<close>

definition LL_NUM_MEM_BLOCKS :: nat where "LL_NUM_MEM_BLOCKS = VAULT_SIZE div 64"
definition SKP_NUM_MEM_BLOCKS :: nat where "SKP_NUM_MEM_BLOCKS = VAULT_SIZE div 128"

interpretation lb: block_layout 16 LL_NUM_MEM_BLOCKS
  by unfold_locales (simp_all add: LL_NUM_MEM_BLOCKS_def VAULT_SIZE_def)

interpretation sb: block_layout 32 SKP_NUM_MEM_BLOCKS
  by unfold_locales (simp_all add: SKP_NUM_MEM_BLOCKS_def VAULT_SIZE_def)

end
