(* ===== verification/PIM_SkipVault.thy ===== *)
theory PIM_SkipVault
  imports PIM_Vault Skip_Chain
begin

text \<open>
  Skip lists in the memory vault: the search, the insertion of a node in a newly allocated block and the
  unlinking of a node, as the linked-list kernel (for its initial nodes) and the skip-list kernel do
  them. The two kernels lay out a node differently: \<open>off\<close> is the word of \<open>next[0]\<close> and \<open>topf\<close> the word of
  \<open>top_level\<close>; the key is at word 0 in both. Links are read and written in the flat memory, so that a link
  never overlaps a key, a height or another node is proved here, for layouts that satisfy
  \<open>skip_layout\<close>.
\<close>

definition vs_rd :: "nat \<Rightarrow> vmem \<Rightarrow> nat \<Rightarrow> u32 \<Rightarrow> (u32 \<times> u32) option" where
  "vs_rd off m l p = do { k \<leftarrow> vrd m (fld p 0); n \<leftarrow> vrd m (fld p (off + l)); Some (k, n) }"

definition vs_next :: "nat \<Rightarrow> ('r, 'm) pim_scheme \<Rightarrow> nat \<Rightarrow> u32 \<Rightarrow> u32 option" where
  "vs_next off s l p = vrd (vmem s) (fld p (off + l))"

definition vs_set_next :: "nat \<Rightarrow> nat \<Rightarrow> u32 \<Rightarrow> u32 \<Rightarrow> ('r, 'm) pim_scheme \<Rightarrow> ('r, 'm) pim_scheme option" where
  "vs_set_next off l p v s = put p (off + l) v s"

text \<open>The block is not checked to exist: without one, the write goes to address \<open>0\<close>.\<close>

definition vs_add :: "nat \<Rightarrow> nat \<Rightarrow> u32 \<Rightarrow> u32 \<Rightarrow> (nat \<rightharpoonup> u32) \<Rightarrow> (nat \<rightharpoonup> u32) \<Rightarrow> ('r, 'm) pim_scheme \<Rightarrow> ('r, 'm) pim_scheme option" where
  "vs_add off topf tlv param preds succs s =
     do { (new, s1) \<leftarrow> alloc_memory_block s;
          s2 \<leftarrow> put new topf tlv s1;
          s3 \<leftarrow> put new 0 param s2;
          t \<leftarrow> vrd (vmem s3) (fld new topf);
          link_levels (vs_set_next off) [0..<unat t] new preds succs s3 }"

definition vs_remove :: "nat \<Rightarrow> nat \<Rightarrow> u32 \<Rightarrow> (nat \<rightharpoonup> u32) \<Rightarrow> ('r, 'm) pim_scheme \<Rightarrow> ('r, 'm) pim_scheme option" where
  "vs_remove off topf found preds s =
     do { t \<leftarrow> vrd (vmem s) (fld found topf);
          unlink_levels (vs_next off) (vs_set_next off) (rev [0..<unat t]) found preds s }"

definition vs_link :: "nat \<Rightarrow> vmem \<Rightarrow> nat \<Rightarrow> u32 \<Rightarrow> u32" where
  "vs_link off m l b = m (fld b (off + l))"

definition vs_height :: "nat \<Rightarrow> vmem \<Rightarrow> u32 \<Rightarrow> nat" where
  "vs_height topf m b = unat (m (fld b topf))"

text \<open>The nodes \<open>as\<close> form a skip list of \<open>cml\<close> levels between the sentinels; \<open>fs\<close> are the free blocks.\<close>

definition vs_nodes :: "nat \<Rightarrow> nat \<Rightarrow> nat \<Rightarrow> nat \<Rightarrow> nat \<Rightarrow> ('r, 'm) pim_scheme \<Rightarrow> u32 list \<Rightarrow> u32 list \<Rightarrow> bool" where
  "vs_nodes w n off topf cml s as fs \<longleftrightarrow>
     skip_ok (vs_link off (vmem s)) (vmem s) (vs_height topf (vmem s)) (sreg s 4) cml as \<and>
     vmem s (sreg s 4) = 0 \<and> vmem s (last as) = 0xFFFFFFFF \<and> sreg s 5 = last as \<and>
     (\<forall>a \<in> set as. a \<noteq> sreg s 4 \<longrightarrow> a \<noteq> last as \<longrightarrow> vs_height topf (vmem s) a \<le> cml) \<and>
     free_ok w n s fs \<and> set as \<inter> set fs = {} \<and> set as \<subseteq> blocks w n"

definition vs_keys :: "('r, 'm) pim_scheme \<Rightarrow> u32 list \<Rightarrow> u32 set" where
  "vs_keys s as = keys_between 0 0xFFFFFFFF (vmem s) as"

locale skip_layout = block_layout +
  fixes off topf ml :: nat
  assumes links: "0 < off" "off + ml \<le> w" and top: "0 < topf" "topf < w" "l < ml \<Longrightarrow> off + l \<noteq> topf"
begin

abbreviation nodes :: "nat \<Rightarrow> ('r, 'm) pim_scheme \<Rightarrow> u32 list \<Rightarrow> u32 list \<Rightarrow> bool" where
  "nodes \<equiv> vs_nodes w n off topf"

text \<open>What link writes leave alone: registers, and in every block the key and the height.\<close>

definition kept :: "('r, 'm) pim_scheme \<Rightarrow> ('r, 'm) pim_scheme \<Rightarrow> bool" where
  "kept s s' \<longleftrightarrow> sreg s' = sreg s \<and> vreg s' = vreg s \<and> more s' = more s \<and>
     (\<forall>b \<in> blocks w n. vmem s' b = vmem s b \<and> vmem s' (fld b topf) = vmem s (fld b topf))"

lemma set_next_links:
  assumes a: "a \<in> blocks w n" and l: "l < ml"
  shows "\<exists>s'. vs_set_next off l a v s = Some s' \<and> kept s s' \<and>
    (\<forall>k b. k < ml \<and> b \<in> blocks w n \<longrightarrow> vs_next off s' k b = (if k = l \<and> b = a then Some v else vs_next off s k b))"
proof -
  let ?s = "s\<lparr>vmem := (vmem s)(fld a (off + l) := v)\<rparr>"
  have lw: "off + l < w" using links l by simp
  have "vs_set_next off l a v s = Some ?s" using a lw by (simp add: vs_set_next_def)
  moreover have "kept s ?s"
    using a lw links top l by (auto simp: kept_def fld_eq fld_eq_block)
  moreover have "vs_next off ?s k b = (if k = l \<and> b = a then Some v else vs_next off s k b)" if "k < ml" "b \<in> blocks w n" for k b
    using that a lw links by (auto simp: vs_next_def fld_eq)
  ultimately show ?thesis by blast
qed

sublocale skip_links: link_memory "vs_next off" "vs_set_next off" "\<lambda>_ a. a \<in> blocks w n" kept ml "\<lambda>l b. l < ml \<and> b \<in> blocks w n"
  by unfold_locales (rule set_next_links, assumption+, simp_all add: kept_def)

lemma vs_next_link [simp]: "b \<in> blocks w n \<Longrightarrow> l < ml \<Longrightarrow> vs_next off s l b = Some (vs_link off (vmem s) l b)"
  using links by (simp add: vs_next_def vs_link_def)

lemma nodesD:
  assumes "nodes cml s as fs"
  shows "skip_ok (vs_link off (vmem s)) (vmem s) (vs_height topf (vmem s)) (sreg s 4) cml as"
    "vmem s (sreg s 4) = 0" "vmem s (last as) = 0xFFFFFFFF"
    "a \<in> set as \<Longrightarrow> a \<noteq> sreg s 4 \<Longrightarrow> a \<noteq> last as \<Longrightarrow> vs_height topf (vmem s) a \<le> cml"
    "free_ok w n s fs" "set as \<inter> set fs = {}" "set as \<subseteq> blocks w n" "set fs \<subseteq> blocks w n" "0 \<notin> set as" "sreg s 5 = last as"
  using assms block_nonnull [of 0] by (auto simp: vs_nodes_def free_ok_def)

text \<open>The search.\<close>

lemma nodes_find:
  assumes N: "nodes cml s as fs" and cml: "cml \<le> ml" and p: "0 < p"
  shows "\<exists>r. find_nodes (vs_rd off (vmem s)) p stop cml (sreg s 4) 0 P Q = Some r \<and>
    descended (vmem s) (vs_height topf (vmem s)) as p stop cml 0 P Q r"
proof (rule find_nodes_descends [OF nodesD(1) [OF N] _ nodesD(9) [OF N]])
  have ok: "skip_ok (vs_link off (vmem s)) (vmem s) (vs_height topf (vmem s)) (sreg s 4) cml as" by (rule nodesD(1) [OF N])
  have "vs_rd off (vmem s) l a = Some (vmem s a, vs_link off (vmem s) l a)" if "a \<in> set as" "l < cml" for a l
    using that nodesD(7) [OF N] cml links by (auto simp: vs_rd_def vs_link_def)
  then show "reads (vs_rd off (vmem s)) (vs_link off (vmem s)) (vmem s) (vs_height topf (vmem s)) (sreg s 4) cml as"
    by (simp add: reads_def)
  show "vmem s (sreg s 4) < p" "vmem s (sreg s 4) < p" using nodesD(2) [OF N] p by simp_all
  show "p \<le> vmem s (last as)" using nodesD(3) [OF N] by simp
  show "sreg s 4 \<in> set as" using skip_okD(1,2) [OF ok] hd_in_set by metis
  show "cml \<le> vs_height topf (vmem s) (sreg s 4)" by (rule skip_okD(4) [OF ok])
qed simp_all

text \<open>Insertion in the first free block.\<close>

lemma nodes_add:
  fixes tlv :: u32
  assumes N: "nodes cml s as (a # fs)" and cml: "cml \<le> ml" and k: "0 < unat tlv" "unat tlv \<le> cml" and p: "0 < p" "p < 0xFFFFFFFF"
    and new: "\<forall>b \<in> set as. vmem s b \<noteq> p"
    and ps: "\<And>l. l < cml \<Longrightarrow> preds l = Some (pred_at (vmem s) (vs_height topf (vmem s)) as p l)"
      "\<And>l. l < cml \<Longrightarrow> succs l = Some (succ_at (vmem s) (vs_height topf (vmem s)) as p l)"
  shows "\<exists>s'. vs_add off topf tlv p preds succs s = Some s' \<and>
    nodes cml s' (before (vmem s) p as @ a # from_on (vmem s) p as) fs \<and>
    vs_keys s' (before (vmem s) p as @ a # from_on (vmem s) p as) = insert p (vs_keys s as) \<and>
    vreg s' = vreg s \<and> more s' = more s \<and> (\<forall>j. j \<noteq> 3 \<longrightarrow> sreg s' j = sreg s j)"
proof -
  note D = nodesD [OF N]
  let ?P = "pred_at (vmem s) (vs_height topf (vmem s)) as p" and ?S = "succ_at (vmem s) (vs_height topf (vmem s)) as p"
  let ?as = "before (vmem s) p as @ a # from_on (vmem s) p as"
  let ?s1 = "set_sreg 3 (vmem s a) s"
  define s3 where "s3 = ?s1\<lparr>vmem := (vmem s)(fld a topf := tlv, a := p)\<rparr>"
  have a: "a \<in> blocks w n" "a \<noteq> 0" "sreg s 3 = a" "a \<notin> set as" "a \<notin> set fs" "lpath (vmem s) (vmem s a) fs 0" "set fs \<subseteq> blocks w n"
    using D(5,6) lpath_distinct [of "vmem s" "sreg s 3" "a # fs"] by (auto simp: free_ok_def)
  have al: "alloc_memory_block s = Some (a, ?s1)" using a by (simp add: alloc_memory_block_def)
  have khn: "vmem s (sreg s 4) < p" and kl: "p < vmem s (last as)" using p D(2,3) by simp_all
  have P: "?P l \<in> set as" if "l < unat tlv" for l using pred_at_props(2) [OF D(1) _ khn] that k(2) by simp
  have "\<exists>s'. link_levels (vs_set_next off) [0..<unat tlv] a preds succs s3 = Some s' \<and> kept s3 s' \<and>
    (\<forall>l b. l < ml \<and> b \<in> blocks w n \<longrightarrow> vs_next off s' l b =
      (if l \<in> set [0..<unat tlv] \<and> b = a then Some (?S l) else if l \<in> set [0..<unat tlv] \<and> b = ?P l then Some a else vs_next off s3 l b))"
  proof (rule skip_links.link_levels_links)
    show "l < ml \<and> succs l = Some (?S l) \<and> preds l = Some (?P l) \<and> ?P l \<in> blocks w n \<and> ?P l \<noteq> a" if "l \<in> set [0..<unat tlv]" for l
      using that k cml ps P [of l] D(7) a(4) by auto
  qed (use a in auto)
  then obtain s' where e: "link_levels (vs_set_next off) [0..<unat tlv] a preds succs s3 = Some s'" and kp: "kept s3 s'"
    and nx: "\<And>l b. l < ml \<Longrightarrow> b \<in> blocks w n \<Longrightarrow> vs_next off s' l b =
      (if l < unat tlv \<and> b = a then Some (?S l) else if l < unat tlv \<and> b = ?P l then Some a else vs_next off s3 l b)"
    by auto
  have m3: "vmem s3 b = (if b = a then p else vmem s b)" "vmem s3 (fld b topf) = (if b = a then tlv else vmem s (fld b topf))"
    if "b \<in> blocks w n" for b
    using that a(1) top by (auto simp: s3_def fld_eq fld_eq_block)
  have n3: "vs_next off s3 l b = vs_next off s l b" if "b \<in> blocks w n" "l < ml" for l b
    using that a(1) top links by (auto simp: s3_def vs_next_def fld_eq fld_eq_block)
  have ky: "vmem s' b = (if b = a then p else vmem s b)" "vs_height topf (vmem s') b = (if b = a then unat tlv else vs_height topf (vmem s) b)"
    if "b \<in> blocks w n" for b
    using that kp m3 [OF that] by (auto simp: kept_def vs_height_def)
  have in_b: "b \<in> blocks w n" "b \<noteq> a" if "b \<in> set as" for b using that D(7) a(4) by auto
  have lk: "vs_link off (vmem s') l b = (if l < unat tlv \<and> b = a then ?S l else if l < unat tlv \<and> b = ?P l then a else vs_link off (vmem s) l b)"
    if "l < ml" "b \<in> blocks w n" for l b
    using nx [OF that] n3 [OF that(2,1)] that by (auto split: if_splits)
  have rg: "sreg s' = (sreg s)(3 := vmem s a)" "vreg s' = vreg s" "more s' = more s"
    using kp by (simp_all add: kept_def s3_def set_sreg_def)
  have ok: "skip_ok (vs_link off (vmem s')) (vmem s') (vs_height topf (vmem s')) (sreg s 4) cml ?as"
  proof (rule skip_insert [OF D(1) k khn kl new a(2,4)])
    show "vmem s' a = p" "vs_height topf (vmem s') a = unat tlv" using ky a(1) by auto
    show "vmem s' b = vmem s b" "vs_height topf (vmem s') b = vs_height topf (vmem s) b" if "b \<in> set as" for b
      using ky in_b [OF that] by auto
    show "vs_link off (vmem s') l a = ?S l" "vs_link off (vmem s') l (?P l) = a" if "l < unat tlv" for l
      using that k(2) cml lk [of l] a(1) P [OF that] in_b [of "?P l"] by auto
    show "vs_link off (vmem s') l b = vs_link off (vmem s) l b" if "l < cml" "b \<in> set as" "\<not> (l < unat tlv \<and> b = ?P l)" for l b
      using that cml lk [of l b] in_b [of b] by auto
  qed
  have sub: "set ?as = insert a (set as)" using sorted_split [OF skip_okD(7) [OF D(1)], of p]
    by (metis Un_insert_right list.simps(15) set_append)
  have li: "last as \<in> set as" "last as \<noteq> a" using skip_okD(1) [OF D(1)] in_b(2) [of "last as"] by auto
  have la: "last ?as = last as"
  proof -
    have "last as \<in> set (from_on (vmem s) p as)" using li(1) kl by (simp add: from_on_def order_less_imp_le)
    then have ne: "from_on (vmem s) p as \<noteq> []" by auto
    have "last as = last (before (vmem s) p as @ from_on (vmem s) p as)"
      by (rule arg_cong [OF sorted_split [OF skip_okD(7) [OF D(1)]]])
    then show ?thesis using ne by simp
  qed
  have hn: "sreg s 4 \<in> set as" using skip_okD(1,2) [OF D(1)] hd_in_set by metis
  have fr: "free_ok w n s' fs"
  proof -
    have "vmem s b = vmem s' b" if "b \<in> set fs" for b using that ky(1) [of b] a(5,7) by auto
    then have "lpath (vmem s) (vmem s a) fs 0 \<longleftrightarrow> lpath (vmem s') (vmem s a) fs 0" by (rule lpath_cong)
    then show ?thesis using a(6,7) rg(1) by (simp add: free_ok_def)
  qed
  have "vs_height topf (vmem s') b \<le> cml" if "b \<in> set ?as" "b \<noteq> sreg s 4" "b \<noteq> last as" for b
    using that sub ky(2) [of b] D(4) [of b] in_b [of b] a(1) k(2) by (cases "b = a") auto
  then have "nodes cml s' ?as fs"
    using ok fr D(6) a(1,5) in_b hn la li ky(1) [of "sreg s 4"] ky(1) [of "last as"] D(2,3,10) rg(1)
    unfolding vs_nodes_def sub by (auto simp: la)
  moreover have "vs_keys s' ?as = insert p (vs_keys s as)"
  proof -
    have sp: "before (vmem s) p as @ from_on (vmem s) p as = as" using sorted_split [OF skip_okD(7) [OF D(1)], of p] by simp
    have "vmem s' a = p" using ky(1) a(1) by simp
    then show ?thesis
      using keys_between_insert [of "before (vmem s) p as" "from_on (vmem s) p as" "vmem s'" "vmem s" 0 a "0xFFFFFFFF"] sp ky(1) in_b p
      unfolding vs_keys_def by simp
  qed
  moreover have "vs_add off topf tlv p preds succs s = Some s'"
  proof -
    have t: "vrd (vmem s3) (fld a topf) = Some tlv" using m3(2) [OF a(1)] a(1) top by simp
    have s3: "put a 0 p (?s1\<lparr>vmem := (vmem s)(fld a topf := tlv)\<rparr>) = Some s3" by (simp add: s3_def put_block [OF a(1)])
    show ?thesis using al t e s3 put_fld [OF a(1) top(2), of tlv ?s1] by (simp add: vs_add_def)
  qed
  ultimately show ?thesis using rg by auto
qed

text \<open>The node found is unlinked at all its levels; its block does not return to the free list here.\<close>

lemma nodes_remove:
  assumes N: "nodes cml s as fs" and cml: "cml \<le> ml" and p: "0 < p" "p < 0xFFFFFFFF" and c: "c \<in> set as" "vmem s c = p"
    and ps: "\<And>l. l < cml \<Longrightarrow> preds l = Some (pred_at (vmem s) (vs_height topf (vmem s)) as p l)"
  shows "\<exists>s' ds. vs_remove off topf c preds s = Some s' \<and> nodes cml s' (before (vmem s) p as @ ds) fs \<and>
    vs_keys s' (before (vmem s) p as @ ds) = vs_keys s as - {p} \<and> sreg s' = sreg s \<and> vreg s' = vreg s \<and> more s' = more s"
proof -
  note D = nodesD [OF N]
  let ?P = "pred_at (vmem s) (vs_height topf (vmem s)) as p" and ?us = "before (vmem s) p as" and ?k = "vs_height topf (vmem s) c"
  have khn: "vmem s (sreg s 4) < p" and kl: "p < vmem s (last as)" using p D(2,3) by simp_all
  obtain ds where ds: "from_on (vmem s) p as = c # ds" using from_on_Cons [OF D(1) c] by blast
  have ne: "c \<noteq> sreg s 4" "c \<noteq> last as" using khn kl c(2) by auto
  have lvc: "?k \<le> cml" using D(4) [OF c(1) ne] .
  have cb: "c \<in> blocks w n" using c(1) D(7) by auto
  have P: "?P l \<in> set as" "?P l \<noteq> c" if "l < cml" for l
    using pred_at_props(2,4) [OF D(1) that khn] c(2) by auto
  have "\<exists>s'. unlink_levels (vs_next off) (vs_set_next off) (rev [0..<?k]) c preds s = Some s' \<and> kept s s' \<and>
    (\<forall>l b. l < ml \<and> b \<in> blocks w n \<longrightarrow> vs_next off s' l b =
      (if l \<in> set (rev [0..<?k]) \<and> b = ?P l then Some (vs_link off (vmem s) l c) else vs_next off s l b))"
  proof (rule skip_links.unlink_levels_links)
    show "l < ml \<and> vs_next off s l c = Some (vs_link off (vmem s) l c) \<and> preds l = Some (?P l) \<and> ?P l \<in> blocks w n \<and> ?P l \<noteq> c \<and>
        l < ml \<and> c \<in> blocks w n" if "l \<in> set (rev [0..<?k])" for l
      using that lvc cml ps P [of l] cb D(7) by auto
  qed simp
  then obtain s' where e: "unlink_levels (vs_next off) (vs_set_next off) (rev [0..<?k]) c preds s = Some s'" and kp: "kept s s'"
    and nx: "\<And>l b. l < ml \<Longrightarrow> b \<in> blocks w n \<Longrightarrow> vs_next off s' l b =
      (if l < ?k \<and> b = ?P l then Some (vs_link off (vmem s) l c) else vs_next off s l b)"
    by auto
  have ky: "vmem s' b = vmem s b" "vs_height topf (vmem s') b = vs_height topf (vmem s) b" if "b \<in> blocks w n" for b
    using that kp by (simp_all add: kept_def vs_height_def)
  have lk: "vs_link off (vmem s') l b = (if l < ?k \<and> b = ?P l then vs_link off (vmem s) l c else vs_link off (vmem s) l b)"
    if "l < ml" "b \<in> blocks w n" for l b
    using nx [OF that] that by (auto split: if_splits)
  have rg: "sreg s' = sreg s" "vreg s' = vreg s" "more s' = more s" using kp by (simp_all add: kept_def)
  have sk: "sorted_keys (vmem s) (?us @ c # ds)" using skip_okD(7) [OF D(1)] sorted_split [OF skip_okD(7) [OF D(1)], of p] ds by simp
  have in_as: "b \<in> set as" "b \<noteq> c" "b \<in> blocks w n" if "b \<in> set (?us @ ds)" for b
  proof -
    have "b \<in> set (?us @ c # ds)" using that by auto
    then show "b \<in> set as" unfolding ds [symmetric] by (auto simp: before_def from_on_def)
    then show "b \<in> blocks w n" using D(7) by auto
    show "b \<noteq> c" using that sk by (auto simp: path_simps)
  qed
  have ok: "skip_ok (vs_link off (vmem s')) (vmem s') (vs_height topf (vmem s')) (sreg s 4) cml (?us @ ds)"
  proof (rule skip_remove [OF D(1) khn kl ds c(2)])
    show "vmem s' b = vmem s b" "vs_height topf (vmem s') b = vs_height topf (vmem s) b" if "b \<in> set as" "b \<noteq> c" for b
      using ky D(7) that by auto
    show "vs_link off (vmem s') l (?P l) = vs_link off (vmem s) l c" if "l < cml" "l < ?k" for l
      using that cml lk [of l "?P l"] P [of l] D(7) by auto
    show "vs_link off (vmem s') l b = vs_link off (vmem s) l b" if "l < cml" "b \<in> set as" "b \<noteq> c" "\<not> (l < ?k \<and> b = ?P l)" for l b
      using that cml lk [of l b] D(7) by auto
  qed
  have lst: "last (?us @ ds) = last as"
  proof -
    have "last as = last (?us @ c # ds)" using sorted_split [OF skip_okD(7) [OF D(1)], of p] ds by simp
    then show ?thesis using ne(2) by (auto split: if_splits)
  qed
  have hn: "sreg s 4 \<in> blocks w n" using skip_okD(1,2) [OF D(1)] hd_in_set D(7) by (metis subsetD)
  have lb: "last as \<in> blocks w n" using skip_okD(1) [OF D(1)] D(7) by auto
  have fr: "free_ok w n s' fs" by (rule free_ok_cong [OF D(5)]) (use rg ky(1) D(8) in auto)
  have dj: "set (?us @ ds) \<inter> set fs = {}" "set (?us @ ds) \<subseteq> blocks w n" using in_as D(6) by blast+
  have hb: "\<forall>a \<in> set (?us @ ds). a \<noteq> sreg s' 4 \<longrightarrow> a \<noteq> last (?us @ ds) \<longrightarrow> vs_height topf (vmem s') a \<le> cml"
    using D(4) in_as ky(2) lst rg(1) by metis
  have "nodes cml s' (?us @ ds) fs"
    unfolding vs_nodes_def using ok fr dj hb lst ky(1) [OF hn] ky(1) [OF lb] D(2,3,10) rg(1) by metis
  moreover have "vs_keys s' (?us @ ds) = vs_keys s as - {p}"
  proof -
    have "as = ?us @ c # ds" using sorted_split [OF skip_okD(7) [OF D(1)], of p] ds by simp
    then show ?thesis
      using keys_between_remove [OF sk, of "vmem s'" 0 "0xFFFFFFFF"] ky(1) in_as(3) c(2) unfolding vs_keys_def by simp
  qed
  moreover have "vs_remove off topf c preds s = Some s'"
    using e top cb by (simp add: vs_remove_def vs_height_def)
  ultimately show ?thesis using rg by blast
qed

text \<open>The empty list that \<open>list_init\<close> leaves.\<close>

lemma list_init_nodes:
  assumes "2 \<le> n" and cml: "0 < cml" "cml \<le> ml"
  shows "\<exists>s' fs. list_init (4 * w) n off topf ml s = Some s' \<and> nodes cml s' [sreg s' 4, sreg s' 5] fs \<and>
    vs_keys s' [sreg s' 4, sreg s' 5] = {} \<and> length fs = n - 2 \<and> {sreg s' 4, sreg s' 5} \<union> set fs = blocks w n \<and>
    vreg s' = vreg s \<and> more s' = more s \<and> (\<forall>j. j \<notin> {1, 2, 3, 4, 5} \<longrightarrow> sreg s' j = sreg s j) \<and>
    sreg s' 1 = of_nat n \<and> sreg s' 2 = 0"
proof -
  have "\<forall>i < ml. topf \<noteq> off + i" using top(3) by metis
  from list_init_state [OF assms(1) links top(1,2) this, of s] obtain s' hn tn fs where I:
    "list_init (4 * w) n off topf ml s = Some s'" "sreg s' 4 = hn" "sreg s' 5 = tn" "sreg s' 1 = of_nat n" "sreg s' 2 = 0"
    "\<forall>j. j \<notin> {1, 2, 3, 4, 5} \<longrightarrow> sreg s' j = sreg s j" "vreg s' = vreg s" "more s' = more s"
    "free_ok w n s' fs" "distinct (hn # tn # fs)" "set (hn # tn # fs) = blocks w n" "length fs = n - 2"
    "vmem s' hn = 0" "vmem s' tn = 0xFFFFFFFF" "vmem s' (fld hn topf) = of_nat ml" "vmem s' (fld tn topf) = of_nat ml"
    "\<forall>i < ml. vmem s' (fld hn (off + i)) = tn \<and> vmem s' (fld tn (off + i)) = 0"
    by blast
  have "ml < 2 ^ LENGTH(32)"
  proof -
    have "1 * (4 * w) \<le> n * (4 * w)" using assms(1) by (intro mult_le_mono1) simp
    then have "4 * w \<le> VAULT_SIZE" using fits by linarith
    then show ?thesis using links by (simp add: VAULT_SIZE_def)
  qed
  then have ht: "vs_height topf (vmem s') hn = ml" "vs_height topf (vmem s') tn = ml"
    using I(15,16) unfolding vs_height_def by (simp_all only: unat_of_nat mod_less)
  have b: "hn \<in> blocks w n" "tn \<in> blocks w n" "hn \<noteq> tn" using I(10,11) by auto
  note nz = block_nonnull [OF b(1)] block_nonnull [OF b(2)]
  have lv: "at_level (vs_height topf (vmem s')) l [hn, tn] = [hn, tn]" if "l < cml" for l using that cml ht by simp
  have "skip_ok (vs_link off (vmem s')) (vmem s') (vs_height topf (vmem s')) hn cml [hn, tn]"
    unfolding skip_ok_def using ht cml I(13,14,17) b nz
    by (auto simp: sorted_keys_def sorted_chain_def lv vs_link_def simp del: level_Cons)
  then have "nodes cml s' [hn, tn] fs" unfolding vs_nodes_def using I b by auto
  moreover have "vs_keys s' [hn, tn] = {}" using I(13,14) by (auto simp: vs_keys_def keys_between_def)
  ultimately show ?thesis using I by (intro exI [of _ s'] exI [of _ fs]) auto
qed

end

text \<open>The layouts of the two kernels.\<close>

interpretation lbs: skip_layout 16 LL_NUM_MEM_BLOCKS 1 15 14
  by unfold_locales simp_all

interpretation sbs: skip_layout 32 SKP_NUM_MEM_BLOCKS 2 1 30
  by unfold_locales simp_all

end
