(* ===== verification/PIM_Sort.thy ===== *)
theory PIM_Sort
  imports SMC_Prelude "HOL-Library.Multiset"
begin

text \<open>
  The sort of the pending requests in the linked-list kernel (\<open>SW/PIM/kernels/clean_linked_list.c\<close>): a
  quicksort with Hoare's partition on an array of request pointers. Indices are \<open>int\<close>s and an
  index outside the array has no outcome (\<^const>\<open>None\<close>). \<open>par\<close> gives the parameter a request
  pointer leads to; the comparison with the \<open>int\<close> pivot is unsigned, because the other operand is.

  The loops have no bound of their own: that both scans stay inside the array, that the partition
  makes progress and that the sort returns is part of what is proved.
\<close>

named_theorems sort_simps \<open>array accesses\<close>

definition arr_get :: "'a list \<Rightarrow> int \<Rightarrow> 'a option" where
  "arr_get xs i = (if 0 \<le> i \<and> i < int (length xs) then Some (xs ! nat i) else None)"

definition arr_swap :: "'a list \<Rightarrow> int \<Rightarrow> int \<Rightarrow> 'a list option" where
  "arr_swap xs i j = do { x \<leftarrow> arr_get xs i; y \<leftarrow> arr_get xs j; Some (xs[nat i := y, nat j := x]) }"

partial_function (option) scan_up :: "('a \<Rightarrow> u32) \<Rightarrow> u32 \<Rightarrow> 'a list \<Rightarrow> int \<Rightarrow> int option" where
  "scan_up par pivot xs i =
     (case arr_get xs (i + 1) of
        None \<Rightarrow> None
      | Some x \<Rightarrow> if par x < pivot then scan_up par pivot xs (i + 1) else Some (i + 1))"

partial_function (option) scan_down :: "('a \<Rightarrow> u32) \<Rightarrow> u32 \<Rightarrow> 'a list \<Rightarrow> int \<Rightarrow> int option" where
  "scan_down par pivot xs j =
     (case arr_get xs (j - 1) of
        None \<Rightarrow> None
      | Some x \<Rightarrow> if pivot < par x then scan_down par pivot xs (j - 1) else Some (j - 1))"

partial_function (option) partition_loop ::
  "('a \<Rightarrow> u32) \<Rightarrow> u32 \<Rightarrow> int \<Rightarrow> int \<Rightarrow> 'a list \<Rightarrow> (int \<times> 'a list) option" where
  "partition_loop par pivot i j xs =
     do { i' \<leftarrow> scan_up par pivot xs i;
          j' \<leftarrow> scan_down par pivot xs j;
          if j' \<le> i' then Some (j', xs)
          else do { xs' \<leftarrow> arr_swap xs i' j'; partition_loop par pivot i' j' xs' } }"

definition hoare_partition :: "('a \<Rightarrow> u32) \<Rightarrow> int \<Rightarrow> int \<Rightarrow> 'a list \<Rightarrow> (int \<times> 'a list) option" where
  "hoare_partition par lo hi xs =
     do { x \<leftarrow> arr_get xs lo; partition_loop par (par x) (lo - 1) (hi + 1) xs }"

partial_function (option) quicksort :: "('a \<Rightarrow> u32) \<Rightarrow> int \<Rightarrow> int \<Rightarrow> 'a list \<Rightarrow> 'a list option" where
  "quicksort par lo hi xs =
     (if lo < hi then
        do { (p, xs1) \<leftarrow> hoare_partition par lo hi xs;
             xs2 \<leftarrow> quicksort par lo p xs1;
             quicksort par (p + 1) hi xs2 }
      else Some xs)"

subsection \<open>The scans\<close>

text \<open>A scan finds the next element that is not on the wrong side, provided there is one.\<close>

lemma scan_up_finds:
  assumes "-1 \<le> i" and "i < m" and "m < int (length xs)" and "\<not> par (xs ! nat m) < pivot"
  shows "\<exists>r. scan_up par pivot xs i = Some r \<and> i < r \<and> r \<le> m \<and> \<not> par (xs ! nat r) < pivot \<and>
    (\<forall>k. i < k \<and> k < r \<longrightarrow> par (xs ! nat k) < pivot)"
  using assms
proof (induction "nat (m - i)" arbitrary: i rule: less_induct)
  case less
  have g: "arr_get xs (i + 1) = Some (xs ! nat (i + 1))" using less.prems by (simp add: arr_get_def)
  show ?case
  proof (cases "par (xs ! nat (i + 1)) < pivot")
    case True
    then have ne: "i + 1 \<noteq> m" using less.prems(4) by auto
    obtain r where r: "scan_up par pivot xs (i + 1) = Some r" "i + 1 < r" "r \<le> m" "\<not> par (xs ! nat r) < pivot"
        "\<forall>k. i + 1 < k \<and> k < r \<longrightarrow> par (xs ! nat k) < pivot"
      using less.hyps [of "i + 1"] less.prems ne by auto
    have "par (xs ! nat k) < pivot" if "i < k" "k < r" for k
      using r(5) True that by (cases "k = i + 1") auto
    moreover have "scan_up par pivot xs i = Some r" using g True r(1) by (subst scan_up.simps) simp
    ultimately show ?thesis using r by (intro exI [of _ r]) auto
  next
    case False
    have "scan_up par pivot xs i = Some (i + 1)" using g False by (subst scan_up.simps) simp
    then show ?thesis using False less.prems by (intro exI [of _ "i + 1"]) auto
  qed
qed

lemma scan_down_finds:
  assumes "j \<le> int (length xs)" and "m < j" and "0 \<le> m" and "\<not> pivot < par (xs ! nat m)"
  shows "\<exists>r. scan_down par pivot xs j = Some r \<and> m \<le> r \<and> r < j \<and> \<not> pivot < par (xs ! nat r) \<and>
    (\<forall>k. r < k \<and> k < j \<longrightarrow> pivot < par (xs ! nat k))"
  using assms
proof (induction "nat (j - m)" arbitrary: j rule: less_induct)
  case less
  have g: "arr_get xs (j - 1) = Some (xs ! nat (j - 1))" using less.prems by (simp add: arr_get_def)
  show ?case
  proof (cases "pivot < par (xs ! nat (j - 1))")
    case True
    then have ne: "j - 1 \<noteq> m" using less.prems(4) by auto
    obtain r where r: "scan_down par pivot xs (j - 1) = Some r" "m \<le> r" "r < j - 1" "\<not> pivot < par (xs ! nat r)"
        "\<forall>k. r < k \<and> k < j - 1 \<longrightarrow> pivot < par (xs ! nat k)"
      using less.hyps [of "j - 1"] less.prems ne by auto
    have "pivot < par (xs ! nat k)" if "r < k" "k < j" for k
      using r(5) True that by (cases "k = j - 1") auto
    moreover have "scan_down par pivot xs j = Some r" using g True r(1) by (subst scan_down.simps) simp
    ultimately show ?thesis using r by (intro exI [of _ r]) auto
  next
    case False
    have "scan_down par pivot xs j = Some (j - 1)" using g False by (subst scan_down.simps) simp
    then show ?thesis using False less.prems by (intro exI [of _ "j - 1"]) auto
  qed
qed

subsection \<open>The partition\<close>

text \<open>
  The loop invariant: everything up to \<open>i\<close> is at most the pivot, everything from \<open>j\<close> on at least, and
  each scan has an element to stop at. In the first round the pivot itself, at \<open>lo\<close>, stops both.
\<close>

definition part_inv :: "('a \<Rightarrow> u32) \<Rightarrow> u32 \<Rightarrow> int \<Rightarrow> int \<Rightarrow> int \<Rightarrow> int \<Rightarrow> 'a list \<Rightarrow> bool" where
  "part_inv par pivot lo hi i j xs \<longleftrightarrow>
     0 \<le> lo \<and> lo < hi \<and> hi < int (length xs) \<and>
     (\<forall>k. lo \<le> k \<and> k \<le> i \<longrightarrow> par (xs ! nat k) \<le> pivot) \<and> (\<forall>k. j \<le> k \<and> k \<le> hi \<longrightarrow> pivot \<le> par (xs ! nat k)) \<and>
     (i = lo - 1 \<and> j = hi + 1 \<and> par (xs ! nat lo) = pivot \<or> lo \<le> i \<and> i < j \<and> j \<le> hi)"

definition same_outside :: "int \<Rightarrow> int \<Rightarrow> 'a list \<Rightarrow> 'a list \<Rightarrow> bool" where
  "same_outside lo hi xs ys \<longleftrightarrow> mset ys = mset xs \<and> take (nat lo) ys = take (nat lo) xs \<and> drop (nat (hi + 1)) ys = drop (nat (hi + 1)) xs"

definition split_at :: "('a \<Rightarrow> u32) \<Rightarrow> u32 \<Rightarrow> int \<Rightarrow> int \<Rightarrow> int \<Rightarrow> 'a list \<Rightarrow> bool" where
  "split_at par pivot lo hi j xs \<longleftrightarrow> lo \<le> j \<and> j < hi \<and>
     (\<forall>k. lo \<le> k \<and> k \<le> j \<longrightarrow> par (xs ! nat k) \<le> pivot) \<and> (\<forall>k. j < k \<and> k \<le> hi \<longrightarrow> pivot \<le> par (xs ! nat k))"

lemma part_inv_scans:
  assumes "part_inv par pivot lo hi i j xs"
  obtains i' j' where "scan_up par pivot xs i = Some i'" and "scan_down par pivot xs j = Some j'"
    and "i < i'" "i' \<le> hi" "lo \<le> j'" "j' < j" "j = hi + 1 \<longrightarrow> i' = lo"
    and "\<And>k. i < k \<Longrightarrow> k < i' \<Longrightarrow> par (xs ! nat k) < pivot" and "\<And>k. j' < k \<Longrightarrow> k < j \<Longrightarrow> pivot < par (xs ! nat k)"
    and "pivot \<le> par (xs ! nat i')" and "par (xs ! nat j') \<le> pivot"
proof -
  define m where "m = (if j = hi + 1 then lo else j)"
  define n where "n = (if j = hi + 1 then lo else i)"
  have m: "-1 \<le> i" "i < m" "m \<le> hi" "m < int (length xs)" "\<not> par (xs ! nat m) < pivot" "j = hi + 1 \<longrightarrow> m = lo" "lo \<le> i + 1"
    using assms by (auto simp: part_inv_def m_def not_less)
  have n: "j \<le> int (length xs)" "n < j" "lo \<le> n" "0 \<le> n" "\<not> pivot < par (xs ! nat n)"
    using assms by (auto simp: part_inv_def n_def not_less)
  obtain i' where i: "scan_up par pivot xs i = Some i'" "i < i'" "i' \<le> m" "\<not> par (xs ! nat i') < pivot"
      "\<forall>k. i < k \<and> k < i' \<longrightarrow> par (xs ! nat k) < pivot"
    using scan_up_finds [of i m xs par pivot] m by blast
  obtain j' where j: "scan_down par pivot xs j = Some j'" "n \<le> j'" "j' < j" "\<not> pivot < par (xs ! nat j')"
      "\<forall>k. j' < k \<and> k < j \<longrightarrow> pivot < par (xs ! nat k)"
    using scan_down_finds [of j xs n pivot par] n by blast
  show thesis
    by (rule that [OF i(1) j(1)]) (use i j m n in \<open>auto simp: not_less\<close>)
qed

lemma swap_props:
  assumes "lo \<le> i" "i < j" "j \<le> hi" "0 \<le> lo" "hi < int (length xs)"
  shows "arr_swap xs i j = Some (xs[nat i := xs ! nat j, nat j := xs ! nat i])"
    and "same_outside lo hi xs (xs[nat i := xs ! nat j, nat j := xs ! nat i])"
  using assms by (auto simp: arr_swap_def arr_get_def same_outside_def mset_swap take_update_cancel drop_update_cancel)

lemma swapped_nth:
  assumes "0 \<le> i" "i < j" "j < int (length xs)" "0 \<le> k"
  shows "xs[nat i := xs ! nat j, nat j := xs ! nat i] ! nat k = (if k = i then xs ! nat j else if k = j then xs ! nat i else xs ! nat k)"
  using assms by (auto simp: nth_list_update nat_eq_iff)

lemma part_inv_swap:
  assumes I: "part_inv par pivot lo hi i j xs" and "i < i'" "i' < j'" "lo \<le> i'" "j' \<le> hi" "j' < j"
    and lt: "\<And>k. i < k \<Longrightarrow> k < i' \<Longrightarrow> par (xs ! nat k) < pivot" and gt: "\<And>k. j' < k \<Longrightarrow> k < j \<Longrightarrow> pivot < par (xs ! nat k)"
    and le: "pivot \<le> par (xs ! nat i')" "par (xs ! nat j') \<le> pivot"
  shows "part_inv par pivot lo hi i' j' (xs[nat i' := xs ! nat j', nat j' := xs ! nat i'])"
proof -
  let ?ys = "xs[nat i' := xs ! nat j', nat j' := xs ! nat i']"
  have b: "0 \<le> lo" "lo < hi" "hi < int (length xs)" using I by (auto simp: part_inv_def)
  have nth: "?ys ! nat k = (if k = i' then xs ! nat j' else if k = j' then xs ! nat i' else xs ! nat k)" if "0 \<le> k" for k
    using swapped_nth [of i' j' xs k] assms b that by simp
  have "par (?ys ! nat k) \<le> pivot" if h: "lo \<le> k" "k \<le> i'" for k
  proof -
    consider "k = i'" | "k \<le> i" "k < i'" | "i < k" "k < i'" using h by linarith
    then show ?thesis
    proof cases
      case 2
      then show ?thesis using h b assms(3) I by (simp add: nth part_inv_def)
    next
      case 3
      then show ?thesis using h b assms(3) lt [of k] by (simp add: nth)
    qed (use h b assms le in \<open>simp add: nth\<close>)
  qed
  moreover have "pivot \<le> par (?ys ! nat k)" if h: "j' \<le> k" "k \<le> hi" for k
  proof -
    consider "k = j'" | "j \<le> k" "j' < k" | "j' < k" "k < j" using h by linarith
    then show ?thesis
    proof cases
      case 2
      then show ?thesis using h b assms(3,4) I by (simp add: nth part_inv_def)
    next
      case 3
      then show ?thesis using h b assms(3,4) gt [of k] by (simp add: nth)
    qed (use h b assms le in \<open>simp add: nth\<close>)
  qed
  ultimately show ?thesis using b assms(3,4,5) unfolding part_inv_def by (metis length_list_update)
qed

lemma same_outside_trans: "same_outside lo hi xs ys \<Longrightarrow> same_outside lo hi ys zs \<Longrightarrow> same_outside lo hi xs zs"
  by (simp add: same_outside_def)

lemma part_inv_done:
  assumes I: "part_inv par pivot lo hi i j xs" and "i < i'" "j' \<le> i'" "lo \<le> j'" "j' < j" "j = hi + 1 \<longrightarrow> i' = lo"
    and lt: "\<And>k. i < k \<Longrightarrow> k < i' \<Longrightarrow> par (xs ! nat k) < pivot" and gt: "\<And>k. j' < k \<Longrightarrow> k < j \<Longrightarrow> pivot < par (xs ! nat k)"
    and le: "pivot \<le> par (xs ! nat i')" "par (xs ! nat j') \<le> pivot"
  shows "split_at par pivot lo hi j' xs"
proof -
  have "par (xs ! nat k) \<le> pivot" if h: "lo \<le> k" "k \<le> j'" for k
  proof -
    consider "k = j'" | "k \<le> i" | "i < k" "k < i'" using h assms(3) by linarith
    then show ?thesis
    proof cases
      case 2
      then show ?thesis using I h by (simp add: part_inv_def)
    next
      case 3
      then show ?thesis using lt by (simp add: order_less_imp_le)
    qed (use le in simp)
  qed
  moreover have "pivot \<le> par (xs ! nat k)" if "j' < k" "k \<le> hi" for k
    using I gt [of k] that by (cases "j \<le> k") (auto simp: part_inv_def order_less_imp_le)
  moreover have "j' < hi" using I assms by (auto simp: part_inv_def)
  ultimately show ?thesis using assms(4) by (simp add: split_at_def)
qed

lemma partition_loop_splits:
  "part_inv par pivot lo hi i j xs \<Longrightarrow>
   \<exists>j' ys. partition_loop par pivot i j xs = Some (j', ys) \<and> same_outside lo hi xs ys \<and> split_at par pivot lo hi j' ys"
proof (induction "nat (j - i)" arbitrary: i j xs rule: less_induct)
  case less
  obtain i' j' where s: "scan_up par pivot xs i = Some i'" "scan_down par pivot xs j = Some j'"
    "i < i'" "i' \<le> hi" "lo \<le> j'" "j' < j" "j = hi + 1 \<longrightarrow> i' = lo"
    "\<And>k. i < k \<Longrightarrow> k < i' \<Longrightarrow> par (xs ! nat k) < pivot" "\<And>k. j' < k \<Longrightarrow> k < j \<Longrightarrow> pivot < par (xs ! nat k)"
    "pivot \<le> par (xs ! nat i')" "par (xs ! nat j') \<le> pivot"
    using part_inv_scans [OF less.prems] by metis
  have b: "0 \<le> lo" "hi < int (length xs)" "lo \<le> i + 1" "j \<le> hi + 1" using less.prems by (auto simp: part_inv_def)
  show ?case
  proof (cases "j' \<le> i'")
    case True
    have "partition_loop par pivot i j xs = Some (j', xs)" using s(1,2) True by (subst partition_loop.simps) simp
    moreover have "split_at par pivot lo hi j' xs"
      by (rule part_inv_done [OF less.prems s(3) True s(5,6,7)]) (use s in auto)
    ultimately show ?thesis by (simp add: same_outside_def)
  next
    case False
    let ?ys = "xs[nat i' := xs ! nat j', nat j' := xs ! nat i']"
    have w: "arr_swap xs i' j' = Some ?ys" "same_outside lo hi xs ?ys"
      using swap_props [of lo i' j' hi xs] False s b by auto
    have "part_inv par pivot lo hi i' j' ?ys"
      by (rule part_inv_swap [OF less.prems s(3)]) (use False s b in auto)
    then obtain j2 ys where r: "partition_loop par pivot i' j' ?ys = Some (j2, ys)" "same_outside lo hi ?ys ys" "split_at par pivot lo hi j2 ys"
      using less.hyps [of j' i' ?ys] False s by auto
    have "partition_loop par pivot i j xs = Some (j2, ys)" using s(1,2) False w(1) r(1) by (subst partition_loop.simps) simp
    then show ?thesis using r same_outside_trans [OF w(2)] by blast
  qed
qed

text \<open>The partition, on the part \<open>bs\<close> of the array between the two indices.\<close>

lemma hoare_partition_splits:
  assumes "lo = int (length as)" and "hi = lo + int (length bs) - 1" and "1 < length bs"
  shows "\<exists>bs1 bs2 pivot. hoare_partition par lo hi (as @ bs @ cs) = Some (lo + int (length bs1) - 1, as @ bs1 @ bs2 @ cs) \<and>
    bs1 \<noteq> [] \<and> bs2 \<noteq> [] \<and> mset (bs1 @ bs2) = mset bs \<and> (\<forall>x \<in> set bs1. par x \<le> pivot) \<and> (\<forall>x \<in> set bs2. pivot \<le> par x)"
proof -
  let ?xs = "as @ bs @ cs" let ?p = "par (?xs ! nat lo)"
  have "part_inv par ?p lo hi (lo - 1) (hi + 1) ?xs" using assms by (auto simp: part_inv_def)
  then obtain j ys where r: "partition_loop par ?p (lo - 1) (hi + 1) ?xs = Some (j, ys)" "same_outside lo hi ?xs ys" "split_at par ?p lo hi j ys"
    using partition_loop_splits by blast
  have len: "length ys = length ?xs" using r(2) by (metis same_outside_def mset_eq_length)
  define bs' where "bs' = take (length bs) (drop (length as) ys)"
  have nh: "nat (hi + 1) = length as + length bs" "nat lo = length as" using assms by auto
  have o: "take (length as) ys = as" "drop (length bs) (drop (length as) ys) = cs"
    using r(2) unfolding same_outside_def nh by (simp_all add: add.commute)
  have ys: "ys = as @ bs' @ cs"
    unfolding bs'_def using o append_take_drop_id by metis
  have m: "mset bs' = mset bs" using r(2) ys by (simp add: same_outside_def)
  then have lb: "length bs' = length bs" by (metis mset_eq_length)
  define n where "n = nat (j + 1 - lo)"
  have n: "0 < n" "n < length bs" "j = lo + int n - 1" using r(3) assms by (auto simp: split_at_def n_def)
  have nth: "bs' ! k = ys ! nat (lo + int k)" if "k < length bs" for k
    using that lb assms(1) by (simp add: ys nth_append nat_add_distrib)
  have le: "par x \<le> ?p" if "x \<in> set (take n bs')" for x
  proof -
    obtain k where k: "k < n" "x = bs' ! k" using \<open>x \<in> set (take n bs')\<close> n by (auto simp: in_set_conv_nth)
    then show ?thesis using r(3) n nth [of k] assms(1) by (auto simp: split_at_def)
  qed
  have ge: "?p \<le> par x" if "x \<in> set (drop n bs')" for x
  proof -
    obtain k where k: "k < length bs - n" "x = bs' ! (n + k)" using \<open>x \<in> set (drop n bs')\<close> n lb by (auto simp: in_set_conv_nth)
    then show ?thesis using r(3) n nth [of "n + k"] assms(1,2) by (auto simp: split_at_def)
  qed
  have "hoare_partition par lo hi ?xs = Some (j, ys)"
    using r(1) assms by (simp add: hoare_partition_def arr_get_def)
  then show ?thesis using n lb ys m le ge
    by (intro exI [of _ "take n bs'"] exI [of _ "drop n bs'"] exI [of _ ?p]) auto
qed

subsection \<open>The sort\<close>

lemma quicksort_range:
  "lo = int (length as) \<Longrightarrow> hi = lo + int (length bs) - 1 \<Longrightarrow>
   \<exists>bs'. quicksort par lo hi (as @ bs @ cs) = Some (as @ bs' @ cs) \<and> mset bs' = mset bs \<and> sorted (map par bs')"
proof (induction "length bs" arbitrary: as bs cs lo hi rule: less_induct)
  case less
  show ?case
  proof (cases "lo < hi")
    case False
    then have "length bs \<le> 1" using less.prems by linarith
    then have "sorted (map par bs)" by (cases bs) auto
    moreover have "quicksort par lo hi (as @ bs @ cs) = Some (as @ bs @ cs)" using False by (subst quicksort.simps) simp
    ultimately show ?thesis by blast
  next
    case True
    then have l: "1 < length bs" using less.prems by simp
    from hoare_partition_splits [OF less.prems l, of par cs] obtain bs1 bs2 pivot where p:
      "hoare_partition par lo hi (as @ bs @ cs) = Some (lo + int (length bs1) - 1, as @ bs1 @ bs2 @ cs)"
      "bs1 \<noteq> []" "bs2 \<noteq> []" "mset (bs1 @ bs2) = mset bs" "\<forall>x \<in> set bs1. par x \<le> pivot" "\<forall>x \<in> set bs2. pivot \<le> par x"
      by blast
    have ln: "length bs = length bs1 + length bs2" using p(4) by (metis mset_eq_length length_append)
    obtain cs1 where 1: "quicksort par lo (lo + int (length bs1) - 1) (as @ bs1 @ (bs2 @ cs)) = Some (as @ cs1 @ (bs2 @ cs))"
        "mset cs1 = mset bs1" "sorted (map par cs1)"
      using less.hyps [of bs1 lo as _ "bs2 @ cs"] ln p(3) less.prems by auto
    have l1: "length cs1 = length bs1" using 1(2) by (metis mset_eq_length)
    obtain cs2 where 2: "quicksort par (lo + int (length bs1) - 1 + 1) hi ((as @ cs1) @ bs2 @ cs) = Some ((as @ cs1) @ cs2 @ cs)"
        "mset cs2 = mset bs2" "sorted (map par cs2)"
      using less.hyps [of bs2 "lo + int (length bs1) - 1 + 1" "as @ cs1" hi cs] ln l1 p(2) less.prems by auto
    have "quicksort par lo hi (as @ bs @ cs) = Some (as @ (cs1 @ cs2) @ cs)"
      using True p(1) 1(1) 2(1) by (subst quicksort.simps) simp
    moreover have "mset (cs1 @ cs2) = mset bs" using 1(2) 2(2) p(4) by simp
    moreover have "sorted (map par (cs1 @ cs2))"
      using 1(3) 2(3) p(5,6) mset_eq_setD [OF 1(2)] mset_eq_setD [OF 2(2)]
      by (auto simp: sorted_append intro: order_trans [of _ pivot])
    ultimately show ?thesis by blast
  qed
qed

lemma quicksort_array:
  obtains ys where "quicksort par 0 (int (length xs) - 1) (xs @ rest) = Some (ys @ rest)" and "mset ys = mset xs" and "sorted (map par ys)"
  using quicksort_range [of 0 "[]" "int (length xs) - 1" xs par rest] by auto

text \<open>
  C15. The sort of the requests returns for every array, whatever lies behind the requests in it,
  and what it leaves is a permutation of the requests in the order of their parameters.
\<close>

theorem quicksort_sorts:
  "\<exists>ys. quicksort par 0 (int (length xs) - 1) (xs @ rest) = Some (ys @ rest) \<and> mset ys = mset xs \<and> sorted (map par ys)"
  using quicksort_array [of par xs rest] by blast

end
