(* ===== verification/PIM_List.thy ===== *)
theory PIM_List
  imports PIM_Requests PIM_SkipVault PIM_Sort
begin

text \<open>
  The linked-list kernel of the PIM processor (\<open>SW/PIM/kernels/clean_linked_list.c\<close>, \<open>kernel_fc_with_sort_nonstop\<close>).
  One round of its main loop (\<open>ll_kernel_step\<close>) initialises the list, prints it, adds an initial node, or serves all
  pending requests: it gathers them, sorts them by parameter (\<^theory_text>\<open>PIM_Sort\<close>) and executes them in
  one pass over the list, allocating and freeing nodes in the vault (\<^theory_text>\<open>PIM_Vault\<close>).

  A node is a block of 16 words: the key at word 0, \<open>next[0]\<close> to \<open>next[13]\<close> at words 1 to 14 and \<open>top_level\<close> at
  word 15. A \<open>node_t\<close> is its first two words. \<open>NUM_HOST_THREADS\<close> and whether \<open>PIM_DEBUG_ON\<close> is set are arguments.
\<close>

type_synonym ll_pim = "request_slot pim"

definition ll_rd :: "vmem \<Rightarrow> u32 \<Rightarrow> (u32 \<times> u32) option" where
  "ll_rd m p = do { k \<leftarrow> vrd m (fld p 0); n \<leftarrow> vrd m (fld p 1); Some (k, n) }"

definition ll_list_init :: "ll_pim \<Rightarrow> ll_pim option" where
  "ll_list_init = list_init (4 * 16) LL_NUM_MEM_BLOCKS 1 15 14"

text \<open>\<open>list_print\<close>: the printed keys.\<close>

partial_function (option) ll_print_from :: "vmem \<Rightarrow> u32 \<Rightarrow> u32 \<Rightarrow> u32 list option" where
  "ll_print_from m tn c =
     do { (_, c1) \<leftarrow> ll_rd m c;
          (k, c2) \<leftarrow> ll_rd m c1;
          if c2 \<noteq> tn then do { ks \<leftarrow> ll_print_from m tn c1; Some (k # ks) } else Some [k] }"

definition ll_print :: "ll_pim \<Rightarrow> u32 list option" where
  "ll_print s = ll_print_from (vmem s) (sreg s 5) (sreg s 4)"

subsection \<open>Serving requests\<close>

text \<open>One request, from the position \<open>(pred_node, curr_node)\<close>.\<close>

definition ll_exec :: "u16 \<Rightarrow> u32 \<Rightarrow> u32 \<times> u32 \<Rightarrow> ll_pim \<Rightarrow> ((u32 \<times> u32) \<times> ll_pim \<times> u16) option" where
  "ll_exec op param = (\<lambda>(prv, cur) s.
     do { (pv, c) \<leftarrow> advance (ll_rd (vmem s)) param prv cur;
          k \<leftarrow> vrd (vmem s) (fld c 0);
          if op = LL_CONTAINS_OP then Some ((pv, c), s, if k = param then 1 else 0)
          else if op = LL_ADD_OP then
            (if k \<noteq> param then
               do { (new, s1) \<leftarrow> alloc_memory_block s;
                    if new \<noteq> 0 then
                      do { s2 \<leftarrow> put new 0 param s1;
                           s3 \<leftarrow> put new 1 c s2;
                           s4 \<leftarrow> put pv 1 new s3;
                           Some ((pv, new), s4, 1) }
                    else Some ((pv, c), s1, 0) }
             else Some ((pv, c), s, 0))
          else if op = LL_REMOVE_OP then
            (if k = param then
               do { n \<leftarrow> vrd (vmem s) (fld c 1);
                    s1 \<leftarrow> put pv 1 n s;
                    s2 \<leftarrow> free_memory_block c s1;
                    c1 \<leftarrow> vrd (vmem s2) (fld pv 1);
                    Some ((pv, c1), s2, 1) }
             else Some ((pv, c), s, 0))
          else Some ((pv, c), s, 0) })"

text \<open>The timestamp in a debug build, the return value, and the end of the request.\<close>

definition ll_finish :: "bool \<Rightarrow> nat \<Rightarrow> u16 \<Rightarrow> ll_pim \<Rightarrow> ll_pim" where
  "ll_finish dbg i r s =
     (let s1 = (if dbg then set_sreg 2 (sreg s 2 + 1) (s\<lparr>vreg := (vreg s)(i := (vreg s i)\<lparr>timestamp := ucast (sreg s 2)\<rparr>)\<rparr>) else s)
      in s1\<lparr>vreg := (vreg s1)(i := ll_answer r (vreg s1 i))\<rparr>)"

fun ll_exec_all :: "bool \<Rightarrow> nat list \<Rightarrow> u32 \<times> u32 \<Rightarrow> ll_pim \<Rightarrow> ll_pim option" where
  "ll_exec_all dbg [] z s = Some s"
| "ll_exec_all dbg (i # is) z s =
     do { (z1, s1, r) \<leftarrow> ll_exec (EXTRACT_OPERATION (info_bits (vreg s i))) (req_parameter (vreg s i)) z s;
          ll_exec_all dbg is z1 (ll_finish dbg i r s1) }"

definition ll_gather :: "nat \<Rightarrow> ll_pim \<Rightarrow> nat list" where
  "ll_gather nthreads s = filter (\<lambda>i. CHECK_VALID_REQUEST (info_bits (vreg s i)) \<noteq> 0) [0..<nthreads]"

text \<open>
  A pass over the list. \<open>arr\<close> is the array \<open>valid_requests\<close> (indices of slots); behind the gathered requests
  it keeps what earlier passes left there.
\<close>

definition linked_list_ops :: "nat \<Rightarrow> bool \<Rightarrow> nat list \<Rightarrow> ll_pim \<Rightarrow> (nat list \<times> ll_pim) option" where
  "linked_list_ops nthreads dbg arr s =
     (let reqs = ll_gather nthreads s
      in do { arr1 \<leftarrow> quicksort (\<lambda>i. req_parameter (vreg s i)) 0 (int (length reqs) - 1) (reqs @ drop (length reqs) arr);
              c \<leftarrow> vrd (vmem s) (fld (sreg s 4) 1);
              s1 \<leftarrow> ll_exec_all dbg (take (length reqs) arr1) (sreg s 4, c) s;
              Some (arr1, s1) })"

subsection \<open>Initial nodes\<close>

text \<open>
  \<open>PIM_SREG[0] == 3\<close>: the request in slot 0 adds a node whose height the host has put into \<open>PIM_SREG[1]\<close>. The arrays
  \<open>preds\<close> and \<open>succs\<close> are written at every level before they are read. The block is not checked to exist.
\<close>

definition ll_initial_add :: "ll_pim \<Rightarrow> ll_pim option" where
  "ll_initial_add s =
     (if CHECK_VALID_REQUEST (info_bits (vreg s 0)) \<noteq> 0 then
        do { let param = req_parameter (vreg s 0);
             (found, preds, succs) \<leftarrow> find_nodes (vs_rd 1 (vmem s)) param True 14 (sreg s 4) 0 Map.empty Map.empty;
             s' \<leftarrow> (if found = 0 then
                do { s1 \<leftarrow> vs_add 1 15 (sreg s 1) param preds succs s;
                     Some (s1\<lparr>vreg := (vreg s1)(0 := (vreg s1 0)\<lparr>info_bits := SET_RETVAL (info_bits (vreg s1 0)) 1\<rparr>)\<rparr>) }
              else Some s);
             Some (s'\<lparr>vreg := (vreg s')(0 := (vreg s' 0)\<lparr>info_bits := CLEAR_REQUEST (info_bits (vreg s' 0))\<rparr>)\<rparr>) }
      else Some s)"

text \<open>One round of the main loop; \<open>PIM_SREG[0] \<ge> 4\<close> leaves it.\<close>

definition ll_kernel_step :: "nat \<Rightarrow> bool \<Rightarrow> nat list \<times> ll_pim \<Rightarrow> (nat list \<times> ll_pim) option" where
  "ll_kernel_step nthreads dbg = (\<lambda>(arr, s).
     if sreg s 0 = 0 then do { s1 \<leftarrow> ll_list_init s; Some (arr, set_sreg 0 3 s1) }
     else if sreg s 0 = 2 then do { _ \<leftarrow> ll_print s; Some (arr, set_sreg 0 1 s) }
     else if sreg s 0 = 3 then do { s1 \<leftarrow> ll_initial_add s; Some (arr, s1) }
     else if 4 \<le> sreg s 0 then Some (arr, s)
     else linked_list_ops nthreads dbg arr s)"

subsection \<open>The abstract set with a bounded number of free nodes\<close>

fun cap_step :: "u32 set \<times> nat \<Rightarrow> set_op option \<Rightarrow> u32 \<Rightarrow> (u32 set \<times> nat) \<times> u16" where
  "cap_step (A, f) None p = ((A, f), 0)"
| "cap_step (A, f) (Some Contains) p = ((A, f), of_bool (p \<in> A))"
| "cap_step (A, f) (Some Add) p = (if p \<notin> A \<and> 0 < f then ((insert p A, f - 1), 1) else ((A, f), 0))"
| "cap_step (A, f) (Some Remove) p = (if p \<in> A then ((A - {p}, f + 1), 1) else ((A, f), 0))"

definition ll_op_of :: "u16 \<Rightarrow> set_op option" where
  "ll_op_of op = (if op = LL_CONTAINS_OP then Some Contains else if op = LL_ADD_OP then Some Add
                  else if op = LL_REMOVE_OP then Some Remove else None)"

fun cap_run :: "u32 set \<times> nat \<Rightarrow> (set_op option \<times> u32) list \<Rightarrow> (u32 set \<times> nat) \<times> u16 list" where
  "cap_run S [] = (S, [])"
| "cap_run S ((op, p) # rs) =
     (let (S1, r) = cap_step S op p; (S2, out) = cap_run S1 rs in (S2, r # out))"

definition ll_request_of :: "request_slot \<Rightarrow> set_op option \<times> u32" where
  "ll_request_of sl = (ll_op_of (EXTRACT_OPERATION (info_bits sl)), req_parameter sl)"

subsection \<open>The list in the vault\<close>

abbreviation ll_blocks :: "u32 set" where
  "ll_blocks \<equiv> blocks 16 LL_NUM_MEM_BLOCKS"

definition ll_link :: "vmem \<Rightarrow> u32 \<Rightarrow> u32" where
  "ll_link m b = m (fld b 1)"

text \<open>
  \<open>as\<close> are the nodes from the head on and \<open>fs\<close> the free blocks: no block is in both and none is lost.
\<close>

definition ll_nodes :: "ll_pim \<Rightarrow> u32 list \<Rightarrow> u32 list \<Rightarrow> bool" where
  "ll_nodes s as fs \<longleftrightarrow> sorted_chain (ll_link (vmem s)) (vmem s) (sreg s 4) as \<and> as \<noteq> [] \<and>
     vmem s (sreg s 4) = 0 \<and> vmem s (last as) = 0xFFFFFFFF \<and> sreg s 5 = last as \<and>
     free_ok 16 LL_NUM_MEM_BLOCKS s fs \<and> set as \<inter> set fs = {} \<and> set as \<union> set fs = ll_blocks"

definition ll_keys :: "ll_pim \<Rightarrow> u32 list \<Rightarrow> u32 set" where
  "ll_keys s as = keys_between 0 0xFFFFFFFF (vmem s) as"

definition ll_holds :: "ll_pim \<Rightarrow> u32 set \<times> nat \<Rightarrow> bool" where
  "ll_holds s S \<longleftrightarrow> (\<exists>as fs. ll_nodes s as fs \<and> S = (ll_keys s as, length fs))"

lemma ll_nodesD:
  assumes "ll_nodes s as fs"
  shows "sorted_chain (ll_link (vmem s)) (vmem s) (sreg s 4) as" "lpath (ll_link (vmem s)) (sreg s 4) as 0" "sorted_keys (vmem s) as"
    "as \<noteq> []" "vmem s (sreg s 4) = 0" "vmem s (last as) = 0xFFFFFFFF"
    "free_ok 16 LL_NUM_MEM_BLOCKS s fs" "set as \<inter> set fs = {}" "set as \<union> set fs = ll_blocks" "set as \<subseteq> ll_blocks" "set fs \<subseteq> ll_blocks" "sreg s 5 = last as"
  using assms by (auto simp: ll_nodes_def sorted_chain_def)

lemma ll_rd_node: "b \<in> ll_blocks \<Longrightarrow> ll_rd m b = Some (m b, ll_link m b)"
  using lb.vrd_fld [of b 1] by (simp add: ll_rd_def ll_link_def)

text \<open>Two words of blocks are the same only if block and offset are.\<close>

lemmas ll_fld = lb.fld_eq lb.fld_eq_block

lemma ll_fld1 [simp]:
  "b \<in> ll_blocks \<Longrightarrow> c \<in> ll_blocks \<Longrightarrow> fld b (Suc 0) = fld c (Suc 0) \<longleftrightarrow> b = c"
  "b \<in> ll_blocks \<Longrightarrow> c \<in> ll_blocks \<Longrightarrow> fld b (Suc 0) \<noteq> c" "b \<in> ll_blocks \<Longrightarrow> c \<in> ll_blocks \<Longrightarrow> c \<noteq> fld b (Suc 0)"
  by (simp_all add: ll_fld)

lemma ll_put [simp]:
  "b \<in> ll_blocks \<Longrightarrow> put b 0 v s = Some (s\<lparr>vmem := (vmem s)(b := v)\<rparr>)"
  "b \<in> ll_blocks \<Longrightarrow> put b (Suc 0) v s = Some (s\<lparr>vmem := (vmem s)(fld b (Suc 0) := v)\<rparr>)"
  using lb.put_block lb.put_fld [of b "Suc 0"] by simp_all

text \<open>Insertion: the new node is the first free block.\<close>

lemma ll_nodes_insert:
  assumes L: "ll_nodes s (us @ cs) (a # fs)" and us: "us \<noteq> []" and st: "stop_at (vmem s) p us cs"
    and k: "vmem s (hd cs) \<noteq> p" and p: "0 < p" "p < 0xFFFFFFFF"
  defines "s' \<equiv> (set_sreg 3 (vmem s a) s)\<lparr>vmem := (vmem s)(a := p, fld a 1 := hd cs, fld (last us) 1 := a)\<rparr>"
  shows "ll_nodes s' (us @ a # cs) fs" and "ll_keys s' (us @ a # cs) = insert p (ll_keys s (us @ cs))"
    and "\<forall>b \<in> set (us @ cs). vmem s' b = vmem s b"
proof -
  note D = ll_nodesD [OF L]
  have a: "a \<in> ll_blocks" "a \<notin> set (us @ cs)" "a \<noteq> 0" using D(8,11) by auto
  have l: "last us \<in> ll_blocks" "last us \<in> set (us @ cs)" "last us \<noteq> a" using D(10) last_in_set [OF us] a(2) by auto
  have m: "vmem s' b = (if b = a then p else vmem s b)" if "b \<in> ll_blocks" for b
    using that a l by (simp add: s'_def)
  have n: "ll_link (vmem s') b = (if b = last us then a else if b = a then hd cs else ll_link (vmem s) b)" if "b \<in> ll_blocks" for b
    using that a l by (simp add: s'_def ll_link_def)
  have in_b: "b \<in> ll_blocks" if "b \<in> set (us @ cs)" for b using that D(10) by auto
  have same: "vmem s' b = vmem s b" if "b \<in> set (us @ cs)" for b using m [OF in_b [OF that]] a(2) that by auto
  then show "\<forall>b \<in> set (us @ cs). vmem s' b = vmem s b" by blast
  have hd: "sreg s 4 \<in> set (us @ cs)" using D(2,4) by (cases "us @ cs") auto
  have ch: "sorted_chain (ll_link (vmem s')) (vmem s') (sreg s 4) (us @ a # cs)"
    by (rule sorted_chain_insert [OF D(1) us st k a(3,2)])
      (use m n a l in_b same in auto)
  have cs: "cs \<noteq> []" using st by (simp add: stop_at_def)
  have f: "lpath (vmem s) (vmem s a) fs 0" "a \<notin> set fs" "set fs \<subseteq> ll_blocks"
    using D(7) lpath_distinct [of "vmem s" "sreg s 3" "a # fs"] by (auto simp: free_ok_def)
  have "free_ok 16 LL_NUM_MEM_BLOCKS s' fs"
  proof -
    have "vmem s b = vmem s' b" if "b \<in> set fs" for b using m [of b] that f by auto
    then have "lpath (vmem s) (vmem s a) fs 0 \<longleftrightarrow> lpath (vmem s') (vmem s a) fs 0" by (rule lpath_cong)
    then show ?thesis using f by (simp add: free_ok_def s'_def)
  qed
  moreover have "set (us @ a # cs) \<inter> set fs = {}" "set (us @ a # cs) \<union> set fs = ll_blocks"
    using D(8,9) f(2) by auto
  moreover have "vmem s' (last (us @ a # cs)) = 0xFFFFFFFF" "vmem s' (sreg s 4) = 0"
    using same [OF hd] same [of "last cs"] D(5,6) cs by auto
  moreover have "sreg s' 4 = sreg s 4" "sreg s' 5 = last (us @ a # cs)" using D(12) cs by (simp_all add: s'_def)
  ultimately show "ll_nodes s' (us @ a # cs) fs" using ch by (simp add: ll_nodes_def)
  have "vmem s' a = p" using m a(1) by simp
  then show "ll_keys s' (us @ a # cs) = insert p (ll_keys s (us @ cs))"
    using keys_between_insert [of us cs "vmem s'" "vmem s" 0 a "0xFFFFFFFF"] same p unfolding ll_keys_def by simp
qed

text \<open>Removal: the node becomes the first free block.\<close>

lemma ll_nodes_remove:
  assumes L: "ll_nodes s (us @ c # cs) fs" and us: "us \<noteq> []" and cs: "cs \<noteq> []"
  defines "s' \<equiv> set_sreg 3 c (s\<lparr>vmem := (vmem s)(fld (last us) 1 := ll_link (vmem s) c, c := sreg s 3)\<rparr>)"
  shows "ll_nodes s' (us @ cs) (c # fs)" and "ll_keys s' (us @ cs) = ll_keys s (us @ c # cs) - {vmem s c}"
    and "\<forall>b \<in> set (us @ cs). vmem s' b = vmem s b" and "vmem s' (fld (last us) 1) = hd cs"
proof -
  note D = ll_nodesD [OF L]
  have di: "distinct (us @ c # cs)" using D(1) by (rule sorted_chain_distinct)
  have c: "c \<in> ll_blocks" "c \<notin> set (us @ cs)" "c \<noteq> 0" "c \<notin> set fs" using D(8,10) di by auto
  have l: "last us \<in> ll_blocks" "last us \<noteq> c" using D(10) last_in_set [OF us] c(2) by auto
  have in_b: "b \<in> ll_blocks" if "b \<in> set (us @ cs)" for b using that D(10) by auto
  have m: "vmem s' b = (if b = c then sreg s 3 else vmem s b)" if "b \<in> ll_blocks" for b
    using that c l by (simp add: s'_def)
  have n: "ll_link (vmem s') b = (if b = last us then ll_link (vmem s) c else ll_link (vmem s) b)" if "b \<in> ll_blocks" for b
    using that c l by (simp add: s'_def ll_link_def)
  have same: "vmem s' b = vmem s b" if "b \<in> set (us @ cs)" for b using m [OF in_b [OF that]] c(2) that by auto
  then show "\<forall>b \<in> set (us @ cs). vmem s' b = vmem s b" by blast
  have ch: "sorted_chain (ll_link (vmem s')) (vmem s') (sreg s 4) (us @ cs)"
    by (rule sorted_chain_remove [OF D(1) us]) (use n l in_b same in auto)
  have hn: "sreg s 4 = hd us" "hd us \<in> set (us @ cs)" using D(2) us by (cases us; auto)+
  have "ll_link (vmem s) c = hd cs"
    using lpath_end [of "ll_link (vmem s)" "sreg s 4" "us @ [c]" cs] D(2) cs by (cases cs) auto
  then show "vmem s' (fld (last us) 1) = hd cs" using n [OF l(1)] by (simp add: ll_link_def)
  have "lpath (vmem s) (sreg s 3) fs 0" "set fs \<subseteq> ll_blocks" using D(7) by (auto simp: free_ok_def)
  moreover have "vmem s b = vmem s' b" if "b \<in> set fs" for b using m [of b] that c(4) D(11) by auto
  then have "lpath (vmem s) (sreg s 3) fs 0 \<longleftrightarrow> lpath (vmem s') (sreg s 3) fs 0" by (rule lpath_cong)
  moreover have "vmem s' c = sreg s 3" "sreg s' 3 = c" "sreg s' 4 = sreg s 4" using m c(1) by (simp_all add: s'_def)
  ultimately have "free_ok 16 LL_NUM_MEM_BLOCKS s' (c # fs)" using c by (simp add: free_ok_def)
  moreover have "set (us @ cs) \<inter> set (c # fs) = {}" "set (us @ cs) \<union> set (c # fs) = ll_blocks"
    using D(8,9) c(2) by auto
  moreover have "vmem s' (last (us @ cs)) = 0xFFFFFFFF" "vmem s' (sreg s 4) = 0"
    using same [OF hn(2)] same [of "last cs"] D(5,6) cs hn(1) by auto
  moreover have "sreg s' 5 = last (us @ cs)" using D(12) cs by (simp add: s'_def)
  ultimately show "ll_nodes s' (us @ cs) (c # fs)" using ch us \<open>sreg s' 4 = sreg s 4\<close> by (simp add: ll_nodes_def)
  show "ll_keys s' (us @ cs) = ll_keys s (us @ c # cs) - {vmem s c}"
    unfolding ll_keys_def by (rule keys_between_remove [OF D(3)]) (use same in simp)
qed

subsection \<open>One request\<close>

text \<open>The position between two requests; the head is always behind it.\<close>

definition ll_at :: "u32 \<Rightarrow> u32 set \<times> nat \<Rightarrow> u32 \<times> u32 \<Rightarrow> ll_pim \<Rightarrow> bool" where
  "ll_at p S z s \<longleftrightarrow> (\<exists>us cs fs. ll_nodes s (us @ cs) fs \<and> us \<noteq> [] \<and> cs \<noteq> [] \<and> z = (last us, hd cs) \<and>
     (\<forall>u \<in> set us. vmem s u < p) \<and> S = (ll_keys s (us @ cs), length fs))"

lemma ll_at_stop:
  assumes "ll_at p S z s" and "p < 0xFFFFFFFF"
  obtains us cs fs where "ll_nodes s (us @ cs) fs" "us \<noteq> []" "stop_at (vmem s) p us cs" "S = (ll_keys s (us @ cs), length fs)"
    "advance (ll_rd (vmem s)) p (fst z) (snd z) = Some (last us, hd cs)"
proof -
  obtain us cs fs where L: "ll_nodes s (us @ cs) fs" and z: "us \<noteq> []" "cs \<noteq> []" "z = (last us, hd cs)" "\<forall>u \<in> set us. vmem s u < p"
      and S: "S = (ll_keys s (us @ cs), length fs)"
    using assms(1) by (auto simp: ll_at_def)
  note D = ll_nodesD [OF L]
  have c: "lpath (ll_link (vmem s)) (hd cs) cs 0" using lpath_end [OF D(2) z(1)] z(2) by (cases cs) auto
  have rd: "ll_rd (vmem s) a = Some (vmem s a, ll_link (vmem s) a)" if "a \<in> set cs" for a
    using ll_rd_node D(10) that by auto
  have "p \<le> vmem s (last cs)" using D(6) z(2) assms(2) by simp
  from advance_stop [OF c rd z(2) this z(4)] obtain us' cs' where r: "us' @ cs' = us @ cs" "length us \<le> length us'" "stop_at (vmem s) p us' cs'"
      "advance (ll_rd (vmem s)) p (prev_of us) (hd cs) = Some (prev_of us', hd cs')"
    by blast
  have "us' \<noteq> []" using r(2) z(1) by auto
  then show thesis using that [of us' cs' fs] L r S z by (simp add: prev_of_def)
qed

lemma ll_exec_correct:
  assumes "ll_at p S z s" and p: "0 < p" "p < 0xFFFFFFFF"
  shows "\<exists>z' s'. ll_exec op p z s = Some (z', s', snd (cap_step S (ll_op_of op) p)) \<and> ll_at p (fst (cap_step S (ll_op_of op) p)) z' s' \<and>
    vreg s' = vreg s"
proof -
  obtain pv cv where z: "z = (pv, cv)" by (cases z)
  obtain us cs fs where L: "ll_nodes s (us @ cs) fs" and us: "us \<noteq> []" and st: "stop_at (vmem s) p us cs"
      and S: "S = (ll_keys s (us @ cs), length fs)" and adv: "advance (ll_rd (vmem s)) p pv cv = Some (last us, hd cs)"
    using ll_at_stop [OF assms(1) p(2)] by (auto simp: z)
  note D = ll_nodesD [OF L]
  obtain c ds where cs: "cs = c # ds" using st by (cases cs) (auto simp: stop_at_def)
  have lt: "\<forall>u \<in> set us. vmem s u < p" using st by (simp add: stop_at_def)
  have b: "c \<in> ll_blocks" "last us \<in> ll_blocks" using D(10) cs last_in_set [OF us] by auto
  have mem: "p \<in> ll_keys s (us @ cs) \<longleftrightarrow> vmem s c = p"
    using keys_between_mem [OF D(3) st p] by (simp add: ll_keys_def cs)
  have stay: "ll_at p S (last us, c) s" unfolding ll_at_def
    using L us cs lt S by (intro exI [of _ us] exI [of _ cs] exI [of _ fs]) simp
  note ex = ll_exec_def z adv cs
  consider "op = LL_CONTAINS_OP" | "op = LL_ADD_OP" "op \<noteq> LL_CONTAINS_OP" | "op = LL_REMOVE_OP" "op \<noteq> LL_ADD_OP" "op \<noteq> LL_CONTAINS_OP"
    | "op \<noteq> LL_ADD_OP" "op \<noteq> LL_CONTAINS_OP" "op \<noteq> LL_REMOVE_OP" by blast
  then show ?thesis
  proof cases
    case 1
    then show ?thesis using stay mem b by (auto simp: ex S ll_op_of_def)
  next
    case 2
    show ?thesis
    proof (cases "vmem s c = p \<or> fs = []")
      case True
      then show ?thesis using 2 stay mem b lb.alloc_memory_block_free(1) [OF D(7)] by (auto simp: ex S ll_op_of_def)
    next
      case False
      then obtain a fs' where fs: "fs = a # fs'" by (cases fs) auto
      let ?s' = "(set_sreg 3 (vmem s a) s)\<lparr>vmem := (vmem s)(a := p, fld a 1 := hd cs, fld (last us) 1 := a)\<rparr>"
      have a: "a \<in> ll_blocks" "a \<noteq> 0" "sreg s 3 = a" using D(7) fs by (auto simp: free_ok_def)
      have I: "ll_nodes ?s' (us @ a # cs) fs'" "ll_keys ?s' (us @ a # cs) = insert p (ll_keys s (us @ cs))"
          "\<forall>b \<in> set (us @ cs). vmem ?s' b = vmem s b"
        using ll_nodes_insert [OF L [unfolded fs] us st _ p] False cs by auto
      have "ll_at p (insert p (ll_keys s (us @ cs)), length fs') (last us, a) ?s'" unfolding ll_at_def
        using I us lt by (intro exI [of _ us] exI [of _ "a # cs"] exI [of _ fs']) simp
      moreover have "alloc_memory_block s = Some (a, set_sreg 3 (vmem s a) s)"
        using a by (simp add: alloc_memory_block_def)
      ultimately show ?thesis using 2 False b a mem by (simp add: ex S fs ll_op_of_def set_sreg_def)
    qed
  next
    case 3
    show ?thesis
    proof (cases "vmem s c = p")
      case False
      then show ?thesis using 3 stay mem b by (auto simp: ex S ll_op_of_def)
    next
      case True
      have ds: "ds \<noteq> []" using D(6) True p(2) cs by auto
      let ?s' = "set_sreg 3 c (s\<lparr>vmem := (vmem s)(fld (last us) 1 := ll_link (vmem s) c, c := sreg s 3)\<rparr>)"
      have R: "ll_nodes ?s' (us @ ds) (c # fs)" "ll_keys ?s' (us @ ds) = ll_keys s (us @ cs) - {p}"
          "\<forall>b \<in> set (us @ ds). vmem ?s' b = vmem s b" "vmem ?s' (fld (last us) 1) = hd ds"
        using ll_nodes_remove [OF L [unfolded cs] us ds] True cs by auto
      have "ll_at p (ll_keys s (us @ cs) - {p}, Suc (length fs)) (last us, hd ds) ?s'" unfolding ll_at_def
        using R us lt ds by (intro exI [of _ us] exI [of _ ds] exI [of _ "c # fs"]) simp
      then show ?thesis using 3 True b mem R(4)
        by (simp add: ex S ll_op_of_def set_sreg_def free_memory_block_def ll_link_def)
    qed
  next
    case 4
    then show ?thesis using stay mem b by (auto simp: ex S ll_op_of_def)
  qed
qed

lemma ll_at_cong:
  assumes "vmem s' = vmem s" "sreg s' 3 = sreg s 3" "sreg s' 4 = sreg s 4" "sreg s' 5 = sreg s 5"
  shows "ll_at p S z s' \<longleftrightarrow> ll_at p S z s" and "ll_holds s' S \<longleftrightarrow> ll_holds s S"
  using assms by (simp_all add: ll_at_def ll_holds_def ll_nodes_def ll_keys_def free_ok_def)

lemma ll_finish_simps [simp]:
  "vmem (ll_finish dbg i r s) = vmem s" "sreg (ll_finish dbg i r s) 3 = sreg s 3" "sreg (ll_finish dbg i r s) 4 = sreg s 4" "sreg (ll_finish dbg i r s) 5 = sreg s 5"
  "j \<noteq> i \<Longrightarrow> vreg (ll_finish dbg i r s) j = vreg s j"
  "info_bits (vreg (ll_finish dbg i r s) i) = info_bits (ll_answer r (vreg s i))"
  by (auto simp: ll_finish_def Let_def ll_answer_def)

lemma ll_at_mono: "ll_at p S z s \<Longrightarrow> p \<le> q \<Longrightarrow> ll_at q S z s"
  unfolding ll_at_def by (blast intro: order_less_le_trans)

lemma ll_at_start:
  assumes "ll_holds s S" and "0 < p"
  shows "\<exists>c. vrd (vmem s) (fld (sreg s 4) 1) = Some c \<and> ll_at p S (sreg s 4, c) s"
proof -
  obtain as fs where L: "ll_nodes s as fs" and S: "S = (ll_keys s as, length fs)" using assms(1) by (auto simp: ll_holds_def)
  note D = ll_nodesD [OF L]
  obtain cs where as: "as = sreg s 4 # cs" using D(2,4) by (cases as) auto
  have "cs \<noteq> []" using D(5,6) as by auto
  moreover have "ll_link (vmem s) (sreg s 4) = hd cs" using D(2) as \<open>cs \<noteq> []\<close> by (cases cs) auto
  moreover have "sreg s 4 \<in> ll_blocks" using D(10) as by auto
  ultimately show ?thesis using L S as D(5) assms(2) unfolding ll_at_def
    by (intro exI [of _ "hd cs"] conjI exI [of _ "[sreg s 4]"] exI [of _ cs] exI [of _ fs]) (auto simp: ll_link_def)
qed

lemma ll_at_holds: "ll_at p S z s \<Longrightarrow> ll_holds s S"
  by (auto simp: ll_at_def ll_holds_def)

subsection \<open>A pass\<close>

text \<open>The slots \<open>is\<close> are answered with the results \<open>rs\<close>; the others are unchanged.\<close>

definition ll_answered :: "(nat \<Rightarrow> request_slot) \<Rightarrow> (nat \<Rightarrow> request_slot) \<Rightarrow> nat list \<Rightarrow> u16 list \<Rightarrow> bool" where
  "ll_answered v v' is rs \<longleftrightarrow> length rs = length is \<and> (\<forall>j. j \<notin> set is \<longrightarrow> v' j = v j) \<and>
     (\<forall>k < length is. info_bits (v' (is ! k)) = info_bits (ll_answer (rs ! k) (v (is ! k))))"

lemma ll_answered_Cons:
  assumes A: "ll_answered v1 v' is rs" and "i \<notin> set is" and o: "\<And>j. j \<noteq> i \<Longrightarrow> v1 j = v j"
    and "info_bits (v1 i) = info_bits (ll_answer r (v i))"
  shows "ll_answered v v' (i # is) (r # rs)"
proof -
  have "info_bits (v' ((i # is) ! k)) = info_bits (ll_answer ((r # rs) ! k) (v ((i # is) ! k)))" if "k < length (i # is)" for k
  proof (cases k)
    case 0
    then show ?thesis using assms by (simp add: ll_answered_def)
  next
    case (Suc n)
    then have n: "n < length is" "is ! n \<noteq> i" using that assms(2) by auto
    then show ?thesis using A o Suc by (simp add: ll_answered_def)
  qed
  moreover have "length (r # rs) = length (i # is)" "\<forall>j. j \<notin> set (i # is) \<longrightarrow> v' j = v j" using A o by (simp_all add: ll_answered_def)
  ultimately show ?thesis unfolding ll_answered_def by blast
qed

lemma ll_exec_all_correct:
  assumes "ll_at p S z s" and "sorted (map (\<lambda>i. req_parameter (vreg s i)) is)" and "distinct is"
    and "\<forall>i \<in> set is. p \<le> req_parameter (vreg s i) \<and> 0 < req_parameter (vreg s i) \<and> req_parameter (vreg s i) < 0xFFFFFFFF"
  shows "\<exists>s'. ll_exec_all dbg is z s = Some s' \<and> ll_holds s' (fst (cap_run S (map (\<lambda>i. ll_request_of (vreg s i)) is))) \<and>
    ll_answered (vreg s) (vreg s') is (snd (cap_run S (map (\<lambda>i. ll_request_of (vreg s i)) is)))"
  using assms
proof (induction "is" arbitrary: p S z s)
  case Nil
  then show ?case by (auto simp: ll_answered_def intro: ll_at_holds)
next
  case (Cons i "is")
  let ?q = "req_parameter (vreg s i)" and ?op = "EXTRACT_OPERATION (info_bits (vreg s i))"
  let ?S1 = "fst (cap_step S (ll_op_of ?op) ?q)" and ?r = "snd (cap_step S (ll_op_of ?op) ?q)"
  have q: "p \<le> ?q" "0 < ?q" "?q < 0xFFFFFFFF" using Cons.prems(4) by auto
  obtain z1 s1 where e: "ll_exec ?op ?q z s = Some (z1, s1, ?r)" "ll_at ?q ?S1 z1 s1" "vreg s1 = vreg s"
    using ll_exec_correct [OF ll_at_mono [OF Cons.prems(1) q(1)] q(2,3)] by blast
  let ?s2 = "ll_finish dbg i ?r s1"
  have at: "ll_at ?q ?S1 z1 ?s2" using e(2) by (subst ll_at_cong(1) [of _ s1]) simp_all
  have same: "vreg ?s2 j = vreg s j" if "j \<in> set is" for j
  proof -
    have "j \<noteq> i" using that Cons.prems(3) by auto
    then show ?thesis using e(3) by simp
  qed
  have mp: "map (\<lambda>j. req_parameter (vreg ?s2 j)) is = map (\<lambda>j. req_parameter (vreg s j)) is"
    "map (\<lambda>j. ll_request_of (vreg ?s2 j)) is = map (\<lambda>j. ll_request_of (vreg s j)) is"
    using same by simp_all
  have bd: "\<forall>j \<in> set is. ?q \<le> req_parameter (vreg ?s2 j) \<and> 0 < req_parameter (vreg ?s2 j) \<and> req_parameter (vreg ?s2 j) < 0xFFFFFFFF"
    using Cons.prems(2,4) same by simp
  obtain s' where r: "ll_exec_all dbg is z1 ?s2 = Some s'" "ll_holds s' (fst (cap_run ?S1 (map (\<lambda>i. ll_request_of (vreg s i)) is)))"
      "ll_answered (vreg ?s2) (vreg s') is (snd (cap_run ?S1 (map (\<lambda>i. ll_request_of (vreg s i)) is)))"
    using Cons.IH [OF at _ _ bd] Cons.prems(2,3) unfolding mp by auto
  have "ll_answered (vreg s) (vreg s') (i # is) (?r # snd (cap_run ?S1 (map (\<lambda>i. ll_request_of (vreg s i)) is)))"
    by (rule ll_answered_Cons [OF r(3)]) (use Cons.prems(3) e(3) in simp_all)
  then show ?case using e(1) r(1,2) by (simp add: ll_request_of_def split_beta)
qed

lemma ll_gather_set: "i \<in> set (ll_gather n s) \<longleftrightarrow> i < n \<and> CHECK_VALID_REQUEST (info_bits (vreg s i)) \<noteq> 0"
  by (auto simp: ll_gather_def)

lemma ll_gather_distinct: "distinct (ll_gather n s)"
  by (simp add: ll_gather_def)

text \<open>Every pending request is served, in an order sorted by parameter.\<close>

lemma linked_list_ops_correct:
  assumes "ll_holds s S" and "\<forall>i \<in> set (ll_gather nthreads s). 0 < req_parameter (vreg s i) \<and> req_parameter (vreg s i) < 0xFFFFFFFF"
  shows "\<exists>is s'. linked_list_ops nthreads dbg arr s = Some (is @ drop (length is) arr, s') \<and>
    mset is = mset (ll_gather nthreads s) \<and> sorted (map (\<lambda>i. req_parameter (vreg s i)) is) \<and>
    ll_holds s' (fst (cap_run S (map (\<lambda>i. ll_request_of (vreg s i)) is))) \<and>
    ll_answered (vreg s) (vreg s') is (snd (cap_run S (map (\<lambda>i. ll_request_of (vreg s i)) is)))"
proof -
  let ?g = "ll_gather nthreads s" and ?par = "\<lambda>i. req_parameter (vreg s i)"
  obtain "is" where q: "quicksort ?par 0 (int (length ?g) - 1) (?g @ drop (length ?g) arr) = Some (is @ drop (length ?g) arr)"
      "mset is = mset ?g" "sorted (map ?par is)"
    using quicksort_array by blast
  have ln: "length is = length ?g" using q(2) by (metis mset_eq_length)
  have st: "set is = set ?g" using q(2) by (rule mset_eq_setD)
  have di: "distinct is" using ll_gather_distinct [of nthreads s] q(2) by (metis mset_eq_imp_distinct_iff)
  obtain c where c: "vrd (vmem s) (fld (sreg s 4) 1) = Some c" "ll_at 1 S (sreg s 4, c) s" using ll_at_start [OF assms(1), of 1] by auto
  have "\<forall>i \<in> set is. 1 \<le> ?par i \<and> 0 < ?par i \<and> ?par i < 0xFFFFFFFF"
    using assms(2) st by (simp add: word_le_nat_alt word_less_nat_alt Suc_le_eq)
  from ll_exec_all_correct [OF c(2) q(3) di this, of dbg] obtain s' where s':
    "ll_exec_all dbg is (sreg s 4, c) s = Some s'" "ll_holds s' (fst (cap_run S (map (\<lambda>i. ll_request_of (vreg s i)) is)))"
    "ll_answered (vreg s) (vreg s') is (snd (cap_run S (map (\<lambda>i. ll_request_of (vreg s i)) is)))" by blast
  have "linked_list_ops nthreads dbg arr s = Some (is @ drop (length is) arr, s')"
    using q(1) c(1) s'(1) ln by (simp add: linked_list_ops_def Let_def)
  then show ?thesis using q s' by blast
qed

subsection \<open>Initial nodes\<close>

definition ll_skips :: "ll_pim \<Rightarrow> u32 list \<Rightarrow> u32 list \<Rightarrow> bool" where
  "ll_skips s as fs \<longleftrightarrow> vs_nodes 16 LL_NUM_MEM_BLOCKS 1 15 14 s as fs \<and> set as \<union> set fs = ll_blocks"

text \<open>The lowest level of the skip list is the list.\<close>

lemma ll_skips_nodes: "ll_skips s as fs \<Longrightarrow> ll_nodes s as fs \<and> ll_keys s as = vs_keys s as"
proof -
  assume R: "ll_skips s as fs"
  note D = lbs.nodesD [of 14 s as fs]
  have N: "vs_nodes 16 LL_NUM_MEM_BLOCKS 1 15 14 s as fs" using R by (simp add: ll_skips_def)
  note ok = D(1) [OF N]
  have "at_level (vs_height 15 (vmem s)) 0 as = as" using skip_okD(6) [OF ok] by (simp add: at_level_def)
  then have "sorted_chain (vs_link 1 (vmem s) 0) (vmem s) (sreg s 4) as" using skip_okD(8) [OF ok, of 0] by simp
  moreover have "vs_link 1 (vmem s) 0 = ll_link (vmem s)" by (simp add: vs_link_def ll_link_def fun_eq_iff)
  ultimately show ?thesis
    using D [OF N] skip_okD(1) [OF ok] R by (simp add: ll_nodes_def ll_skips_def ll_keys_def vs_keys_def)
qed

lemma ll_initial_add_correct:
  assumes R: "ll_skips s as fs" and p: "0 < req_parameter (vreg s 0)" "req_parameter (vreg s 0) < 0xFFFFFFFF"
    and v: "CHECK_VALID_REQUEST (info_bits (vreg s 0)) \<noteq> 0" and k: "0 < unat (sreg s 1)" "unat (sreg s 1) \<le> 14"
    and room: "fs \<noteq> []"
  shows "\<exists>s' as' fs'. ll_initial_add s = Some s' \<and> ll_skips s' as' fs' \<and>
    vs_keys s' as' = insert (req_parameter (vreg s 0)) (vs_keys s as) \<and>
    length fs' = (if req_parameter (vreg s 0) \<in> vs_keys s as then length fs else length fs - 1) \<and>
    vreg s' = (vreg s)(0 := ll_answer (of_bool (req_parameter (vreg s 0) \<notin> vs_keys s as)) (vreg s 0)) \<and> sreg s' 0 = sreg s 0"
proof -
  let ?p = "req_parameter (vreg s 0)" and ?lv = "vs_height 15 (vmem s)"
  have N: "vs_nodes 16 LL_NUM_MEM_BLOCKS 1 15 14 s as fs" using R by (simp add: ll_skips_def)
  obtain F P Q where r: "find_nodes (vs_rd 1 (vmem s)) ?p True 14 (sreg s 4) 0 Map.empty Map.empty = Some (F, P, Q)"
      and d: "descended (vmem s) ?lv as ?p True 14 0 Map.empty Map.empty (F, P, Q)"
    using lbs.nodes_find [OF N _ p(1), of True Map.empty Map.empty] by auto
  have mem: "?p \<in> vs_keys s as \<longleftrightarrow> (\<exists>a \<in> set as. vmem s a = ?p)" using p by (auto simp: vs_keys_def keys_between_def intro: rev_image_eqI)
  show ?thesis
  proof (cases "F = 0")
    case True
    then have nw: "\<forall>b \<in> set as. vmem s b \<noteq> ?p" and ps: "\<And>l. l < 14 \<Longrightarrow> P l = Some (pred_at (vmem s) ?lv as ?p l)"
        "\<And>l. l < 14 \<Longrightarrow> Q l = Some (succ_at (vmem s) ?lv as ?p l)"
      using d by (simp_all add: descended_def)
    obtain a fs' where fs: "fs = a # fs'" using room by (cases fs) auto
    obtain s1 where a: "vs_add 1 15 (sreg s 1) ?p P Q s = Some s1"
        "vs_nodes 16 LL_NUM_MEM_BLOCKS 1 15 14 s1 (before (vmem s) ?p as @ a # from_on (vmem s) ?p as) fs'"
        "vs_keys s1 (before (vmem s) ?p as @ a # from_on (vmem s) ?p as) = insert ?p (vs_keys s as)" "vreg s1 = vreg s" "\<forall>j. j \<noteq> 3 \<longrightarrow> sreg s1 j = sreg s j"
      using lbs.nodes_add [OF N [unfolded fs] _ k p nw ps] by auto
    let ?s' = "s1\<lparr>vreg := (vreg s)(0 := ll_answer 1 (vreg s 0))\<rparr>" and ?as = "before (vmem s) ?p as @ a # from_on (vmem s) ?p as"
    have "ll_initial_add s = Some ?s'" using v r True a(1,4) by (simp add: ll_initial_add_def ll_answer_def Let_def)
    moreover have "set ?as \<union> set fs' = ll_blocks"
      using R set_split [OF skip_okD(7) [OF lbs.nodesD(1) [OF N]], of ?p] fs by (auto simp: ll_skips_def)
    then have "ll_skips ?s' ?as fs'" using a(2) by (simp add: ll_skips_def vs_nodes_def free_ok_def)
    moreover have "vs_keys ?s' ?as = insert ?p (vs_keys s as)" using a(3) by (simp add: vs_keys_def)
    moreover have "?p \<notin> vs_keys s as" using mem nw by blast
    ultimately show ?thesis using a(5) fs by (intro exI [of _ ?s'] exI [of _ ?as] exI [of _ fs']) simp
  next
    case False
    then have mem': "?p \<in> vs_keys s as" using d mem by (auto simp: descended_def)
    let ?s' = "s\<lparr>vreg := (vreg s)(0 := ll_answer 0 (vreg s 0))\<rparr>"
    have "ll_initial_add s = Some ?s'" using v r False by (simp add: ll_initial_add_def ll_answer_def SET_RETVAL_def Let_def)
    moreover have "ll_skips ?s' as fs" using R by (simp add: ll_skips_def vs_nodes_def free_ok_def)
    moreover have "vs_keys ?s' as = insert ?p (vs_keys s as)" using mem' by (auto simp: vs_keys_def)
    ultimately show ?thesis using mem' by (intro exI [of _ ?s'] exI [of _ as] exI [of _ fs]) simp
  qed
qed

subsection \<open>A session with the host\<close>

text \<open>
  The host side: one thread's request (\<open>LINKED_LIST_OPERATION\<close>; the thread's copy of \<open>info_bits\<close> is what it last
  read from its slot), the initial nodes that \<open>main\<close> adds through slot 0, and rounds in each of
  which the kernel finds the requests \<open>(thread, operation, key)\<close> of some threads pending.
\<close>

definition ll_rand_level :: "u32 \<Rightarrow> nat" where
  "ll_rand_level r = randomLevel 14 r"

definition ll_host_write :: "nat \<times> u16 \<times> u32 \<Rightarrow> ll_pim \<Rightarrow> ll_pim" where
  "ll_host_write = (\<lambda>(t, op, k) s. s\<lparr>vreg := (vreg s)(t := ll_request (info_bits (vreg s t)) op k (vreg s t))\<rparr>)"

fun ll_initial_adds :: "(u32 \<times> u32) list \<Rightarrow> ll_pim \<Rightarrow> ll_pim option" where
  "ll_initial_adds [] s = Some s"
| "ll_initial_adds ((k, r) # ks) s =
     do { s1 \<leftarrow> ll_initial_add (ll_host_write (0, LL_ADD_OP, k) (set_sreg 1 (of_nat (ll_rand_level r)) s));
          ll_initial_adds ks s1 }"

fun ll_rounds :: "nat \<Rightarrow> bool \<Rightarrow> nat list \<Rightarrow> (nat \<times> u16 \<times> u32) list list \<Rightarrow> ll_pim \<Rightarrow> (u16 list list \<times> ll_pim) option" where
  "ll_rounds nthreads dbg arr [] s = Some ([], s)"
| "ll_rounds nthreads dbg arr (b # bs) s =
     do { (arr1, s1) \<leftarrow> linked_list_ops nthreads dbg arr (fold ll_host_write b s);
          (outs, s2) \<leftarrow> ll_rounds nthreads dbg arr1 bs s1;
          Some (map (\<lambda>(t, op, k). GET_RETVAL (info_bits (vreg s1 t))) b # outs, s2) }"

text \<open>What the threads may see: each round is explained by the requests in some order of their keys.\<close>

fun ll_rounds_spec :: "u32 set \<times> nat \<Rightarrow> (nat \<times> u16 \<times> u32) list list \<Rightarrow> u16 list list \<Rightarrow> u32 set \<times> nat \<Rightarrow> bool" where
  "ll_rounds_spec S [] outs S' \<longleftrightarrow> outs = [] \<and> S' = S"
| "ll_rounds_spec S (b # bs) outs S' \<longleftrightarrow>
     (\<exists>out outs' b'. outs = out # outs' \<and> length out = length b \<and> mset b' = mset b \<and> sorted (map (\<lambda>(t, op, k). k) b') \<and>
        mset (zip b out) = mset (zip b' (snd (cap_run S (map (\<lambda>(t, op, k). (ll_op_of op, k)) b')))) \<and>
        ll_rounds_spec (fst (cap_run S (map (\<lambda>(t, op, k). (ll_op_of op, k)) b'))) bs outs' S')"

definition ll_quiet :: "nat \<Rightarrow> ll_pim \<Rightarrow> bool" where
  "ll_quiet nthreads s \<longleftrightarrow> (\<forall>i < nthreads. CHECK_VALID_REQUEST (info_bits (vreg s i)) = 0)"

definition ll_batch :: "nat \<Rightarrow> (nat \<times> u16 \<times> u32) list \<Rightarrow> bool" where
  "ll_batch nthreads b \<longleftrightarrow> distinct (map fst b) \<and> (\<forall>(t, op, k) \<in> set b. t < nthreads \<and> ll_op op \<and> 0 < k \<and> k < 0xFFFFFFFF)"

lemma ll_rand_level_bounds: "0 < unat (of_nat (ll_rand_level r) :: u32)" "unat (of_nat (ll_rand_level r) :: u32) \<le> 14"
proof -
  have b: "0 < ll_rand_level r" "ll_rand_level r < 14" using randomLevel_bounds [of 14 r] by (simp_all add: ll_rand_level_def)
  then have "unat (of_nat (ll_rand_level r) :: u32) = ll_rand_level r" by (subst unat_of_nat) simp
  then show "0 < unat (of_nat (ll_rand_level r) :: u32)" "unat (of_nat (ll_rand_level r) :: u32) \<le> 14" using b by simp_all
qed

lemma ll_initial_adds_correct:
  "ll_skips s as fs \<Longrightarrow> \<forall>(k, r) \<in> set ks. 0 < k \<and> k < 0xFFFFFFFF \<Longrightarrow> length ks \<le> length fs \<Longrightarrow>
   (\<And>i. CHECK_VALID_REQUEST (info_bits (vreg s i)) = 0) \<Longrightarrow>
   \<exists>s' as' fs'. ll_initial_adds ks s = Some s' \<and> ll_skips s' as' fs' \<and> vs_keys s' as' = fst ` set ks \<union> vs_keys s as \<and>
     (\<forall>i. CHECK_VALID_REQUEST (info_bits (vreg s' i)) = 0) \<and> sreg s' 0 = sreg s 0 \<and>
     length fs' + card (vs_keys s' as') = length fs + card (vs_keys s as)"
proof (induction ks arbitrary: s as fs)
  case Nil
  then show ?case by auto
next
  case (Cons kr ks)
  obtain k r where kr: "kr = (k, r)" by (cases kr)
  let ?s1 = "ll_host_write (0, LL_ADD_OP, k) (set_sreg 1 (of_nat (ll_rand_level r)) s)"
  have op: "ll_op LL_ADD_OP" by (simp add: ll_op_def)
  have v: "vreg ?s1 0 = ll_request (info_bits (vreg s 0)) LL_ADD_OP k (vreg s 0)" "\<And>i. i \<noteq> 0 \<Longrightarrow> vreg ?s1 i = vreg s i"
    "sreg ?s1 1 = of_nat (ll_rand_level r)" "sreg ?s1 0 = sreg s 0" "req_parameter (vreg ?s1 0) = k"
    by (simp_all add: ll_host_write_def ll_request_def)
  have R: "ll_skips ?s1 as fs" using Cons.prems(1)
    by (simp add: ll_host_write_def ll_skips_def vs_nodes_def free_ok_def)
  have ky: "vs_keys ?s1 as = vs_keys s as" by (simp add: vs_keys_def ll_host_write_def)
  have ne: "fs \<noteq> []" using Cons.prems(3) by auto
  have cv: "CHECK_VALID_REQUEST (info_bits (vreg ?s1 0)) \<noteq> 0" using request_read(2) [OF op] v(1) by simp
  have lev: "0 < unat (sreg ?s1 1)" "unat (sreg ?s1 1) \<le> 14" unfolding v(3) by (rule ll_rand_level_bounds)+
  have kb: "0 < req_parameter (vreg ?s1 0)" "req_parameter (vreg ?s1 0) < 0xFFFFFFFF" unfolding v(5) using Cons.prems(2) kr by auto
  from ll_initial_add_correct [OF R kb cv lev ne] obtain s2 as2 fs2 where s2: "ll_initial_add ?s1 = Some s2" "ll_skips s2 as2 fs2"
      "vs_keys s2 as2 = insert k (vs_keys s as)" "length fs2 = (if k \<in> vs_keys s as then length fs else length fs - 1)"
      "vreg s2 = (vreg ?s1)(0 := ll_answer (of_bool (k \<notin> vs_keys s as)) (vreg ?s1 0))" "sreg s2 0 = sreg s 0"
    unfolding v(4,5) ky by blast
  have "CHECK_VALID_REQUEST (info_bits (vreg s2 i)) = 0" for i
    unfolding s2(5) using v(2) [of i] Cons.prems(4) [of i] by (cases "i = 0") simp_all
  moreover have "\<forall>(k, r) \<in> set ks. 0 < k \<and> k < 0xFFFFFFFF" using Cons.prems(2) by simp
  moreover have "length ks \<le> length fs2" unfolding s2(4) using Cons.prems(3) by (auto simp: Suc_le_eq)
  ultimately obtain s' as' fs' where "ll_initial_adds ks s2 = Some s'" "ll_skips s' as' fs'" "vs_keys s' as' = fst ` set ks \<union> vs_keys s2 as2"
      "\<forall>i. CHECK_VALID_REQUEST (info_bits (vreg s' i)) = 0" "sreg s' 0 = sreg s2 0"
      "length fs' + card (vs_keys s' as') = length fs2 + card (vs_keys s2 as2)"
    using Cons.IH [OF s2(2)] by blast
  moreover have "length fs2 + card (vs_keys s2 as2) = length fs + card (vs_keys s as)"
    unfolding s2(3,4) using ne by (cases fs) (auto simp: insert_absorb)
  ultimately show ?case using s2(1,3,6) kr by (intro exI [of _ s'] exI [of _ as'] exI [of _ fs']) simp
qed

subsection \<open>Rounds\<close>

lemma fold_host_write:
  "distinct (map fst b) \<Longrightarrow>
   (\<forall>(t, op, k) \<in> set b. vreg (fold ll_host_write b s) t = ll_request (info_bits (vreg s t)) op k (vreg s t)) \<and>
   (\<forall>j. j \<notin> fst ` set b \<longrightarrow> vreg (fold ll_host_write b s) j = vreg s j) \<and>
   vmem (fold ll_host_write b s) = vmem s \<and> sreg (fold ll_host_write b s) = sreg s"
proof (induction b arbitrary: s)
  case Nil
  then show ?case by simp
next
  case (Cons x b)
  obtain t op k where x: "x = (t, op, k)" by (cases x)
  let ?s1 = "ll_host_write x s"
  have s1: "vreg ?s1 t = ll_request (info_bits (vreg s t)) op k (vreg s t)" "\<And>j. j \<noteq> t \<Longrightarrow> vreg ?s1 j = vreg s j"
    "vmem ?s1 = vmem s" "sreg ?s1 = sreg s" by (simp_all add: ll_host_write_def x)
  note IH = Cons.IH [of ?s1]
  have t: "t \<notin> fst ` set b" "distinct (map fst b)" using Cons.prems x by auto
  have "vreg (fold ll_host_write b ?s1) t' = ll_request (info_bits (vreg s t')) op' k' (vreg s t')" if m: "(t', op', k') \<in> set b" for t' op' k'
  proof -
    have "t' \<noteq> t" using t(1) m by force
    then show ?thesis using IH [OF t(2)] m s1(2) by fastforce
  qed
  then show ?case using IH [OF t(2)] t(1) s1 x by auto
qed

lemma cap_step_result: "snd (cap_step S op p) = 0 \<or> snd (cap_step S op p) = 1"
  by (cases "(S, op, p)" rule: cap_step.cases) auto

lemma cap_run_results: "r \<in> set (snd (cap_run S rs)) \<Longrightarrow> r = 0 \<or> r = 1"
proof (induction rs arbitrary: S)
  case (Cons x rs)
  obtain op p where x: "x = (op, p)" by (cases x)
  show ?case using Cons.IH [of "fst (cap_step S op p)"] Cons.prems cap_step_result [of S op p] by (auto simp: x split_beta)
qed simp

lemma cap_run_length [simp]: "length (snd (cap_run S rs)) = length rs"
proof (induction rs arbitrary: S)
  case (Cons x rs)
  then show ?case by (cases x) (simp add: split_beta)
qed simp

lemma ll_quiet_gather:
  assumes Q: "ll_quiet n s" and B: "ll_batch n b"
  shows "mset (ll_gather n (fold ll_host_write b s)) = mset (map fst b)"
proof -
  let ?s0 = "fold ll_host_write b s"
  have d: "distinct (map fst b)" using B by (simp add: ll_batch_def)
  note F = fold_host_write [OF d, of s]
  have "i \<in> set (ll_gather n ?s0) \<longleftrightarrow> i \<in> fst ` set b" for i
  proof (cases "i \<in> fst ` set b")
    case True
    then obtain op k where m: "(i, op, k) \<in> set b" by auto
    then have "i < n" "ll_op op" using B by (auto simp: ll_batch_def)
    then show ?thesis using True m F request_read(2) [of op] by (auto simp: ll_gather_set)
  next
    case False
    then show ?thesis using F Q by (auto simp: ll_gather_set ll_quiet_def)
  qed
  then have "set (ll_gather n ?s0) = set (map fst b)" by auto
  then show ?thesis using d ll_gather_distinct [of n ?s0] by (simp only: set_eq_iff_mset_eq_distinct)
qed

lemma batch_lookup: "distinct (map fst b) \<Longrightarrow> map (\<lambda>i. (i, the (map_of b i))) (map fst b) = b"
proof -
  assume d: "distinct (map fst b)"
  have "(fst x, the (map_of b (fst x))) = x" if "x \<in> set b" for x
    using that map_of_is_SomeI [OF d, of "fst x" "snd x"] by simp
  then show ?thesis by (simp add: map_idI)
qed

text \<open>One round: the order in which the kernel served the requests explains what the threads read.\<close>

lemma ll_round_correct:
  assumes H: "ll_holds s S" and Q: "ll_quiet n s" and B: "ll_batch n b"
  shows "\<exists>arr1 s1 b'. linked_list_ops n dbg arr (fold ll_host_write b s) = Some (arr1, s1) \<and>
    mset b' = mset b \<and> sorted (map (\<lambda>(t, op, k). k) b') \<and>
    ll_holds s1 (fst (cap_run S (map (\<lambda>(t, op, k). (ll_op_of op, k)) b'))) \<and> ll_quiet n s1 \<and>
    map (\<lambda>(t, op, k). GET_RETVAL (info_bits (vreg s1 t))) b' = snd (cap_run S (map (\<lambda>(t, op, k). (ll_op_of op, k)) b'))"
proof -
  let ?s0 = "fold ll_host_write b s" and ?f = "\<lambda>i. (i, the (map_of b i))"
  have d: "distinct (map fst b)" using B by (simp add: ll_batch_def)
  note F = fold_host_write [OF d, of s]
  have H0: "ll_holds ?s0 S" using H F by (subst ll_at_cong(2) [of _ s]) simp_all
  have slot: "\<exists>op k. ?f i = (i, op, k) \<and> (i, op, k) \<in> set b \<and> vreg ?s0 i = ll_request (info_bits (vreg s i)) op k (vreg s i) \<and>
      ll_op op \<and> 0 < k \<and> k < 0xFFFFFFFF" if i: "i \<in> fst ` set b" for i
  proof -
    obtain op k where m: "(i, op, k) \<in> set b" using i by auto
    then have "map_of b i = Some (op, k)" using d by simp
    then show ?thesis using m F B by (fastforce simp: ll_batch_def)
  qed
  have gm: "mset (ll_gather n ?s0) = mset (map fst b)" by (rule ll_quiet_gather [OF Q B])
  have gs: "set (ll_gather n ?s0) = fst ` set b" using mset_eq_setD [OF gm] by simp
  have "\<forall>i \<in> set (ll_gather n ?s0). 0 < req_parameter (vreg ?s0 i) \<and> req_parameter (vreg ?s0 i) < 0xFFFFFFFF"
    unfolding gs using slot by (fastforce simp: ll_request_def)
  from linked_list_ops_correct [OF H0 this, of dbg arr] obtain "is" s1 where r:
    "linked_list_ops n dbg arr ?s0 = Some (is @ drop (length is) arr, s1)" "mset is = mset (ll_gather n ?s0)"
    "sorted (map (\<lambda>i. req_parameter (vreg ?s0 i)) is)"
    "ll_holds s1 (fst (cap_run S (map (\<lambda>i. ll_request_of (vreg ?s0 i)) is)))"
    "ll_answered (vreg ?s0) (vreg s1) is (snd (cap_run S (map (\<lambda>i. ll_request_of (vreg ?s0 i)) is)))" by blast
  let ?b = "map ?f is"
  have si: "set is = fst ` set b" using mset_eq_setD [OF r(2)] gs by simp
  have "mset ?b = mset (map ?f (map fst b))" unfolding mset_map [of ?f] r(2) gm ..
  then have mb: "mset ?b = mset b" unfolding batch_lookup [OF d] .
  have rq: "map (\<lambda>i. ll_request_of (vreg ?s0 i)) is = map (\<lambda>(t, op, k). (ll_op_of op, k)) ?b"
  proof -
    have "ll_request_of (vreg ?s0 i) = (\<lambda>(t, op, k). (ll_op_of op, k)) (?f i)" if "i \<in> set is" for i
    proof -
      obtain op k where "?f i = (i, op, k)" "vreg ?s0 i = ll_request (info_bits (vreg s i)) op k (vreg s i)" "ll_op op"
        using slot [of i] \<open>i \<in> set is\<close> si by blast
      then show ?thesis using request_read(1) [of op] by (simp add: ll_request_of_def ll_request_def)
    qed
    then show ?thesis by simp
  qed
  have ky: "map (\<lambda>i. req_parameter (vreg ?s0 i)) is = map (\<lambda>(t, op, k). k) ?b"
  proof -
    have "req_parameter (vreg ?s0 i) = (\<lambda>(t, op, k). k) (?f i)" if "i \<in> set is" for i
      using slot [of i] that si by (auto simp: ll_request_def)
    then show ?thesis by simp
  qed
  let ?rs = "snd (cap_run S (map (\<lambda>(t, op, k). (ll_op_of op, k)) ?b))"
  have A: "info_bits (vreg s1 (is ! k)) = info_bits (ll_answer (?rs ! k) (vreg ?s0 (is ! k)))" if "k < length is" for k
    using r(5) that unfolding rq by (simp add: ll_answered_def)
  have r01: "?rs ! k = 0 \<or> ?rs ! k = 1" if "k < length is" for k
    using cap_run_results [of "?rs ! k" S "map (\<lambda>(t, op, k). (ll_op_of op, k)) ?b"] that by simp
  have out: "map (\<lambda>(t, op, k). GET_RETVAL (info_bits (vreg s1 t))) ?b = ?rs"
  proof (rule nth_equalityI)
    fix k assume "k < length (map (\<lambda>(t, op, k). GET_RETVAL (info_bits (vreg s1 t))) ?b)"
    then have k: "k < length is" by simp
    obtain op key where "vreg ?s0 (is ! k) = ll_request (info_bits (vreg s (is ! k))) op key (vreg s (is ! k))" "ll_op op"
      using slot [of "is ! k"] si nth_mem [OF k] by blast
    then have "GET_RETVAL (info_bits (vreg ?s0 (is ! k))) = 0" by (simp add: request_no_result)
    then show "map (\<lambda>(t, op, k). GET_RETVAL (info_bits (vreg s1 t))) ?b ! k = ?rs ! k"
      using answer_result [OF _ r01 [OF k]] A [OF k] k by (simp add: split_beta)
  qed simp
  have "ll_quiet n s1"
    unfolding ll_quiet_def
  proof (intro allI impI)
    fix i assume i: "i < n"
    show "CHECK_VALID_REQUEST (info_bits (vreg s1 i)) = 0"
    proof (cases "i \<in> set is")
      case True
      then obtain k where "k < length is" "is ! k = i" by (auto simp: in_set_conv_nth)
      then show ?thesis using A r01 by fastforce
    next
      case False
      then show ?thesis using r(5) si F Q i by (auto simp: ll_answered_def ll_quiet_def)
    qed
  qed
  then show ?thesis using r(1,3,4) mb out unfolding rq ky by blast
qed

lemma zip_outputs:
  assumes "mset b' = mset b"
  shows "mset (zip b (map f b)) = mset (zip b' (map f b'))"
proof -
  have "zip c (map f c) = map (\<lambda>x. (x, f x)) c" for c by (simp add: zip_map2 zip_same_conv_map)
  then show ?thesis using assms by simp
qed

lemma ll_rounds_correct:
  "ll_holds s S \<Longrightarrow> ll_quiet n s \<Longrightarrow> \<forall>b \<in> set bs. ll_batch n b \<Longrightarrow>
   \<exists>outs s' S'. ll_rounds n dbg arr bs s = Some (outs, s') \<and> ll_rounds_spec S bs outs S' \<and> ll_holds s' S'"
proof (induction bs arbitrary: s S arr)
  case Nil
  then show ?case by auto
next
  case (Cons b bs)
  let ?rq = "map (\<lambda>(t, op, k). (ll_op_of op, k))"
  obtain arr1 s1 b' where r: "linked_list_ops n dbg arr (fold ll_host_write b s) = Some (arr1, s1)" "mset b' = mset b"
      "sorted (map (\<lambda>(t, op, k). k) b')" "ll_holds s1 (fst (cap_run S (?rq b')))" "ll_quiet n s1"
      "map (\<lambda>(t, op, k). GET_RETVAL (info_bits (vreg s1 t))) b' = snd (cap_run S (?rq b'))"
    using ll_round_correct [OF Cons.prems(1,2), of b dbg arr] Cons.prems(3) by auto
  obtain outs s' S' where q: "ll_rounds n dbg arr1 bs s1 = Some (outs, s')" "ll_rounds_spec (fst (cap_run S (?rq b'))) bs outs S'" "ll_holds s' S'"
    using Cons.IH [OF r(4,5), of arr1] Cons.prems(3) by auto
  let ?out = "map (\<lambda>(t, op, k). GET_RETVAL (info_bits (vreg s1 t))) b"
  have "mset (zip b ?out) = mset (zip b' (snd (cap_run S (?rq b'))))"
    using zip_outputs [OF r(2)] r(6) by metis
  then have "ll_rounds_spec S (b # bs) (?out # outs) S'" using r(2,3) q(2) by auto
  moreover have "ll_rounds n dbg arr (b # bs) s = Some (?out # outs, s')" using r(1) q(1) by simp
  ultimately show ?case using q(3) by blast
qed

subsection \<open>Printing\<close>

lemma ll_print_from_nodes:
  "lpath (ll_link m) c (c # ks @ [tn]) 0 \<Longrightarrow> ks \<noteq> [] \<Longrightarrow> set (c # ks @ [tn]) \<subseteq> ll_blocks \<Longrightarrow> tn \<notin> set ks \<Longrightarrow>
   ll_print_from m tn c = Some (map m ks)"
proof (induction ks arbitrary: c)
  case (Cons k ks)
  have c: "ll_rd m c = Some (m c, k)" using Cons.prems(1,3) ll_rd_node [of c m] by simp
  have k: "ll_rd m k = Some (m k, ll_link m k)" using Cons.prems(3) ll_rd_node [of k m] by simp
  show ?case
  proof (cases "ks = []")
    case True
    then have "ll_link m k = tn" using Cons.prems(1) by simp
    then show ?thesis using c k True by (subst ll_print_from.simps) simp
  next
    case False
    then have "ll_link m k \<in> set ks" using Cons.prems(1) by (cases ks) auto
    then have "ll_link m k \<noteq> tn" using Cons.prems(4) by auto
    moreover have "ll_print_from m tn k = Some (map m ks)" using Cons.IH [of k] Cons.prems False by simp
    ultimately show ?thesis using c k by (subst ll_print_from.simps) simp
  qed
qed simp

lemma ll_print_empty:
  assumes "lpath (ll_link m) c [c, tn] 0" and "c \<in> ll_blocks" "tn \<in> ll_blocks"
  shows "ll_print_from m tn c = None"
proof -
  have z: "ll_rd m 0 = None" by (simp add: ll_rd_def vrd_def in_vault_def BLOCK_BASE_ADDR_def)
  have l: "ll_link m c = tn" "ll_link m tn = 0" "tn \<noteq> 0" using assms(1) by auto
  have "ll_print_from m tn tn = None"
    using ll_rd_node [OF assms(3), of m] l z by (subst ll_print_from.simps) simp
  then show ?thesis using ll_rd_node [OF assms(2), of m] ll_rd_node [OF assms(3), of m] l by (subst ll_print_from.simps) simp
qed

lemma ll_nodes_shape:
  assumes "ll_nodes s as fs"
  obtains ks where "as = sreg s 4 # ks @ [sreg s 5]" and "sreg s 5 \<notin> set ks" and "ll_keys s as = vmem s ` set ks" and "sorted_keys (vmem s) ks"
proof -
  note D = ll_nodesD [OF assms]
  obtain bs where as: "as = sreg s 4 # bs" using D(2,4) by (cases as) auto
  have "bs \<noteq> []" using D(5,6) as by auto
  then obtain ks where bs: "bs = ks @ [sreg s 5]" using D(12) as by (metis append_butlast_last_id last_ConsR)
  have vt: "vmem s (sreg s 5) = 0xFFFFFFFF" using D(6) unfolding D(12) .
  have sk: "sorted_keys (vmem s) ks" "\<forall>a \<in> set ks. 0 < vmem s a \<and> vmem s a < 0xFFFFFFFF"
  proof -
    have "sorted_keys (vmem s) (sreg s 4 # ks @ [sreg s 5])" using D(3) unfolding as bs .
    then show "sorted_keys (vmem s) ks" "\<forall>a \<in> set ks. 0 < vmem s a \<and> vmem s a < 0xFFFFFFFF"
      using D(5) vt by (auto simp: path_simps)
  qed
  show thesis
  proof (rule that)
    show "as = sreg s 4 # ks @ [sreg s 5]" using as bs by simp
    show "sreg s 5 \<notin> set ks" using sorted_chain_distinct [OF D(1)] as bs by simp
    show "ll_keys s as = vmem s ` set ks"
      unfolding as bs using sk(2) D(5) vt by (auto simp: ll_keys_def keys_between_def)
    show "sorted_keys (vmem s) ks" by (rule sk(1))
  qed
qed

subsection \<open>Properties\<close>

text \<open>
  C14. A pass of the kernel serves every pending request: they are executed in an order sorted by
  parameter, each answered in its slot as the set of keys with that many free nodes answers it, the other
  slots are unchanged, and the vault still holds exactly that set with every block either in the
  list or free.
\<close>

theorem linked_list_ops_serves:
  assumes "ll_holds s S" and "\<forall>i \<in> set (ll_gather nthreads s). 0 < req_parameter (vreg s i) \<and> req_parameter (vreg s i) < 0xFFFFFFFF"
  shows "\<exists>is s'. linked_list_ops nthreads dbg arr s = Some (is @ drop (length is) arr, s') \<and>
    mset is = mset (ll_gather nthreads s) \<and> sorted (map (\<lambda>i. req_parameter (vreg s i)) is) \<and>
    ll_holds s' (fst (cap_run S (map (\<lambda>i. ll_request_of (vreg s i)) is))) \<and>
    ll_answered (vreg s) (vreg s') is (snd (cap_run S (map (\<lambda>i. ll_request_of (vreg s i)) is)))"
  by (rule linked_list_ops_correct [OF assms])

definition ll_zero :: ll_pim where
  "ll_zero = \<lparr>sreg = \<lambda>_. 0, vmem = \<lambda>_. 0, vreg = \<lambda>_. \<lparr>info_bits = 0, timestamp = 0, req_parameter = 0\<rparr>\<rparr>"

lemma ll_list_init_skips:
  "\<exists>s' fs. ll_list_init s = Some s' \<and> ll_skips s' [sreg s' 4, sreg s' 5] fs \<and> vs_keys s' [sreg s' 4, sreg s' 5] = {} \<and>
     length fs = LL_NUM_MEM_BLOCKS - 2 \<and> vreg s' = vreg s \<and> sreg s' 0 = sreg s 0"
proof -
  have "2 \<le> LL_NUM_MEM_BLOCKS" by (simp add: LL_NUM_MEM_BLOCKS_def VAULT_SIZE_def)
  from lbs.list_init_nodes [OF this, of 14 s] show ?thesis
    unfolding ll_list_init_def ll_skips_def by (auto simp del: mult_numeral_1)
qed

lemma ll_init_holds:
  obtains s where "ll_list_init ll_zero = Some s" and "ll_holds s ({}, LL_NUM_MEM_BLOCKS - 2)" and "vreg s = vreg ll_zero"
proof -
  obtain s fs where s: "ll_list_init ll_zero = Some s" "ll_skips s [sreg s 4, sreg s 5] fs" "vs_keys s [sreg s 4, sreg s 5] = {}"
      "length fs = LL_NUM_MEM_BLOCKS - 2" "vreg s = vreg ll_zero"
    using ll_list_init_skips [of ll_zero] by auto
  have "ll_holds s ({}, LL_NUM_MEM_BLOCKS - 2)"
    unfolding ll_holds_def using ll_skips_nodes [OF s(2)] s(3,4)
    by (intro exI [of _ "[sreg s 4, sreg s 5]"] exI [of _ fs]) simp
  then show thesis using that s by blast
qed

theorem linked_list_ops_serves_witness:
  "\<exists>s is s'. ll_list_init ll_zero = Some s \<and>
     linked_list_ops 1 False [5] (ll_host_write (0, LL_ADD_OP, 7) s) = Some (is @ drop (length is) [5], s') \<and> mset is = {#0#} \<and>
     ll_holds s' ({7}, LL_NUM_MEM_BLOCKS - 3)"
proof -
  obtain s where s: "ll_list_init ll_zero = Some s" "ll_holds s ({}, LL_NUM_MEM_BLOCKS - 2)" "vreg s = vreg ll_zero" by (rule ll_init_holds)
  let ?s = "ll_host_write (0, LL_ADD_OP, 7) s"
  have v: "vreg ?s 0 = ll_request 0 LL_ADD_OP 7 \<lparr>info_bits = 0, timestamp = 0, req_parameter = 0\<rparr>"
    using s(3) by (simp add: ll_host_write_def ll_zero_def)
  have h: "ll_holds ?s ({}, LL_NUM_MEM_BLOCKS - 2)"
    using s(2) by (subst ll_at_cong(2) [of _ s]) (simp_all add: ll_host_write_def)
  have op: "ll_op LL_ADD_OP" by (simp add: ll_op_def)
  have g: "ll_gather 1 ?s = [0]"
    using request_read(2) [OF op, of 0 7] v by (simp add: ll_gather_def)
  have rq: "ll_request_of (vreg ?s 0) = (Some Add, 7)"
    unfolding ll_request_of_def v request_read(1) [OF op]
    by (simp add: ll_request_def ll_op_of_def LL_ADD_OP_def LL_CONTAINS_OP_def)
  have p: "req_parameter (vreg ?s 0) = 7" by (simp add: v ll_request_def)
  have n: "LL_NUM_MEM_BLOCKS - 2 = Suc (LL_NUM_MEM_BLOCKS - 3)" by (simp add: LL_NUM_MEM_BLOCKS_def VAULT_SIZE_def)
  have b: "\<forall>i \<in> set (ll_gather 1 ?s). 0 < req_parameter (vreg ?s i) \<and> req_parameter (vreg ?s i) < 0xFFFFFFFF" unfolding g using p by simp
  obtain "is" s' where r: "linked_list_ops 1 False [5] ?s = Some (is @ drop (length is) [5], s')" "mset is = mset (ll_gather 1 ?s)"
      "ll_holds s' (fst (cap_run ({}, LL_NUM_MEM_BLOCKS - 2) (map (\<lambda>i. ll_request_of (vreg ?s i)) is)))"
    using linked_list_ops_serves [OF h b, of False "[5]"] by blast
  have "is = [0]" using r(2) g by simp
  then have "map (\<lambda>i. ll_request_of (vreg ?s i)) is = [(Some Add, 7)]" using rq by simp
  then have "ll_holds s' ({7}, LL_NUM_MEM_BLOCKS - 3)" using r(3) n by simp
  then show ?thesis using s(1) r(1) \<open>is = [0]\<close> by (intro exI [of _ s] exI [of _ "is"] exI [of _ s']) simp
qed

text \<open>
  C13. A whole session: whatever distinct or repeated keys the host adds first, as long as they fit, and whatever
  requests the threads then have pending in each round, the kernel never fails and all the threads
  read is explained by one set of keys, starting with the initial keys, in which the requests of each
  round take effect in some order of their keys.
\<close>

theorem ll_session_linearizable:
  assumes "\<And>i. CHECK_VALID_REQUEST (info_bits (vreg s0 i)) = 0" and "\<forall>(k, r) \<in> set ks. 0 < k \<and> k < 0xFFFFFFFF"
    and "length ks \<le> LL_NUM_MEM_BLOCKS - 2" and "\<forall>b \<in> set bs. ll_batch nthreads b"
  shows "\<exists>s1 s2 outs s3 S. ll_list_init s0 = Some s1 \<and> ll_initial_adds ks s1 = Some s2 \<and>
    ll_rounds nthreads dbg arr bs (set_sreg 0 1 (set_sreg 2 0 s2)) = Some (outs, s3) \<and>
    ll_rounds_spec (fst ` set ks, LL_NUM_MEM_BLOCKS - 2 - card (fst ` set ks)) bs outs S \<and> ll_holds s3 S"
proof -
  obtain s1 fs where i: "ll_list_init s0 = Some s1" "ll_skips s1 [sreg s1 4, sreg s1 5] fs" "vs_keys s1 [sreg s1 4, sreg s1 5] = {}"
      "length fs = LL_NUM_MEM_BLOCKS - 2" "vreg s1 = vreg s0"
    using ll_list_init_skips [of s0] by auto
  obtain s2 as2 fs2 where a: "ll_initial_adds ks s1 = Some s2" "ll_skips s2 as2 fs2" "vs_keys s2 as2 = fst ` set ks"
      "\<forall>i. CHECK_VALID_REQUEST (info_bits (vreg s2 i)) = 0" "length fs2 + card (vs_keys s2 as2) = length fs"
    using ll_initial_adds_correct [OF i(2) assms(2)] assms(1,3) i(3-5) by auto
  let ?s = "set_sreg 0 1 (set_sreg 2 0 s2)"
  have "length fs2 = LL_NUM_MEM_BLOCKS - 2 - card (fst ` set ks)" using a(3,5) i(4) by simp
  then have "ll_holds s2 (fst ` set ks, LL_NUM_MEM_BLOCKS - 2 - card (fst ` set ks))"
    unfolding ll_holds_def using ll_skips_nodes [OF a(2)] a(3) by (intro exI [of _ as2] exI [of _ fs2]) simp
  then have "ll_holds ?s (fst ` set ks, LL_NUM_MEM_BLOCKS - 2 - card (fst ` set ks))"
    by (subst ll_at_cong(2) [of _ s2]) simp_all
  moreover have "ll_quiet nthreads ?s" using a(4) by (simp add: ll_quiet_def)
  ultimately show ?thesis using ll_rounds_correct [OF _ _ assms(4), of ?s _ dbg arr] i(1) a(1) by blast
qed

theorem ll_session_linearizable_witness:
  "\<exists>s1 s2 outs s3 S. ll_list_init ll_zero = Some s1 \<and> ll_initial_adds [(5, 3), (9, 6)] s1 = Some s2 \<and>
    ll_rounds 2 True [0, 0] [[(1, LL_ADD_OP, 5), (0, LL_REMOVE_OP, 9)], [(0, LL_CONTAINS_OP, 9)]] (set_sreg 0 1 (set_sreg 2 0 s2)) = Some (outs, s3) \<and>
    ll_rounds_spec (fst ` set [(5, 3 :: u32), (9, 6)], LL_NUM_MEM_BLOCKS - 2 - card (fst ` set [(5 :: u32, 3 :: u32), (9, 6)]))
      [[(1, LL_ADD_OP, 5), (0, LL_REMOVE_OP, 9)], [(0, LL_CONTAINS_OP, 9)]] outs S \<and> ll_holds s3 S"
proof (rule ll_session_linearizable)
  show "CHECK_VALID_REQUEST (info_bits (vreg ll_zero i)) = 0" for i by (simp add: ll_zero_def CHECK_VALID_REQUEST_def)
  show "length [(5 :: u32, 3 :: u32), (9, 6)] \<le> LL_NUM_MEM_BLOCKS - 2" by (simp add: LL_NUM_MEM_BLOCKS_def VAULT_SIZE_def)
  show "\<forall>b \<in> set [[(1, LL_ADD_OP, 5), (0, LL_REMOVE_OP, 9)], [(0, LL_CONTAINS_OP, 9)]]. ll_batch 2 b"
    by (simp add: ll_batch_def ll_op_def)
qed simp

text \<open>
  C17. \<open>list_print\<close> prints the keys in ascending order, provided there are any: on an empty list it goes on past the
  tail sentinel and follows its null link.
\<close>

theorem ll_print_keys:
  assumes "ll_holds s (A, f)"
  shows "ll_print s = (if A = {} then None else Some (sorted_list_of_set A))"
proof -
  obtain as fs where L: "ll_nodes s as fs" and A: "A = ll_keys s as" using assms by (auto simp: ll_holds_def)
  note D = ll_nodesD [OF L]
  obtain ks where ks: "as = sreg s 4 # ks @ [sreg s 5]" "sreg s 5 \<notin> set ks" "ll_keys s as = vmem s ` set ks" "sorted_keys (vmem s) ks"
    by (rule ll_nodes_shape [OF L])
  have b: "set (sreg s 4 # ks @ [sreg s 5]) \<subseteq> ll_blocks" using D(10) ks(1) by simp
  have p: "lpath (ll_link (vmem s)) (sreg s 4) (sreg s 4 # ks @ [sreg s 5]) 0" using D(2) ks(1) by simp
  show ?thesis
  proof (cases "ks = []")
    case True
    then show ?thesis using ll_print_empty [of "vmem s" "sreg s 4" "sreg s 5"] p b A ks(3) by (simp add: ll_print_def)
  next
    case False
    then have "ll_print s = Some (map (vmem s) ks)" using ll_print_from_nodes [OF p _ b ks(2)] by (simp add: ll_print_def)
    moreover have "sorted_list_of_set A = map (vmem s) ks"
      using ks(3,4) A sorted_list_of_set.idem_if_sorted_distinct [of "map (vmem s) ks"]
      by (simp add: sorted_keys_def strict_sorted_iff)
    ultimately show ?thesis using False A ks(3) by simp
  qed
qed

theorem ll_print_keys_witness: "\<exists>s. ll_list_init ll_zero = Some s \<and> ll_print s = None"
proof -
  obtain s where "ll_list_init ll_zero = Some s" "ll_holds s ({}, LL_NUM_MEM_BLOCKS - 2)" by (rule ll_init_holds)
  then show ?thesis using ll_print_keys [of s "{}"] by auto
qed



end
