(* ===== verification/PIM_SkipList.thy ===== *)
theory PIM_SkipList
  imports PIM_Requests PIM_SkipVault
begin

text \<open>
  The skip-list kernels of the PIM processor (\<open>SW/PIM/kernels/clean_skiplist.c\<close>). Both serve the request slots one
  after the other. A node is a block of 32 words: key, \<open>top_level\<close>, then \<open>next[0]\<close> to \<open>next[29]\<close>.
  \<open>PIM_SREG[6]\<close> is \<open>CURR_MAX_LEVEL\<close>, which the host sets. The arrays \<open>preds\<close> and \<open>succs\<close> lie in \<open>PIM_VREG\<close> behind the
  request slots and keep their contents from one request to the next.

  \<open>kernel_default\<close> is \<open>skp_serve\<close>; \<open>kernel_reduce_redundancy\<close>, which stops the descent at null links and copies
  the pointers it found above, is \<open>skr_serve\<close>.
\<close>

record skp_pim = "skip_request pim" +
  preds_area :: "nat \<rightharpoonup> u32"
  succs_area :: "nat \<rightharpoonup> u32"

definition skp_list_init :: "skp_pim \<Rightarrow> skp_pim option" where
  "skp_list_init = list_init (4 * 32) SKP_NUM_MEM_BLOCKS 2 1 30"

text \<open>The loop variable is a signed \<open>int\<close>.\<close>

definition cur_levels :: "skp_pim \<Rightarrow> nat" where
  "cur_levels s = nat (sint (sreg s 6 - 1) + 1)"

definition skp_finish :: "bool \<Rightarrow> nat \<Rightarrow> u8 \<Rightarrow> skp_pim \<Rightarrow> skp_pim" where
  "skp_finish dbg i r s =
     (let s1 = (if dbg then set_sreg 2 (sreg s 2 + 1) (s\<lparr>vreg := (vreg s)(i := (vreg s i)\<lparr>stimestamp := ucast (sreg s 2)\<rparr>)\<rparr>) else s)
      in s1\<lparr>vreg := (vreg s1)(i := skp_answer r (vreg s1 i))\<rparr>)"

definition skp_serve :: "bool \<Rightarrow> nat \<Rightarrow> skp_pim \<Rightarrow> skp_pim option" where
  "skp_serve dbg i s =
     (if S_CHECK_VALID_REQUEST (sinfo_bits (vreg s i)) = 0 then Some s
      else do { let op = S_EXTRACT_OPERATION (sinfo_bits (vreg s i));
                let p = sparameter (vreg s i);
                (found, P, Q) \<leftarrow> find_nodes (vs_rd 2 (vmem s)) p (op \<noteq> SKP_REMOVE_OP) (cur_levels s) (sreg s 4) 0 (preds_area s) (succs_area s);
                let s1 = s\<lparr>preds_area := P, succs_area := Q\<rparr>;
                (s2, r) \<leftarrow> (if op = SKP_CONTAINS_OP then Some (s1, if found \<noteq> 0 then 1 else 0)
                   else if op = SKP_ADD_OP then
                     (if found = 0 then do { s2 \<leftarrow> vs_add 2 1 (ucast (random_level (vreg s1 i))) p P Q s1; Some (s2, 1) } else Some (s1, 0))
                   else
                     (if found \<noteq> 0 then do { s2 \<leftarrow> vs_remove 2 1 found P s1; Some (s2, 1) } else Some (s1, 0)));
                Some (skp_finish dbg i r s2) })"

fun skp_serve_all :: "bool \<Rightarrow> nat list \<Rightarrow> skp_pim \<Rightarrow> skp_pim option" where
  "skp_serve_all dbg [] s = Some s"
| "skp_serve_all dbg (i # is) s = do { s1 \<leftarrow> skp_serve dbg i s; skp_serve_all dbg is s1 }"

text \<open>One round of the main loop; \<open>PIM_SREG[0] \<ge> 3\<close> leaves it.\<close>

definition skp_kernel_step :: "nat \<Rightarrow> bool \<Rightarrow> skp_pim \<Rightarrow> skp_pim option" where
  "skp_kernel_step nthreads dbg s =
     (if sreg s 0 = 0 then do { s1 \<leftarrow> skp_list_init s; Some (set_sreg 0 1 s1) }
      else if 3 \<le> sreg s 0 then Some s
      else skp_serve_all dbg [0..<nthreads] s)"

text \<open>The host's choice of a height for a new node.\<close>

definition host_random_level :: "nat \<Rightarrow> u32 \<Rightarrow> nat" where
  "host_random_level curr_max_level r = randomLevel curr_max_level r"

subsection \<open>\<open>kernel_reduce_redundancy\<close>\<close>

text \<open>
  The descent ends at a null link; the third component of the result is \<open>lowest_valid_level\<close>.
\<close>

fun skr_find :: "vmem \<Rightarrow> u32 \<Rightarrow> bool \<Rightarrow> nat \<Rightarrow> u32 \<Rightarrow> u32 \<Rightarrow> (nat \<rightharpoonup> u32) \<Rightarrow> (nat \<rightharpoonup> u32) \<Rightarrow> (u32 \<times> nat \<times> (nat \<rightharpoonup> u32) \<times> (nat \<rightharpoonup> u32)) option" where
  "skr_find m p stop 0 prev found P Q = Some (found, 0, P, Q)"
| "skr_find m p stop (Suc l) prev found P Q =
     do { (_, cur) \<leftarrow> vs_rd 2 m l prev;
          if cur = 0 then Some (found, l + 1, P, Q)
          else do { (prv, c) \<leftarrow> advance (vs_rd 2 m l) p prev cur;
                    (k, _) \<leftarrow> vs_rd 2 m l c;
                    if found = 0 \<and> p = k \<and> stop then Some (c, 0, P, Q)
                    else skr_find m p stop l prv (if found = 0 \<and> p = k then c else found) (P(l \<mapsto> prv)) (Q(l \<mapsto> c)) } }"

text \<open>Below \<open>lowest_valid_level\<close> the recorded pointers are copied down.\<close>

definition copy_down :: "nat \<Rightarrow> (nat \<rightharpoonup> u32) \<Rightarrow> (nat \<rightharpoonup> u32)" where
  "copy_down lvl P = (\<lambda>l. if l < lvl then P lvl else P l)"

text \<open>\<open>preds[level]->next[level] = succs[level]\<close> at the levels of a list.\<close>

fun skr_connect :: "nat list \<Rightarrow> (nat \<rightharpoonup> u32) \<Rightarrow> (nat \<rightharpoonup> u32) \<Rightarrow> skp_pim \<Rightarrow> skp_pim option" where
  "skr_connect [] P Q s = Some s"
| "skr_connect (l # ls) P Q s = do { p \<leftarrow> P l; q \<leftarrow> Q l; s1 \<leftarrow> vs_set_next 2 l p q s; skr_connect ls P Q s1 }"

definition skr_add :: "nat \<Rightarrow> u32 \<Rightarrow> u32 \<Rightarrow> skp_pim \<Rightarrow> skp_pim option" where
  "skr_add lvl tlv p s =
     do { (new, s1) \<leftarrow> alloc_memory_block s;
          s2 \<leftarrow> put new 1 tlv s1;
          s3 \<leftarrow> put new 0 p s2;
          t \<leftarrow> vrd (vmem s3) (fld new 1);
          if lvl = 0 then link_levels (vs_set_next 2) [0..<unat t] new (preds_area s3) (succs_area s3) s3
          else do { let s4 = s3\<lparr>preds_area := copy_down lvl (preds_area s3), succs_area := copy_down lvl (succs_area s3)\<rparr>;
                    s5 \<leftarrow> skr_connect [unat t..<lvl] (preds_area s4) (succs_area s4) s4;
                    link_levels (vs_set_next 2) [0..<unat t] new (preds_area s5) (succs_area s5) s5 } }"

text \<open>The removal only updates the array \<open>succs\<close>.\<close>

fun skr_succs :: "vmem \<Rightarrow> u32 \<Rightarrow> nat list \<Rightarrow> (nat \<rightharpoonup> u32) \<Rightarrow> (nat \<rightharpoonup> u32) option" where
  "skr_succs m found [] Q = Some Q"
| "skr_succs m found (l # ls) Q = do { n \<leftarrow> vrd m (fld found (2 + l)); skr_succs m found ls (Q(l \<mapsto> if n \<noteq> 0 then n else 0)) }"

definition skr_remove :: "nat \<Rightarrow> u32 \<Rightarrow> skp_pim \<Rightarrow> skp_pim option" where
  "skr_remove lvl found s =
     do { let s1 = s\<lparr>preds_area := copy_down lvl (preds_area s), succs_area := copy_down lvl (succs_area s)\<rparr>;
          t \<leftarrow> vrd (vmem s1) (fld found 1);
          Q \<leftarrow> skr_succs (vmem s1) found (rev [0..<unat t]) (succs_area s1);
          Some (s1\<lparr>succs_area := Q\<rparr>) }"

definition skr_serve :: "bool \<Rightarrow> nat \<Rightarrow> skp_pim \<Rightarrow> skp_pim option" where
  "skr_serve dbg i s =
     (if S_CHECK_VALID_REQUEST (sinfo_bits (vreg s i)) = 0 then Some s
      else do { let op = S_EXTRACT_OPERATION (sinfo_bits (vreg s i));
                let p = sparameter (vreg s i);
                (found, lvl, P, Q) \<leftarrow> skr_find (vmem s) p (op \<noteq> SKP_REMOVE_OP) (cur_levels s) (sreg s 4) 0 (preds_area s) (succs_area s);
                let s1 = s\<lparr>preds_area := P, succs_area := Q\<rparr>;
                (s2, r) \<leftarrow> (if op = SKP_CONTAINS_OP then Some (s1, if found \<noteq> 0 then 1 else 0)
                   else if op = SKP_ADD_OP then
                     (if found = 0 then do { s2 \<leftarrow> skr_add lvl (ucast (random_level (vreg s1 i))) p s1; Some (s2, 1) } else Some (s1, 0))
                   else
                     (if found \<noteq> 0 then do { s2 \<leftarrow> skr_remove lvl found s1; Some (s2, 1) } else Some (s1, 0)));
                Some (skp_finish dbg i r s2) })"

subsection \<open>The set of keys\<close>

definition skp_op_of :: "u8 \<Rightarrow> set_op" where
  "skp_op_of op = (if op = SKP_CONTAINS_OP then Contains else if op = SKP_ADD_OP then Add else Remove)"

text \<open>Only additions use up blocks, and removals do not give them back.\<close>

definition skp_holds :: "skp_pim \<Rightarrow> u32 set \<Rightarrow> nat \<Rightarrow> bool" where
  "skp_holds s A f \<longleftrightarrow> 0 < cur_levels s \<and> cur_levels s \<le> 30 \<and>
     (\<exists>as fs. vs_nodes 32 SKP_NUM_MEM_BLOCKS 2 1 (cur_levels s) s as fs \<and> A = vs_keys s as \<and> f \<le> length fs)"

definition skp_valid :: "skp_pim \<Rightarrow> nat \<Rightarrow> bool" where
  "skp_valid s i \<longleftrightarrow> S_CHECK_VALID_REQUEST (sinfo_bits (vreg s i)) \<noteq> 0"

text \<open>A request the host may send: a key between those of the sentinels, and a height the list has.\<close>

definition skp_wf :: "nat \<Rightarrow> skip_request \<Rightarrow> bool" where
  "skp_wf cml r \<longleftrightarrow> 0 < sparameter r \<and> sparameter r < 0xFFFFFFFF \<and> S_GET_RETVAL (sinfo_bits r) = 0 \<and>
     skp_op (S_EXTRACT_OPERATION (sinfo_bits r)) \<and>
     (S_EXTRACT_OPERATION (sinfo_bits r) = SKP_ADD_OP \<longrightarrow> 0 < unat (random_level r) \<and> unat (random_level r) \<le> cml)"

definition skp_step :: "u32 set \<Rightarrow> skip_request \<Rightarrow> u32 set \<times> u8" where
  "skp_step A r = (let (B, v) = set_step A (skp_op_of (S_EXTRACT_OPERATION (sinfo_bits r))) (sparameter r) in (B, ucast v))"

fun skp_run :: "u32 set \<Rightarrow> skip_request list \<Rightarrow> u32 set \<times> u8 list" where
  "skp_run A [] = (A, [])"
| "skp_run A (r # rs) = (let (B, v) = skp_step A r; (C, vs) = skp_run B rs in (C, v # vs))"

lemma skp_finish_simps [simp]:
  "vmem (skp_finish dbg i r s) = vmem s" "j \<noteq> 2 \<Longrightarrow> sreg (skp_finish dbg i r s) j = sreg s j"
  "j \<noteq> i \<Longrightarrow> vreg (skp_finish dbg i r s) j = vreg s j"
  "sinfo_bits (vreg (skp_finish dbg i r s) i) = sinfo_bits (skp_answer r (vreg s i))"
  by (auto simp: skp_finish_def Let_def skp_answer_def)

lemma vs_nodes_cong:
  assumes "vmem s' = vmem s" "sreg s' 3 = sreg s 3" "sreg s' 4 = sreg s 4" "sreg s' 5 = sreg s 5"
  shows "vs_nodes w n off topf cml s' as fs \<longleftrightarrow> vs_nodes w n off topf cml s as fs"
  using assms by (simp add: vs_nodes_def free_ok_def)

lemma skp_holds_cong:
  assumes "vmem s' = vmem s" "\<And>j. j \<in> {3, 4, 5, 6} \<Longrightarrow> sreg s' j = sreg s j"
  shows "skp_holds s' A f \<longleftrightarrow> skp_holds s A f"
  using assms vs_nodes_cong [of s' s] by (simp add: skp_holds_def cur_levels_def vs_keys_def)

lemma skp_holds_mono: "skp_holds s A f \<Longrightarrow> g \<le> f \<Longrightarrow> skp_holds s A g"
  unfolding skp_holds_def using order_trans [of g f] by blast

lemma unat_ucast_u8: "unat (ucast (x :: u8) :: u32) = unat x"
proof -
  have "unat x < 2 ^ LENGTH(8)" by (rule unsigned_less)
  then have "unat x < 2 ^ LENGTH(32)" by simp
  then show ?thesis by (simp add: unsigned_ucast_eq take_bit_nat_eq_self)
qed

text \<open>One request.\<close>

lemma skp_serve_correct:
  assumes H: "skp_holds s A (Suc f)" and v: "skp_valid s i" and wf: "skp_wf (cur_levels s) (vreg s i)"
  shows "\<exists>s'. skp_serve dbg i s = Some s' \<and> skp_holds s' (fst (skp_step A (vreg s i))) f \<and> cur_levels s' = cur_levels s \<and>
    (\<forall>j. j \<noteq> i \<longrightarrow> vreg s' j = vreg s j) \<and> sinfo_bits (vreg s' i) = sinfo_bits (skp_answer (snd (skp_step A (vreg s i))) (vreg s i))"
proof -
  let ?c = "cur_levels s" and ?p = "sparameter (vreg s i)" and ?op = "S_EXTRACT_OPERATION (sinfo_bits (vreg s i))"
  let ?lv = "vs_height 1 (vmem s)" and ?st = "?op \<noteq> SKP_REMOVE_OP"
  obtain as fs where c: "0 < ?c" "?c \<le> 30" and N: "vs_nodes 32 SKP_NUM_MEM_BLOCKS 2 1 ?c s as fs" and A: "A = vs_keys s as" and fs: "Suc f \<le> length fs"
    using H by (auto simp: skp_holds_def)
  have p: "0 < ?p" "?p < 0xFFFFFFFF" using wf by (simp_all add: skp_wf_def)
  obtain F P Q where r: "find_nodes (vs_rd 2 (vmem s)) ?p ?st ?c (sreg s 4) 0 (preds_area s) (succs_area s) = Some (F, P, Q)"
      and d: "descended (vmem s) ?lv as ?p ?st ?c 0 (preds_area s) (succs_area s) (F, P, Q)"
    using sbs.nodes_find [OF N c(2) p(1), of ?st "preds_area s" "succs_area s"] by auto
  have mem: "?p \<in> A \<longleftrightarrow> F \<noteq> 0"
    using p d c(1) unfolding A by (auto simp: vs_keys_def keys_between_def descended_def intro: rev_image_eqI)
  let ?s1 = "s\<lparr>preds_area := P, succs_area := Q\<rparr>"
  have N1: "vs_nodes 32 SKP_NUM_MEM_BLOCKS 2 1 ?c ?s1 as fs" using N by (subst vs_nodes_cong [of _ s]) simp_all
  define k where "k = (\<lambda>(s2, v). Some (skp_finish dbg i v s2))"
  have serve: "skp_serve dbg i s = (if ?op = SKP_CONTAINS_OP then k (?s1, if F \<noteq> 0 then 1 else 0)
     else if ?op = SKP_ADD_OP then
       (if F = 0 then do { s2 \<leftarrow> vs_add 2 1 (ucast (random_level (vreg s i))) ?p P Q ?s1; k (s2, 1) } else k (?s1, 0))
     else (if F \<noteq> 0 then do { s2 \<leftarrow> vs_remove 2 1 F P ?s1; k (s2, 1) } else k (?s1, 0)))"
    using v r by (simp add: skp_serve_def skp_valid_def k_def Let_def)
  have stay: "\<exists>s'. k (?s1, v) = Some s' \<and> skp_holds s' A f \<and> cur_levels s' = ?c \<and> (\<forall>j. j \<noteq> i \<longrightarrow> vreg s' j = vreg s j) \<and>
      sinfo_bits (vreg s' i) = sinfo_bits (skp_answer v (vreg s i))" for v
  proof -
    have "skp_holds ?s1 A f" unfolding skp_holds_def using c N1 A Suc_leD [OF fs]
      by (intro conjI exI [of _ as] exI [of _ fs]) (simp_all add: cur_levels_def vs_keys_def)
    then have "skp_holds (skp_finish dbg i v ?s1) A f" by (subst skp_holds_cong [of _ ?s1]) auto
    then show ?thesis by (simp add: k_def cur_levels_def)
  qed
  have moved: "\<exists>s'. k (s2, 1) = Some s' \<and> skp_holds s' B f \<and> cur_levels s' = ?c \<and> (\<forall>j. j \<noteq> i \<longrightarrow> vreg s' j = vreg s j) \<and>
      sinfo_bits (vreg s' i) = sinfo_bits (skp_answer 1 (vreg s i))"
    if N2: "vs_nodes 32 SKP_NUM_MEM_BLOCKS 2 1 ?c s2 as2 fs2" "vs_keys s2 as2 = B" "f \<le> length fs2" "vreg s2 = vreg s" "sreg s2 6 = sreg s 6" for s2 as2 fs2 B
  proof -
    have "skp_holds s2 B f" unfolding skp_holds_def using c N2
      by (intro conjI exI [of _ as2] exI [of _ fs2]) (simp_all add: cur_levels_def)
    then have "skp_holds (skp_finish dbg i 1 s2) B f" by (subst skp_holds_cong [of _ s2]) auto
    then show ?thesis using N2(4,5) by (simp add: k_def cur_levels_def)
  qed
  consider "?op = SKP_CONTAINS_OP" | "?op = SKP_ADD_OP" "?op \<noteq> SKP_CONTAINS_OP" | "?op \<noteq> SKP_ADD_OP" "?op \<noteq> SKP_CONTAINS_OP" by blast
  then show ?thesis
  proof cases
    case 1
    then show ?thesis unfolding serve using stay mem by (simp add: skp_step_def skp_op_of_def)
  next
    case 2
    show ?thesis
    proof (cases "F = 0")
      case False
      then show ?thesis unfolding serve using 2 stay [of 0] mem by (simp add: skp_step_def skp_op_of_def insert_absorb)
    next
      case True
      have ps: "\<And>l. l < ?c \<Longrightarrow> P l = Some (pred_at (vmem s) ?lv as ?p l)" "\<And>l. l < ?c \<Longrightarrow> Q l = Some (succ_at (vmem s) ?lv as ?p l)"
        and nw: "\<forall>b \<in> set as. vmem s b \<noteq> ?p"
        using d True c(1) by (auto simp: descended_def)
      obtain a fs' where fs': "fs = a # fs'" using fs by (cases fs) auto
      have hl: "unat (ucast (random_level (vreg s i)) :: u32) = unat (random_level (vreg s i))"
        by (rule unat_ucast_u8)
      have hk: "0 < unat (ucast (random_level (vreg s i)) :: u32)" "unat (ucast (random_level (vreg s i)) :: u32) \<le> ?c"
        unfolding hl using wf 2(1) by (simp_all add: skp_wf_def)
      obtain s2 as2 where a: "vs_add 2 1 (ucast (random_level (vreg s i))) ?p P Q ?s1 = Some s2"
          "vs_nodes 32 SKP_NUM_MEM_BLOCKS 2 1 ?c s2 as2 fs'" "vs_keys s2 as2 = insert ?p A" "vreg s2 = vreg s" "sreg s2 6 = sreg s 6"
        using sbs.nodes_add [OF N1 [unfolded fs'] c(2) hk p, of P Q] nw ps A by (auto simp: vs_keys_def)
      obtain s' where "k (s2, 1) = Some s'" "skp_holds s' (insert ?p A) f" "cur_levels s' = ?c" "\<forall>j. j \<noteq> i \<longrightarrow> vreg s' j = vreg s j"
          "sinfo_bits (vreg s' i) = sinfo_bits (skp_answer 1 (vreg s i))"
        using moved [OF a(2,3) _ a(4,5)] fs fs' by auto
      then show ?thesis unfolding serve using 2 True mem a(1) by (simp add: skp_step_def skp_op_of_def)
    qed
  next
    case 3
    show ?thesis
    proof (cases "F = 0")
      case True
      then show ?thesis unfolding serve using 3 stay [of 0] mem by (simp add: skp_step_def skp_op_of_def)
    next
      case False
      have rm: "?op = SKP_REMOVE_OP" using wf 3 by (auto simp: skp_wf_def skp_op_def)
      have F: "F \<in> set as" "vmem s F = ?p" and ps: "\<And>l. l < ?c \<Longrightarrow> P l = Some (pred_at (vmem s) ?lv as ?p l)"
        using d False rm by (auto simp: descended_def)
      obtain s2 as2 where a: "vs_remove 2 1 F P ?s1 = Some s2" "vs_nodes 32 SKP_NUM_MEM_BLOCKS 2 1 ?c s2 as2 fs"
          "vs_keys s2 as2 = A - {?p}" "vreg s2 = vreg s" "sreg s2 6 = sreg s 6"
        using sbs.nodes_remove [OF N1 c(2) p, of F P] F ps A by (auto simp: vs_keys_def)
      obtain s' where "k (s2, 1) = Some s'" "skp_holds s' (A - {?p}) f" "cur_levels s' = ?c" "\<forall>j. j \<noteq> i \<longrightarrow> vreg s' j = vreg s j"
          "sinfo_bits (vreg s' i) = sinfo_bits (skp_answer 1 (vreg s i))"
        using moved [OF a(2,3) _ a(4,5)] fs by auto
      then show ?thesis unfolding serve using 3 False mem a(1) by (simp add: skp_step_def skp_op_of_def)
    qed
  qed
qed

subsection \<open>All slots\<close>

lemma skp_step_result: "snd (skp_step A r) = 0 \<or> snd (skp_step A r) = 1"
  by (cases "skp_op_of (S_EXTRACT_OPERATION (sinfo_bits r))") (auto simp: skp_step_def)

lemma skp_serve_all_correct:
  assumes "skp_holds s A (length is + f)" and "distinct is" and "\<forall>i \<in> set is. skp_valid s i \<longrightarrow> skp_wf (cur_levels s) (vreg s i)"
  defines "pend \<equiv> filter (skp_valid s) is"
  shows "\<exists>s'. skp_serve_all dbg is s = Some s' \<and> skp_holds s' (fst (skp_run A (map (vreg s) pend))) f \<and> cur_levels s' = cur_levels s \<and>
    (\<forall>j. j \<notin> set pend \<longrightarrow> vreg s' j = vreg s j) \<and> (\<forall>j \<in> set pend. \<not> skp_valid s' j) \<and>
    map (\<lambda>i. S_GET_RETVAL (sinfo_bits (vreg s' i))) pend = snd (skp_run A (map (vreg s) pend))"
  unfolding pend_def using assms(1-3)
proof (induction "is" arbitrary: s A)
  case Nil
  then show ?case by simp
next
  case (Cons i "is")
  have H: "skp_holds s A (length is + f)" by (rule skp_holds_mono [OF Cons.prems(1)]) simp
  show ?case
  proof (cases "skp_valid s i")
    case False
    then have "skp_serve dbg i s = Some s" by (simp add: skp_serve_def skp_valid_def)
    moreover have "skp_holds s A (length is + f)" "distinct is" "\<forall>i \<in> set is. skp_valid s i \<longrightarrow> skp_wf (cur_levels s) (vreg s i)"
      using Cons.prems H by auto
    note Cons.IH [OF this]
    ultimately show ?thesis using False by simp
  next
    case True
    have w: "skp_wf (cur_levels s) (vreg s i)" using Cons.prems(3) True by simp
    have H1: "skp_holds s A (Suc (length is + f))" using Cons.prems(1) by simp
    let ?A = "fst (skp_step A (vreg s i))" and ?r = "snd (skp_step A (vreg s i))"
    obtain s1 where s1: "skp_serve dbg i s = Some s1" "skp_holds s1 ?A (length is + f)" "cur_levels s1 = cur_levels s"
        "\<forall>j. j \<noteq> i \<longrightarrow> vreg s1 j = vreg s j" "sinfo_bits (vreg s1 i) = sinfo_bits (skp_answer ?r (vreg s i))"
      using skp_serve_correct [OF H1 True w, of dbg] by blast
    have same: "vreg s1 j = vreg s j" if "j \<in> set is" for j using that s1(4) Cons.prems(2) by auto
    then have pd: "filter (skp_valid s1) is = filter (skp_valid s) is" by (auto simp: skp_valid_def intro: filter_cong)
    have mp: "map (vreg s1) (filter (skp_valid s) is) = map (vreg s) (filter (skp_valid s) is)" using same by simp
    have wf1: "\<forall>j \<in> set is. skp_valid s1 j \<longrightarrow> skp_wf (cur_levels s1) (vreg s1 j)"
      using Cons.prems(3) same s1(3) by (simp add: skp_valid_def)
    have di: "distinct is" "i \<notin> set is" using Cons.prems(2) by auto
    obtain s' where s': "skp_serve_all dbg is s1 = Some s'" "skp_holds s' (fst (skp_run ?A (map (vreg s) (filter (skp_valid s) is)))) f"
        "cur_levels s' = cur_levels s" "\<forall>j. j \<notin> set (filter (skp_valid s) is) \<longrightarrow> vreg s' j = vreg s1 j"
        "\<forall>j \<in> set (filter (skp_valid s) is). \<not> skp_valid s' j"
        "map (\<lambda>i. S_GET_RETVAL (sinfo_bits (vreg s' i))) (filter (skp_valid s) is) = snd (skp_run ?A (map (vreg s) (filter (skp_valid s) is)))"
      using Cons.IH [OF s1(2) di(1) wf1] unfolding pd mp s1(3) by blast
    have vi: "vreg s' i = vreg s1 i" using s'(4) di(2) by simp
    have "S_GET_RETVAL (sinfo_bits (vreg s' i)) = ?r" "\<not> skp_valid s' i"
      unfolding skp_valid_def vi s1(5) using skp_answer_result [OF _ skp_step_result] skp_answer_clears [OF skp_step_result] w
      by (simp_all add: skp_wf_def)
    moreover have "vreg s' j = vreg s j" if "j \<notin> set (i # filter (skp_valid s) is)" for j using that s'(4) s1(4) by simp
    ultimately show ?thesis using True s1(1) s' by (intro exI [of _ s']) (simp add: split_beta)
  qed
qed

lemma skp_init_holds:
  assumes "2 \<le> c" "c \<le> 30"
  shows "\<exists>s'. skp_list_init s = Some s' \<and> skp_holds (set_sreg 6 (of_nat c) s') {} (SKP_NUM_MEM_BLOCKS - 2) \<and>
    cur_levels (set_sreg 6 (of_nat c) s') = c \<and> vreg s' = vreg s"
proof -
  have n: "2 \<le> SKP_NUM_MEM_BLOCKS" by (simp add: SKP_NUM_MEM_BLOCKS_def VAULT_SIZE_def)
  obtain s' fs where i: "skp_list_init s = Some s'" "vs_nodes 32 SKP_NUM_MEM_BLOCKS 2 1 c s' [sreg s' 4, sreg s' 5] fs"
      "vs_keys s' [sreg s' 4, sreg s' 5] = {}" "length fs = SKP_NUM_MEM_BLOCKS - 2" "vreg s' = vreg s"
    using sbs.list_init_nodes [OF n, of c s] assms unfolding skp_list_init_def by (auto simp del: mult_numeral_1)
  let ?s = "set_sreg 6 (of_nat c) s'"
  obtain m where m: "c = Suc m" using assms by (cases c) auto
  then have cl: "cur_levels ?s = c" using assms by (simp add: cur_levels_def sint_u32_of_nat)
  have "vs_nodes 32 SKP_NUM_MEM_BLOCKS 2 1 c ?s [sreg s' 4, sreg s' 5] fs" using i(2) by (subst vs_nodes_cong [of _ s']) simp_all
  then have "skp_holds ?s {} (SKP_NUM_MEM_BLOCKS - 2)"
    unfolding skp_holds_def cl using assms i(3,4)
    by (intro conjI exI [of _ "[sreg s' 4, sreg s' 5]"] exI [of _ fs]) (simp_all add: vs_keys_def)
  then show ?thesis using i cl by auto
qed

subsection \<open>Properties\<close>

text \<open>
  C16. A round of the default kernel serves every pending request, in the order of the slots: each thread reads
  what a set of keys answers, no request stays pending, slots without a request are unchanged, and the
  vault holds the resulting set as a well-formed skip list.
\<close>

theorem skp_kernel_serves:
  assumes "sreg s 0 = 1" and "skp_holds s A (nthreads + f)" and "\<forall>i < nthreads. skp_valid s i \<longrightarrow> skp_wf (cur_levels s) (vreg s i)"
  shows "\<exists>s'. skp_kernel_step nthreads dbg s = Some s' \<and>
    skp_holds s' (fst (skp_run A (map (vreg s) (filter (skp_valid s) [0..<nthreads])))) f \<and>
    map (\<lambda>i. S_GET_RETVAL (sinfo_bits (vreg s' i))) (filter (skp_valid s) [0..<nthreads]) =
      snd (skp_run A (map (vreg s) (filter (skp_valid s) [0..<nthreads]))) \<and>
    (\<forall>i < nthreads. \<not> skp_valid s' i) \<and> (\<forall>i. \<not> (i < nthreads \<and> skp_valid s i) \<longrightarrow> vreg s' i = vreg s i)"
proof -
  have "skp_kernel_step nthreads dbg s = skp_serve_all dbg [0..<nthreads] s"
    using assms(1) by (simp add: skp_kernel_step_def word_le_nat_alt)
  then show ?thesis using skp_serve_all_correct [of s A "[0..<nthreads]" f dbg] assms(2,3)
    by (fastforce simp: skp_valid_def)
qed

definition skp_zero :: skp_pim where
  "skp_zero = \<lparr>sreg = \<lambda>_. 0, vmem = \<lambda>_. 0,
     vreg = (\<lambda>_. skp_request 0 SKP_ADD_OP 7 2 \<lparr>sinfo_bits = 0, random_level = 0, stimestamp = 0, sparameter = 0\<rparr>),
     preds_area = Map.empty, succs_area = Map.empty\<rparr>"

theorem skp_kernel_serves_witness:
  "\<exists>s s'. skp_list_init skp_zero = Some s \<and> skp_kernel_step 1 False (set_sreg 0 1 (set_sreg 6 (of_nat 4) s)) = Some s' \<and>
     skp_holds s' {7} 3 \<and> S_GET_RETVAL (sinfo_bits (vreg s' 0)) = 1"
proof -
  obtain s where s: "skp_list_init skp_zero = Some s" "skp_holds (set_sreg 6 (of_nat 4) s) {} (SKP_NUM_MEM_BLOCKS - 2)"
      "cur_levels (set_sreg 6 (of_nat 4) s) = 4" "vreg s = vreg skp_zero"
    using skp_init_holds [of 4 skp_zero] by auto
  let ?s = "set_sreg 0 1 (set_sreg 6 (of_nat 4) s)"
  have op: "skp_op SKP_ADD_OP" by (simp add: skp_op_def)
  have ne: "SKP_ADD_OP \<noteq> SKP_CONTAINS_OP" by (simp add: info_simps)
  have v: "vreg ?s 0 = skp_request 0 SKP_ADD_OP 7 2 \<lparr>sinfo_bits = 0, random_level = 0, stimestamp = 0, sparameter = 0\<rparr>"
    using s(4) by (simp add: skp_zero_def)
  note R = skp_request_read [OF op, of 0 7 2 "\<lparr>sinfo_bits = 0, random_level = 0, stimestamp = 0, sparameter = 0\<rparr>"]
  have h: "skp_holds ?s {} (SKP_NUM_MEM_BLOCKS - 2)" using s(2) by (subst skp_holds_cong [of _ "set_sreg 6 (of_nat 4) s"]) auto
  have "skp_holds ?s {} (1 + 3)" by (rule skp_holds_mono [OF h]) (simp add: SKP_NUM_MEM_BLOCKS_def VAULT_SIZE_def)
  moreover have cl: "cur_levels ?s = 4" using s(3) by (simp add: cur_levels_def)
  moreover have "skp_wf 4 (vreg ?s 0)" unfolding v skp_wf_def using R op by simp
  moreover have va: "skp_valid ?s 0" unfolding skp_valid_def v using R by simp
  ultimately obtain s' where s': "skp_kernel_step 1 False ?s = Some s'" "skp_holds s' (fst (skp_run {} [vreg ?s 0])) 3"
      "[S_GET_RETVAL (sinfo_bits (vreg s' 0))] = snd (skp_run {} [vreg ?s 0])"
    using skp_kernel_serves [of ?s "{}" 1 3 False] by auto
  have "skp_run {} [vreg ?s 0] = ({7}, [1])"
    unfolding v by (simp add: skp_step_def R skp_op_of_def ne)
  then show ?thesis using s(1) s' by (intro exI [of _ s] exI [of _ s']) simp
qed

text \<open>
  C19. The default kernel does not check the allocation: a request to add a new key when no block is free
  does not fail with a result, it writes through the null pointer.
\<close>

theorem skp_add_full_crashes:
  assumes "vs_nodes 32 SKP_NUM_MEM_BLOCKS 2 1 (cur_levels s) s as []" and "0 < cur_levels s" "cur_levels s \<le> 30"
    and "skp_valid s i" and "S_EXTRACT_OPERATION (sinfo_bits (vreg s i)) = SKP_ADD_OP"
    and "0 < sparameter (vreg s i)" and "sparameter (vreg s i) \<notin> vmem s ` set as"
  shows "skp_serve dbg i s = None"
proof -
  let ?c = "cur_levels s" and ?p = "sparameter (vreg s i)"
  have st: "SKP_ADD_OP \<noteq> SKP_REMOVE_OP" "SKP_ADD_OP \<noteq> SKP_CONTAINS_OP" by (simp_all add: info_simps)
  obtain F P Q where r: "find_nodes (vs_rd 2 (vmem s)) ?p True ?c (sreg s 4) 0 (preds_area s) (succs_area s) = Some (F, P, Q)"
      and d: "descended (vmem s) (vs_height 1 (vmem s)) as ?p True ?c 0 (preds_area s) (succs_area s) (F, P, Q)"
    using sbs.nodes_find [OF assms(1,3,6), of True "preds_area s" "succs_area s"] by auto
  have "F \<noteq> 0 \<longrightarrow> F \<in> set as \<and> vmem s F = ?p" using d by (simp add: descended_def)
  then have "F = 0" using assms(7) by (metis image_eqI)
  moreover have "sreg s 3 = 0" using assms(1) by (simp add: vs_nodes_def free_ok_def)
  then have "alloc_memory_block (s\<lparr>preds_area := P, succs_area := Q\<rparr>) = Some (0, s\<lparr>preds_area := P, succs_area := Q\<rparr>)"
    by (simp add: alloc_memory_block_def)
  moreover have "put 0 1 v s' = None" for v :: u32 and s' :: skp_pim
    by (simp add: put_def vwr_def in_vault_def fld_def BLOCK_BASE_ADDR_def)
  ultimately show ?thesis using r assms(4,5) st by (simp add: skp_serve_def skp_valid_def vs_add_def)
qed

text \<open>A vault with the sentinels at its first two blocks, the node with key 7 between them, and no free block.\<close>

definition skp_small :: "u8 \<Rightarrow> u32 \<Rightarrow> skp_pim" where
  "skp_small op k =
     \<lparr>sreg = (\<lambda>_. 0)(4 := 0xC0000000, 5 := 0xC0000080, 6 := 1),
      vmem = (\<lambda>_. 0)(0xC0000000 := 0, 0xC0000004 := 30, 0xC0000008 := 0xC0000100,
                       0xC0000100 := 7, 0xC0000104 := 1, 0xC0000108 := 0xC0000080,
                       0xC0000080 := 0xFFFFFFFF, 0xC0000084 := 30, 0xC0000088 := 0),
      vreg = (\<lambda>_. skp_request 0 op k 1 \<lparr>sinfo_bits = 0, random_level = 0, stimestamp = 0, sparameter = 0\<rparr>),
      preds_area = Map.empty, succs_area = Map.empty\<rparr>"

lemma skp_small_nodes: "vs_nodes 32 SKP_NUM_MEM_BLOCKS 2 1 1 (skp_small op k) [0xC0000000, 0xC0000100, 0xC0000080] []"
proof -
  have "block 32 0 = 0xC0000000" "block 32 2 = 0xC0000100" "block 32 1 = 0xC0000080" by (simp_all add: block_def BLOCK_BASE_ADDR_def)
  moreover have "i < SKP_NUM_MEM_BLOCKS" if "i \<le> 2" for i using that by (simp add: SKP_NUM_MEM_BLOCKS_def VAULT_SIZE_def)
  ultimately have "set [0xC0000000, 0xC0000100, 0xC0000080] \<subseteq> blocks 32 SKP_NUM_MEM_BLOCKS"
    unfolding blocks_def by (auto intro: image_eqI [of _ _ 0] image_eqI [of _ _ 1] image_eqI [of _ _ 2])
  moreover have "skip_ok (vs_link 2 (vmem (skp_small op k))) (vmem (skp_small op k)) (vs_height 1 (vmem (skp_small op k))) 0xC0000000 1 [0xC0000000, 0xC0000100, 0xC0000080]"
    by (simp add: skip_ok_def skp_small_def vs_height_def fld_def sorted_keys_def sorted_chain_def vs_link_def)
  ultimately show ?thesis by (simp add: vs_nodes_def skp_small_def free_ok_def vs_height_def fld_def)
qed

theorem skp_add_full_crashes_witness: "skp_serve False 0 (skp_small SKP_ADD_OP 5) = None"
proof (rule skp_add_full_crashes)
  have cl: "cur_levels (skp_small SKP_ADD_OP 5) = 1" by (simp add: cur_levels_def skp_small_def)
  show "vs_nodes 32 SKP_NUM_MEM_BLOCKS 2 1 (cur_levels (skp_small SKP_ADD_OP 5)) (skp_small SKP_ADD_OP 5) [0xC0000000, 0xC0000100, 0xC0000080] []"
    unfolding cl by (rule skp_small_nodes)
  show "0 < cur_levels (skp_small SKP_ADD_OP 5)" "cur_levels (skp_small SKP_ADD_OP 5) \<le> 30" unfolding cl by simp_all
  have op: "skp_op SKP_ADD_OP" by (simp add: skp_op_def)
  show "skp_valid (skp_small SKP_ADD_OP 5) 0" "S_EXTRACT_OPERATION (sinfo_bits (vreg (skp_small SKP_ADD_OP 5) 0)) = SKP_ADD_OP"
    "0 < sparameter (vreg (skp_small SKP_ADD_OP 5) 0)"
    using skp_request_read [OF op] by (simp_all add: skp_valid_def skp_small_def)
  show "sparameter (vreg (skp_small SKP_ADD_OP 5) 0) \<notin> vmem (skp_small SKP_ADD_OP 5) ` set [0xC0000000, 0xC0000100, 0xC0000080]"
    using skp_request_read(4) [OF op] by (simp add: skp_small_def)
qed

text \<open>
  In the kernel that avoids redundant pointers a removal answers \<open>1\<close> when it finds the key, but it writes nothing
  to the list: the whole memory, and so the key, stays as it was.
\<close>

theorem skr_remove_keeps_key:
  assumes "skr_serve dbg i s = Some s'" and "S_EXTRACT_OPERATION (sinfo_bits (vreg s i)) = SKP_REMOVE_OP"
  shows "vmem s' = vmem s"
proof -
  have st: "SKP_REMOVE_OP \<noteq> SKP_ADD_OP" "SKP_REMOVE_OP \<noteq> SKP_CONTAINS_OP" by (simp_all add: info_simps)
  have rm: "vmem s2 = vmem s1" if "skr_remove lvl found s1 = Some s2" for lvl found s1 s2
    using that by (auto simp: skr_remove_def Let_def split: bind_splits)
  show ?thesis using assms st by (auto simp: skr_serve_def Let_def dest!: rm split: bind_splits if_splits)
qed

theorem skr_remove_keeps_key_witness:
  "\<exists>s'. skr_serve False 0 (skp_small SKP_REMOVE_OP 7) = Some s' \<and> S_GET_RETVAL (sinfo_bits (vreg s' 0)) = 1 \<and>
     vmem s' = vmem (skp_small SKP_REMOVE_OP 7)"
proof -
  let ?s = "skp_small SKP_REMOVE_OP 7"
  have op: "skp_op SKP_REMOVE_OP" by (simp add: skp_op_def)
  have ne: "SKP_REMOVE_OP \<noteq> SKP_CONTAINS_OP" "SKP_REMOVE_OP \<noteq> SKP_ADD_OP" by (simp_all add: info_simps)
  note R = skp_request_read [OF op, of 0 7 1 "\<lparr>sinfo_bits = 0, random_level = 0, stimestamp = 0, sparameter = 0\<rparr>"]
  have v: "vreg ?s 0 = skp_request 0 SKP_REMOVE_OP 7 1 \<lparr>sinfo_bits = 0, random_level = 0, stimestamp = 0, sparameter = 0\<rparr>"
    by (simp add: skp_small_def)
  have cl: "cur_levels ?s = 1" by (simp add: cur_levels_def skp_small_def)
  have f: "skr_find (vmem ?s) 7 False 1 (sreg ?s 4) 0 Map.empty Map.empty = Some (0xC0000100, 0, [0 \<mapsto> 0xC0000000], [0 \<mapsto> 0xC0000100])"
    by (simp add: skp_small_def vs_rd_def vrd_def in_vault_def fld_def BLOCK_BASE_ADDR_def VAULT_SIZE_def word_le_nat_alt advance.simps)
  let ?s1 = "?s\<lparr>preds_area := [0 \<mapsto> 0xC0000000], succs_area := [0 \<mapsto> 0xC0000100]\<rparr>"
  have "\<exists>s2. skr_remove 0 0xC0000100 ?s1 = Some s2 \<and> vreg s2 = vreg ?s"
    by (simp add: skr_remove_def skp_small_def vrd_def in_vault_def fld_def BLOCK_BASE_ADDR_def VAULT_SIZE_def word_le_nat_alt copy_down_def)
  then obtain s2 where s2: "skr_remove 0 0xC0000100 ?s1 = Some s2" "vreg s2 = vreg ?s" by blast
  have "preds_area ?s = Map.empty" "succs_area ?s = Map.empty" by (simp_all add: skp_small_def)
  then have e: "skr_serve False 0 ?s = Some (skp_finish False 0 1 s2)"
    using f s2(1) R ne unfolding skr_serve_def v cl by (simp del: skr_find.simps)
  moreover have "S_GET_RETVAL (sinfo_bits (vreg (skp_finish False 0 1 s2) 0)) = 1"
    using skp_answer_result [OF R(3), of 1] s2(2) v by simp
  moreover have "vmem (skp_finish False 0 1 s2) = vmem ?s" by (rule skr_remove_keeps_key [OF e]) (simp add: v R)
  ultimately show ?thesis by blast
qed

end
