(* ===== verification/PIM_Queue.thy ===== *)
theory PIM_Queue
  imports PIM_Requests PIM_Vault Ring
begin

text \<open>
  The queue of the PIM processors. In \<open>multithread_pim_queue/main.cc\<close> a queue is a ring of partitions, one PIM each,
  that hold one segment of the queue: one partition is enqueued into and another dequeued from, and the
  thread whose request fills or empties a segment moves on to the next partition. Each PIM runs
  \<open>clean_queue.c\<close> (\<open>q_kernel_step\<close> is one round of its main loop); \<open>pq_enq\<close> and \<open>pq_deq\<close> are the operations
  of a host thread that no other thread disturbs. \<open>singlepim_queue.c\<close> keeps the whole queue as one circular
  array in the vault of a single PIM (\<open>sq_kernel_step\<close>).

  Registers: \<open>PIM_SREG[1]\<close> segment size in bytes, \<open>[3]\<close> segment, \<open>[4]\<close> head index, \<open>[5]\<close> tail index, \<open>[6]\<close> timestamp.
\<close>

type_synonym q_pim = "request_slot pim"

definition seg_addr :: "q_pim \<Rightarrow> u32 \<Rightarrow> u32" where
  "seg_addr s i = sreg s 3 + 4 * i"

definition MAX_SEGMENT_ITEMS :: "q_pim \<Rightarrow> u32" where
  "MAX_SEGMENT_ITEMS s = sreg s 1 div 4"

definition q_stamp :: "bool \<Rightarrow> nat \<Rightarrow> q_pim \<Rightarrow> q_pim" where
  "q_stamp dbg i s =
     (if dbg then set_sreg 6 (sreg s 6 + 1) (s\<lparr>vreg := (vreg s)(i := (vreg s i)\<lparr>timestamp := ucast (sreg s 6)\<rparr>)\<rparr>) else s)"

definition q_bits :: "(u16 \<Rightarrow> u16) \<Rightarrow> nat \<Rightarrow> q_pim \<Rightarrow> q_pim" where
  "q_bits f i s = s\<lparr>vreg := (vreg s)(i := (vreg s i)\<lparr>info_bits := f (info_bits (vreg s i))\<rparr>)\<rparr>"

text \<open>The result says whether the loop over the slots ends (\<open>break\<close>).\<close>

definition q_enq_slot :: "bool \<Rightarrow> nat \<Rightarrow> q_pim \<Rightarrow> (bool \<times> q_pim) option" where
  "q_enq_slot dbg i s =
     do { m \<leftarrow> vwr (seg_addr s (sreg s 5)) (req_parameter (vreg s i)) (vmem s);
          let s1 = q_stamp dbg i (s\<lparr>vmem := m\<rparr>);
          let s2 = set_sreg 5 (sreg s1 5 + 1) s1;
          if MAX_SEGMENT_ITEMS s2 \<le> sreg s2 5 then Some (True, set_sreg 0 0 (q_bits Q_CLEAR_REQUEST_PIM_VALID i s2))
          else Some (False, q_bits Q_CLEAR_REQUEST i s2) }"

definition q_deq_slot :: "bool \<Rightarrow> nat \<Rightarrow> q_pim \<Rightarrow> (bool \<times> q_pim) option" where
  "q_deq_slot dbg i s =
     do { v \<leftarrow> vrd (vmem s) (seg_addr s (sreg s 4));
          let s1 = q_stamp dbg i (s\<lparr>vreg := (vreg s)(i := (vreg s i)\<lparr>req_parameter := v\<rparr>)\<rparr>);
          let s2 = set_sreg 4 (sreg s1 4 + 1) s1;
          if sreg s2 5 \<le> sreg s2 4 \<or> MAX_SEGMENT_ITEMS s2 \<le> sreg s2 4
          then Some (True, set_sreg 5 0 (set_sreg 4 0 (set_sreg 0 0 (q_bits Q_CLEAR_REQUEST_PIM_VALID i s2))))
          else Some (False, q_bits Q_CLEAR_REQUEST i s2) }"

fun q_loop :: "(nat \<Rightarrow> q_pim \<Rightarrow> (bool \<times> q_pim) option) \<Rightarrow> nat list \<Rightarrow> q_pim \<Rightarrow> q_pim option" where
  "q_loop slot [] s = Some s"
| "q_loop slot (i # is) s =
     (if Q_CHECK_VALID_REQUEST (info_bits (vreg s i)) = 0 then q_loop slot is s
      else do { (stop, s1) \<leftarrow> slot i s; if stop then Some s1 else q_loop slot is s1 })"

definition q_init :: "q_pim \<Rightarrow> q_pim" where
  "q_init s = set_sreg 6 0 (set_sreg 0 0 (set_sreg 5 0 (set_sreg 4 0 (set_sreg 3 BLOCK_BASE_ADDR s))))"

text \<open>\<open>PRINT\<close>: the printed items.\<close>

definition q_print :: "q_pim \<Rightarrow> u32 list option" where
  "q_print s = those (map (\<lambda>i. vrd (vmem s) (seg_addr s (of_nat i))) [unat (sreg s 4)..<unat (sreg s 5)])"

definition q_kernel_step :: "nat \<Rightarrow> bool \<Rightarrow> q_pim \<Rightarrow> q_pim option" where
  "q_kernel_step nthreads dbg s =
     (if sreg s 0 = 3 then Some (q_init s)
      else if sreg s 0 = 1 then q_loop (q_enq_slot dbg) [0..<nthreads] s
      else if sreg s 0 = 2 then q_loop (q_deq_slot dbg) [0..<nthreads] s
      else if sreg s 0 = 4 then do { _ \<leftarrow> q_print s; Some (set_sreg 0 0 s) }
      else Some s)"

subsection \<open>The host\<close>

text \<open>\<open>tbits\<close> are the threads' own copies of \<open>info_bits\<close>.\<close>

record pq =
  qparts :: "nat \<Rightarrow> q_pim"
  enq_part :: nat
  deq_part :: nat
  tbits :: "nat \<Rightarrow> u16"

definition GET_NEXT_PARTITION :: "nat \<Rightarrow> nat \<Rightarrow> nat" where
  "GET_NEXT_PARTITION np x = (x + 1) mod np"

definition q_post :: "nat \<Rightarrow> u16 \<Rightarrow> u32 option \<Rightarrow> q_pim \<Rightarrow> q_pim" where
  "q_post t ib pv s =
     s\<lparr>vreg := (vreg s)(t := (vreg s t)\<lparr>req_parameter := (case pv of Some v \<Rightarrow> v | None \<Rightarrow> req_parameter (vreg s t)), info_bits := Q_SET_REQUEST ib\<rparr>)\<rparr>"

text \<open>
  One attempt: the result says whether the request was served; if not, the slot is cleared and the caller
  tries again.
\<close>

definition pq_enq :: "nat \<Rightarrow> nat \<Rightarrow> bool \<Rightarrow> nat \<Rightarrow> u32 \<Rightarrow> pq \<Rightarrow> (bool \<times> pq) option" where
  "pq_enq np nthreads dbg t v s =
     do { let p = enq_part s;
          q \<leftarrow> q_kernel_step nthreads dbg (q_post t (tbits s t) (Some v) (qparts s p));
          let ib = info_bits (vreg q t);
          let ok = (Q_CHECK_VALID_REQUEST ib = 0);
          let ib1 = (if ok then ib else Q_CLEAR_REQUEST ib);
          let q1 = (if ok then q else q_bits (\<lambda>_. ib1) t q);
          let s1 = s\<lparr>qparts := (qparts s)(p := q1), tbits := (tbits s)(t := ib1)\<rparr>;
          if Q_CHECK_VALID_PIM ib1 = 0 then
            (let e = GET_NEXT_PARTITION np p
             in Some (ok, s1\<lparr>enq_part := e, qparts := (qparts s1)(e := set_sreg 0 1 (qparts s1 e))\<rparr>))
          else Some (ok, s1) }"

definition pq_deq :: "nat \<Rightarrow> nat \<Rightarrow> bool \<Rightarrow> nat \<Rightarrow> pq \<Rightarrow> (u32 option \<times> pq) option" where
  "pq_deq np nthreads dbg t s =
     do { let p = deq_part s;
          q \<leftarrow> q_kernel_step nthreads dbg (q_post t (tbits s t) None (qparts s p));
          let ib = info_bits (vreg q t);
          let ok = (Q_CHECK_VALID_REQUEST ib = 0);
          let r = (if ok then Some (req_parameter (vreg q t)) else None);
          let ib1 = (if ok then ib else Q_CLEAR_REQUEST ib);
          let q1 = (if ok then q else q_bits (\<lambda>_. ib1) t q);
          let s1 = s\<lparr>qparts := (qparts s)(p := q1), tbits := (tbits s)(t := ib1)\<rparr>;
          if Q_CHECK_VALID_PIM ib1 = 0 then
            (let d = GET_NEXT_PARTITION np p
             in Some (r, s1\<lparr>deq_part := d, qparts := (qparts s1)(d := set_sreg 0 2 (qparts s1 d))\<rparr>))
          else Some (r, s1) }"

datatype q_req = Enq nat u32 | Deq nat

fun pq_run :: "nat \<Rightarrow> nat \<Rightarrow> bool \<Rightarrow> q_req list \<Rightarrow> pq \<Rightarrow> (u32 list \<times> pq) option" where
  "pq_run np nthreads dbg [] s = Some ([], s)"
| "pq_run np nthreads dbg (Enq t v # ops) s =
     do { (ok, s1) \<leftarrow> pq_enq np nthreads dbg t v s; if ok then pq_run np nthreads dbg ops s1 else None }"
| "pq_run np nthreads dbg (Deq t # ops) s =
     do { (r, s1) \<leftarrow> pq_deq np nthreads dbg t s;
          v \<leftarrow> r;
          (vs, s2) \<leftarrow> pq_run np nthreads dbg ops s1;
          Some (v # vs, s2) }"

subsection \<open>Segments\<close>

definition SEG_WORDS :: nat where "SEG_WORDS = VAULT_SIZE div 4"

interpretation qb: block_layout 1 SEG_WORDS
  by unfold_locales (simp_all add: SEG_WORDS_def VAULT_SIZE_def)

definition q_at :: "q_pim \<Rightarrow> nat \<Rightarrow> u32" where
  "q_at s i = vmem s (block 1 i)"

text \<open>A partition with \<open>M\<close> items per segment that holds the items from index \<open>h\<close> to \<open>t\<close> and has no request.\<close>

definition q_seg :: "nat \<Rightarrow> q_pim \<Rightarrow> nat \<Rightarrow> nat \<Rightarrow> bool" where
  "q_seg M s h t \<longleftrightarrow> sreg s 3 = BLOCK_BASE_ADDR \<and> MAX_SEGMENT_ITEMS s = of_nat M \<and> 0 < M \<and> M \<le> SEG_WORDS \<and>
     sreg s 4 = of_nat h \<and> sreg s 5 = of_nat t \<and> h \<le> t \<and> t \<le> M \<and> (\<forall>i. Q_CHECK_VALID_REQUEST (info_bits (vreg s i)) = 0)"

lemma seg_addr_block: "sreg s 3 = BLOCK_BASE_ADDR \<Longrightarrow> seg_addr s (of_nat i) = block 1 i"
  by (simp add: seg_addr_def block_def mult.commute)

lemma block_in: "i < SEG_WORDS \<Longrightarrow> in_vault (block 1 i)"
  using qb.fld_in_vault [of "block 1 i" 0] by (simp add: blocks_def)

lemma u32_of_nat_le: "a \<le> 0x8000000 \<Longrightarrow> b \<le> 0x8000000 \<Longrightarrow> (of_nat a :: u32) \<le> of_nat b \<longleftrightarrow> a \<le> b"
  by (simp add: word_le_nat_alt unat_of_nat)

lemma SEG_WORDS_le: "i \<le> SEG_WORDS \<Longrightarrow> i + 1 \<le> 0x8000000"
  by (simp add: SEG_WORDS_def VAULT_SIZE_def)

text \<open>Only the thread with a request is served.\<close>

lemma q_loop_one:
  assumes "t \<in> set is" "distinct is" and "\<And>j. j \<noteq> t \<Longrightarrow> Q_CHECK_VALID_REQUEST (info_bits (vreg s j)) = 0"
    and "Q_CHECK_VALID_REQUEST (info_bits (vreg s t)) \<noteq> 0" and "slot t s = Some (stop, s1)"
    and "\<And>j. Q_CHECK_VALID_REQUEST (info_bits (vreg s1 j)) = 0"
  shows "q_loop slot is s = Some s1"
  using assms(1,2)
proof (induction "is")
  case (Cons i "is")
  have none: "q_loop slot js s1 = Some s1" for js using assms(6) by (induction js) auto
  show ?case
  proof (cases "i = t")
    case True
    then show ?thesis using assms(4,5) none by simp
  next
    case False
    then show ?thesis using Cons assms(3) [OF False] by auto
  qed
qed simp

lemma q_bits_simps [simp]:
  "sreg (q_bits f i s) = sreg s" "vmem (q_bits f i s) = vmem s" "vreg (q_bits f i s) i = (vreg s i)\<lparr>info_bits := f (info_bits (vreg s i))\<rparr>"
  "j \<noteq> i \<Longrightarrow> vreg (q_bits f i s) j = vreg s j"
  by (simp_all add: q_bits_def)

lemma q_stamp_simps [simp]:
  "vmem (q_stamp dbg i s) = vmem s" "j \<noteq> 6 \<Longrightarrow> sreg (q_stamp dbg i s) j = sreg s j" "j \<noteq> i \<Longrightarrow> vreg (q_stamp dbg i s) j = vreg s j"
  "info_bits (vreg (q_stamp dbg i s) j) = info_bits (vreg s j)" "req_parameter (vreg (q_stamp dbg i s) j) = req_parameter (vreg s j)"
  by (auto simp: q_stamp_def)

lemma MAX_SEGMENT_ITEMS_cong: "sreg s' 1 = sreg s 1 \<Longrightarrow> MAX_SEGMENT_ITEMS s' = MAX_SEGMENT_ITEMS s"
  by (simp add: MAX_SEGMENT_ITEMS_def)

text \<open>A request to enqueue in a segment that is not full.\<close>

lemma q_enq_step:
  assumes S: "q_seg M s h k" and k: "k < M" and t: "t < nthreads" and on: "sreg s 0 = 1"
  shows "\<exists>q. q_kernel_step nthreads dbg (q_post t ib (Some v) s) = Some q \<and> q_seg M q h (k + 1) \<and>
    Q_CHECK_VALID_REQUEST (info_bits (vreg q t)) = 0 \<and> (Q_CHECK_VALID_PIM (info_bits (vreg q t)) = 0 \<longleftrightarrow> k + 1 = M) \<and>
    sreg q 0 = (if k + 1 = M then 0 else 1) \<and> q_at q k = v \<and> (\<forall>i. i < k \<longrightarrow> q_at q i = q_at s i)"
proof -
  let ?s = "q_post t ib (Some v) s"
  have D: "sreg s 3 = BLOCK_BASE_ADDR" "MAX_SEGMENT_ITEMS s = of_nat M" "M \<le> SEG_WORDS" "sreg s 4 = of_nat h" "sreg s 5 = of_nat k" "h \<le> k"
      "\<forall>i. Q_CHECK_VALID_REQUEST (info_bits (vreg s i)) = 0" "0 < M"
    using S by (auto simp: q_seg_def)
  have p: "sreg ?s = sreg s" "vmem ?s = vmem s" "req_parameter (vreg ?s t) = v" "info_bits (vreg ?s t) = Q_SET_REQUEST ib"
    "\<And>j. j \<noteq> t \<Longrightarrow> vreg ?s j = vreg s j" by (simp_all add: q_post_def)
  have kw: "k < SEG_WORDS" using k D(3) by simp
  have ad: "seg_addr ?s (sreg ?s 5) = block 1 k" using seg_addr_block [of ?s k] D(1,5) p(1) by simp
  let ?s1 = "q_stamp dbg t (?s\<lparr>vmem := (vmem s)(block 1 k := v)\<rparr>)"
  let ?s2 = "set_sreg 5 (sreg ?s1 5 + 1) ?s1"
  have s5: "sreg ?s2 5 = of_nat (k + 1)" using p(1) D(5) by simp
  have mi: "MAX_SEGMENT_ITEMS ?s2 = of_nat M" using D(2) p(1) by (subst MAX_SEGMENT_ITEMS_cong [of _ s]) simp_all
  have full: "MAX_SEGMENT_ITEMS ?s2 \<le> sreg ?s2 5 \<longleftrightarrow> k + 1 = M"
    unfolding s5 mi using k D(3) SEG_WORDS_le [of M] SEG_WORDS_le [of k] by (subst u32_of_nat_le) auto
  define f where "f = (if k + 1 = M then Q_CLEAR_REQUEST_PIM_VALID else Q_CLEAR_REQUEST)"
  define q where "q = (if k + 1 = M then set_sreg 0 0 (q_bits f t ?s2) else q_bits f t ?s2)"
  have sl: "q_enq_slot dbg t ?s = Some (k + 1 = M, q)"
    using ad p(2,3) full block_in [OF kw] by (simp add: q_enq_slot_def vwr_def q_def f_def Let_def)
  have vq: "info_bits (vreg q j) = (if j = t then f (Q_SET_REQUEST ib) else info_bits (vreg s j))" for j
    using p(4,5) by (simp add: q_def)
  have quiet: "Q_CHECK_VALID_REQUEST (info_bits (vreg q j)) = 0" for j using D(7) by (simp add: vq f_def)
  have "q_kernel_step nthreads dbg ?s = q_loop (q_enq_slot dbg) [0..<nthreads] ?s" using on p(1) by (simp add: q_kernel_step_def)
  also have "\<dots> = Some q"
    by (rule q_loop_one [where t = t and stop = "k + 1 = M"]) (use t p D(7) sl quiet in auto)
  finally have st: "q_kernel_step nthreads dbg ?s = Some q" .
  have rg: "sreg q j = sreg s j" if "j \<noteq> 0" "j \<noteq> 5" "j \<noteq> 6" for j using that p(1) by (simp add: q_def)
  have r5: "sreg q 5 = of_nat (k + 1)" "sreg q 0 = (if k + 1 = M then 0 else 1)" using s5 on p(1) by (simp_all add: q_def)
  have m: "vmem q = (vmem s)(block 1 k := v)" by (simp add: q_def)
  have "q_at q i = q_at s i" if "i < k" for i
    using qb.block_inj [of i k] that kw by (auto simp: q_at_def m)
  moreover have "q_seg M q h (k + 1)"
    using D rg r5 quiet k MAX_SEGMENT_ITEMS_cong [of q s] by (simp add: q_seg_def)
  moreover have "Q_CHECK_VALID_PIM (info_bits (vreg q t)) = 0 \<longleftrightarrow> k + 1 = M" by (simp add: vq f_def)
  ultimately show ?thesis using st r5(2) quiet by (auto simp: q_at_def m)
qed

text \<open>A request to dequeue from a segment that is not empty.\<close>

lemma q_deq_step:
  assumes S: "q_seg M s h k" and k: "h < k" and t: "t < nthreads" and on: "sreg s 0 = 2"
  shows "\<exists>q. q_kernel_step nthreads dbg (q_post t ib None s) = Some q \<and>
    q_seg M q (if h + 1 = k then 0 else h + 1) (if h + 1 = k then 0 else k) \<and>
    Q_CHECK_VALID_REQUEST (info_bits (vreg q t)) = 0 \<and> (Q_CHECK_VALID_PIM (info_bits (vreg q t)) = 0 \<longleftrightarrow> h + 1 = k) \<and>
    sreg q 0 = (if h + 1 = k then 0 else 2) \<and> req_parameter (vreg q t) = q_at s h \<and> q_at q = q_at s"
proof -
  let ?s = "q_post t ib None s"
  have D: "sreg s 3 = BLOCK_BASE_ADDR" "MAX_SEGMENT_ITEMS s = of_nat M" "M \<le> SEG_WORDS" "sreg s 4 = of_nat h" "sreg s 5 = of_nat k" "k \<le> M"
      "\<forall>i. Q_CHECK_VALID_REQUEST (info_bits (vreg s i)) = 0" "0 < M"
    using S by (auto simp: q_seg_def)
  have p: "sreg ?s = sreg s" "vmem ?s = vmem s" "info_bits (vreg ?s t) = Q_SET_REQUEST ib"
    "\<And>j. j \<noteq> t \<Longrightarrow> vreg ?s j = vreg s j" by (simp_all add: q_post_def)
  have hw: "h < SEG_WORDS" using k D(3,6) by simp
  have ad: "seg_addr ?s (sreg ?s 4) = block 1 h" using seg_addr_block [of ?s h] D(1,4) p(1) by simp
  let ?s1 = "q_stamp dbg t (?s\<lparr>vreg := (vreg ?s)(t := (vreg ?s t)\<lparr>req_parameter := q_at s h\<rparr>)\<rparr>)"
  let ?s2 = "set_sreg 4 (sreg ?s1 4 + 1) ?s1"
  have r: "sreg ?s2 4 = of_nat (h + 1)" "sreg ?s2 5 = of_nat k" using p(1) D(4,5) by simp_all
  have mi: "MAX_SEGMENT_ITEMS ?s2 = of_nat M" using D(2) p(1) by (subst MAX_SEGMENT_ITEMS_cong [of _ s]) simp_all
  have fin: "sreg ?s2 5 \<le> sreg ?s2 4 \<or> MAX_SEGMENT_ITEMS ?s2 \<le> sreg ?s2 4 \<longleftrightarrow> h + 1 = k"
    unfolding r mi using k D(3,6) SEG_WORDS_le [of M] by (subst (1 2) u32_of_nat_le) auto
  define f where "f = (if h + 1 = k then Q_CLEAR_REQUEST_PIM_VALID else Q_CLEAR_REQUEST)"
  define q where "q = (if h + 1 = k then set_sreg 5 0 (set_sreg 4 0 (set_sreg 0 0 (q_bits f t ?s2))) else q_bits f t ?s2)"
  have "vrd (vmem ?s) (seg_addr ?s (sreg ?s 4)) = Some (q_at s h)"
    using block_in [OF hw] unfolding ad p(2) by (simp add: vrd_def q_at_def)
  then have sl: "q_deq_slot dbg t ?s = Some (h + 1 = k, q)"
    using fin by (simp add: q_deq_slot_def q_def f_def Let_def)
  have vq: "info_bits (vreg q j) = (if j = t then f (Q_SET_REQUEST ib) else info_bits (vreg s j))" for j
    using p(3,4) by (simp add: q_def)
  have quiet: "Q_CHECK_VALID_REQUEST (info_bits (vreg q j)) = 0" for j using D(7) by (simp add: vq f_def)
  have "q_kernel_step nthreads dbg ?s = q_loop (q_deq_slot dbg) [0..<nthreads] ?s" using on p(1) by (simp add: q_kernel_step_def)
  also have "\<dots> = Some q"
    by (rule q_loop_one [where t = t and stop = "h + 1 = k"]) (use t p D(7) sl quiet in auto)
  finally have st: "q_kernel_step nthreads dbg ?s = Some q" .
  have rg: "sreg q 3 = sreg s 3" "sreg q 1 = sreg s 1" using p(1) by (simp_all add: q_def)
  have r5: "sreg q 4 = of_nat (if h + 1 = k then 0 else h + 1)" "sreg q 5 = of_nat (if h + 1 = k then 0 else k)"
      "sreg q 0 = (if h + 1 = k then 0 else 2)"
    using r on p(1) by (auto simp: q_def)
  have "q_at q = q_at s" using p(2) by (simp add: q_def q_at_def fun_eq_iff)
  moreover have "q_seg M q (if h + 1 = k then 0 else h + 1) (if h + 1 = k then 0 else k)"
    unfolding q_seg_def r5 using D rg quiet k MAX_SEGMENT_ITEMS_cong [OF rg(2)] by simp
  moreover have "Q_CHECK_VALID_PIM (info_bits (vreg q t)) = 0 \<longleftrightarrow> h + 1 = k" by (simp add: vq f_def)
  moreover have "req_parameter (vreg q t) = q_at s h" by (simp add: q_def)
  ultimately show ?thesis using st r5(3) quiet by blast
qed

subsection \<open>The ring of partitions\<close>

text \<open>
  The partition \<open>i\<close> steps after the one dequeued from, and what it holds: \<open>h\<close> items of that one are gone,
  the \<open>k - 1\<close> next are full, the one enqueued into has \<open>t\<close> items, the rest are empty.
\<close>

definition part_at :: "nat \<Rightarrow> pq \<Rightarrow> nat \<Rightarrow> nat" where
  "part_at np s i = (deq_part s + i) mod np"

definition seg_range :: "nat \<Rightarrow> nat \<Rightarrow> nat \<Rightarrow> nat \<Rightarrow> nat \<Rightarrow> nat \<times> nat" where
  "seg_range M h k t i = (if i = 0 then (h, M) else if i < k then (0, M) else if i = k then (0, t) else (0, 0))"

definition pq_inv :: "nat \<Rightarrow> nat \<Rightarrow> pq \<Rightarrow> nat \<times> nat \<times> nat \<Rightarrow> bool" where
  "pq_inv np M s = (\<lambda>(h, k, t). deq_part s < np \<and> 0 < k \<and> k < np \<and> h < M \<and> t < M \<and> enq_part s = part_at np s k \<and>
     (\<forall>i<np. q_seg M (qparts s (part_at np s i)) (fst (seg_range M h k t i)) (snd (seg_range M h k t i))) \<and>
     sreg (qparts s (deq_part s)) 0 = 2 \<and> sreg (qparts s (enq_part s)) 0 = 1)"

definition seg_items :: "nat \<Rightarrow> pq \<Rightarrow> nat \<Rightarrow> nat \<times> nat \<Rightarrow> u32 list" where
  "seg_items np s i r = map (q_at (qparts s (part_at np s i))) [fst r..<snd r]"

definition pq_abs :: "nat \<Rightarrow> nat \<Rightarrow> pq \<Rightarrow> nat \<times> nat \<times> nat \<Rightarrow> u32 list" where
  "pq_abs np M s = (\<lambda>(h, k, t). concat (map (\<lambda>i. seg_items np s i (seg_range M h k t i)) [0..<np]))"

text \<open>The positions after an operation; \<open>None\<close> when it would run into the other end.\<close>

fun pq_next :: "nat \<Rightarrow> nat \<Rightarrow> nat \<times> nat \<times> nat \<Rightarrow> q_req \<Rightarrow> (nat \<times> nat \<times> nat) option" where
  "pq_next np M (h, k, t) (Enq th v) = (if t + 1 < M then Some (h, k, t + 1) else if k + 1 < np then Some (h, k + 1, 0) else None)"
| "pq_next np M (h, k, t) (Deq th) = (if h + 1 < M then Some (h + 1, k, t) else if 1 < k then Some (0, k - 1, t) else None)"

fun pq_fits :: "nat \<Rightarrow> nat \<Rightarrow> nat \<Rightarrow> nat \<times> nat \<times> nat \<Rightarrow> q_req list \<Rightarrow> bool" where
  "pq_fits np nthreads M p [] \<longleftrightarrow> True"
| "pq_fits np nthreads M p (r # rs) \<longleftrightarrow> (case r of Enq t v \<Rightarrow> t < nthreads | Deq t \<Rightarrow> t < nthreads) \<and>
     (case pq_next np M p r of Some p' \<Rightarrow> pq_fits np nthreads M p' rs | None \<Rightarrow> False)"

text \<open>The queue as a list.\<close>

fun fifo_run :: "q_req list \<Rightarrow> u32 list \<Rightarrow> u32 list \<times> u32 list" where
  "fifo_run [] q = ([], q)"
| "fifo_run (Enq t v # rs) q = fifo_run rs (q @ [v])"
| "fifo_run (Deq t # rs) q = (case q of x # q' \<Rightarrow> (let (vs, q2) = fifo_run rs q' in (x # vs, q2)) | [] \<Rightarrow> fifo_run rs q)"

lemma part_at_inj: "deq_part s < np \<Longrightarrow> i < np \<Longrightarrow> j < np \<Longrightarrow> part_at np s i = part_at np s j \<longleftrightarrow> i = j"
  by (auto simp: part_at_def mod_if split: if_splits)

lemma part_at_0: "deq_part s < np \<Longrightarrow> part_at np s 0 = deq_part s"
  by (simp add: part_at_def)

lemma part_at_less: "0 < np \<Longrightarrow> part_at np s i < np"
  by (simp add: part_at_def)

lemma part_at_cong: "deq_part s' = deq_part s \<Longrightarrow> part_at np s' = part_at np s"
  by (simp add: part_at_def fun_eq_iff)

lemma next_part_at: "GET_NEXT_PARTITION np (part_at np s i) = part_at np s (i + 1)"
  by (simp add: GET_NEXT_PARTITION_def part_at_def mod_Suc_eq)

lemma concat_upd:
  assumes "k < n" and "\<And>i. i < n \<Longrightarrow> i \<noteq> k \<Longrightarrow> g i = f i" and "g k = f k @ ys" and "\<And>i. k < i \<Longrightarrow> i < n \<Longrightarrow> f i = []"
  shows "concat (map g [0..<n]) = concat (map f [0..<n]) @ ys"
proof -
  have sp: "[0..<n] = [0..<k] @ k # [Suc k..<n]" using assms(1) upt_add_eq_append [of 0 k "n - k"] upt_conv_Cons [of k n] by simp
  have e: "concat (map w [Suc k..<n]) = []" if "\<And>i. k < i \<Longrightarrow> i < n \<Longrightarrow> w i = []" for w :: "nat \<Rightarrow> 'a list"
    using that by (simp add: concat_eq_Nil_conv)
  have "concat (map f [Suc k..<n]) = []" "concat (map g [Suc k..<n]) = []" using assms(2,4) by (auto intro!: e)
  moreover have "concat (map g [0..<k]) = concat (map f [0..<k])"
    using assms(1,2) by (intro arg_cong [where f = concat] map_cong) auto
  ultimately show ?thesis using assms(3) unfolding sp by (simp del: concat_eq_Nil_conv)
qed

lemma q_seg_cong:
  "q_seg M s h t \<Longrightarrow> q_seg M (set_sreg 0 v s) h t"
  by (simp add: q_seg_def MAX_SEGMENT_ITEMS_def)

lemma q_at_sreg [simp]: "q_at (set_sreg j v s) = q_at s"
  by (simp add: q_at_def fun_eq_iff)

lemma seg_range_k: "0 < k \<Longrightarrow> seg_range M h k t k = (0, t)"
  by (simp add: seg_range_def)

lemma pq_enq_ok:
  assumes I: "pq_inv np M s (h, k, t)" and th: "th < nthreads" and N: "pq_next np M (h, k, t) (Enq th v) = Some p'"
  shows "\<exists>s'. pq_enq np nthreads dbg th v s = Some (True, s') \<and> pq_inv np M s' p' \<and> pq_abs np M s' p' = pq_abs np M s (h, k, t) @ [v]"
proof -
  have J: "deq_part s < np" "0 < k" "k < np" "h < M" "t < M" "enq_part s = part_at np s k"
    "\<And>i. i < np \<Longrightarrow> q_seg M (qparts s (part_at np s i)) (fst (seg_range M h k t i)) (snd (seg_range M h k t i))"
    "sreg (qparts s (deq_part s)) 0 = 2" "sreg (qparts s (enq_part s)) 0 = 1"
    using I by (auto simp: pq_inv_def)
  let ?p = "part_at np s k"
  have "q_seg M (qparts s ?p) 0 t" using J(7) [OF J(3)] J(2) by (simp add: seg_range_def)
  from q_enq_step [OF this J(5) th, where dbg = dbg and ib = "tbits s th" and v = v] J(6,9)
  obtain q where q: "q_kernel_step nthreads dbg (q_post th (tbits s th) (Some v) (qparts s ?p)) = Some q" "q_seg M q 0 (t + 1)"
      "Q_CHECK_VALID_REQUEST (info_bits (vreg q th)) = 0" "Q_CHECK_VALID_PIM (info_bits (vreg q th)) = 0 \<longleftrightarrow> t + 1 = M"
      "sreg q 0 = (if t + 1 = M then 0 else 1)" "q_at q t = v" "\<And>i. i < t \<Longrightarrow> q_at q i = q_at (qparts s ?p) i" by auto
  let ?e = "part_at np s (k + 1)"
  define s1 where "s1 = s\<lparr>qparts := (qparts s)(?p := q), tbits := (tbits s)(th := info_bits (vreg q th))\<rparr>"
  define s' where "s' = (if t + 1 = M then s1\<lparr>enq_part := ?e, qparts := (qparts s1)(?e := set_sreg 0 1 (qparts s1 ?e))\<rparr> else s1)"
  have run: "pq_enq np nthreads dbg th v s = Some (True, s')"
    using q(1,3,4) J(6) by (simp add: pq_enq_def s'_def s1_def Let_def next_part_at del: fun_upd_apply)
  have full: "k + 1 < np \<and> p' = (h, k + 1, 0)" if "t + 1 = M" using N that by (simp split: if_splits)
  have notfull: "p' = (h, k, t + 1)" if "t + 1 \<noteq> M" using N that J(5) by (simp split: if_splits)
  obtain k' t' where p': "p' = (h, k', t')" "k' = (if t + 1 = M then k + 1 else k)" "t' = (if t + 1 = M then 0 else t + 1)"
    using full notfull by (cases "t + 1 = M") auto
  have pe: "part_at np s' = part_at np s" by (rule part_at_cong) (simp add: s'_def s1_def)
  have neq: "?e \<noteq> ?p" if "t + 1 = M" using full [OF that] part_at_inj [OF J(1), of "k + 1" k] by simp
  have at_k: "qparts s' ?p = q" using neq by (auto simp: s'_def s1_def)
  have at_i: "qparts s' (part_at np s i) = qparts s (part_at np s i) \<or> qparts s' (part_at np s i) = set_sreg 0 1 (qparts s (part_at np s i))"
    if "i < np" "i \<noteq> k" for i
    using part_at_inj [OF J(1) that(1) J(3)] that(2) neq by (auto simp: s'_def s1_def)
  have rg: "seg_range M h k' t' i = (if i = k then (0, t + 1) else seg_range M h k t i)" for i
    using J(2) by (auto simp: seg_range_def p')
  have segs: "q_seg M (qparts s' (part_at np s' i)) (fst (seg_range M h k' t' i)) (snd (seg_range M h k' t' i))" if i: "i < np" for i
  proof (cases "i = k")
    case True
    then show ?thesis using at_k q(2) by (simp add: pe rg)
  next
    case False
    then show ?thesis using at_i [OF i False] J(7) [OF i] q_seg_cong by (auto simp: pe rg)
  qed
  have "sreg (qparts s' (deq_part s')) 0 = 2"
  proof -
    have a: "deq_part s \<noteq> ?p" using part_at_inj [OF J(1), of 0 k] J by (simp add: part_at_0)
    have b: "deq_part s \<noteq> ?e" if "t + 1 = M" using full [OF that] part_at_inj [OF J(1), of 0 "k + 1"] J(1) by (simp add: part_at_0)
    show ?thesis using J(8) a b by (auto simp: s'_def s1_def)
  qed
  moreover have "sreg (qparts s' (enq_part s')) 0 = 1" using q(5) J(6) by (auto simp: s'_def s1_def)
  moreover have "enq_part s' = part_at np s' k'" unfolding pe using J(6) by (simp add: s'_def s1_def p')
  ultimately have "pq_inv np M s' p'"
    using segs J(1-5) full by (auto simp: pq_inv_def p' s'_def s1_def)
  moreover have "pq_abs np M s' p' = pq_abs np M s (h, k, t) @ [v]"
    unfolding pq_abs_def p'(1) prod.case
  proof (rule concat_upd [OF J(3)])
    fix i assume i: "i < np" "i \<noteq> k"
    show "seg_items np s' i (seg_range M h k' t' i) = seg_items np s i (seg_range M h k t i)"
      using at_i [OF i] i(2) by (auto simp: seg_items_def rg pe)
  next
    show "seg_items np s' k (seg_range M h k' t' k) = seg_items np s k (seg_range M h k t k) @ [v]"
      using q(6,7) rg [of k] seg_range_k [OF J(2)] by (simp add: seg_items_def pe at_k)
  next
    fix i assume "k < i" then show "seg_items np s i (seg_range M h k t i) = []"
      using J(2) by (simp add: seg_items_def seg_range_def)
  qed
  ultimately show ?thesis using run by blast
qed

lemma concat_upt_cong: "(\<And>i. i < n \<Longrightarrow> f i = g i) \<Longrightarrow> concat (map f [0..<n]) = concat (map g [0..<n])"
  by (intro arg_cong [where f = concat] map_cong) auto

lemma upt_shift: "0 < n \<Longrightarrow> concat (map f [0..<n]) = f 0 @ concat (map (\<lambda>i. f (Suc i)) [0..<n - 1])"
  by (cases n) (simp_all add: upt_conv_Cons map_Suc_upt [symmetric] comp_def del: upt_Suc)

lemma seg_items_empty: "seg_items np s i (j, j) = []"
  by (simp add: seg_items_def)

lemma pq_deq_ok:
  assumes I: "pq_inv np M s (h, k, t)" and th: "th < nthreads" and N: "pq_next np M (h, k, t) (Deq th) = Some p'"
  shows "\<exists>x s'. pq_deq np nthreads dbg th s = Some (Some x, s') \<and> pq_inv np M s' p' \<and> pq_abs np M s (h, k, t) = x # pq_abs np M s' p'"
proof -
  have J: "deq_part s < np" "0 < k" "k < np" "h < M" "t < M" "enq_part s = part_at np s k"
    "\<And>i. i < np \<Longrightarrow> q_seg M (qparts s (part_at np s i)) (fst (seg_range M h k t i)) (snd (seg_range M h k t i))"
    "sreg (qparts s (deq_part s)) 0 = 2" "sreg (qparts s (enq_part s)) 0 = 1"
    using I by (auto simp: pq_inv_def)
  let ?p = "deq_part s"
  have np: "0 < np" using J(1) by simp
  have "q_seg M (qparts s ?p) h M" using J(7) [of 0] np J(1) by (simp add: seg_range_def part_at_0)
  from q_deq_step [OF this J(4) th J(8), where dbg = dbg and ib = "tbits s th"]
  obtain q where q: "q_kernel_step nthreads dbg (q_post th (tbits s th) None (qparts s ?p)) = Some q"
      "q_seg M q (if h + 1 = M then 0 else h + 1) (if h + 1 = M then 0 else M)"
      "Q_CHECK_VALID_REQUEST (info_bits (vreg q th)) = 0" "Q_CHECK_VALID_PIM (info_bits (vreg q th)) = 0 \<longleftrightarrow> h + 1 = M"
      "sreg q 0 = (if h + 1 = M then 0 else 2)" "req_parameter (vreg q th) = q_at (qparts s ?p) h" "q_at q = q_at (qparts s ?p)" by blast
  define s1 where "s1 = s\<lparr>qparts := (qparts s)(?p := q), tbits := (tbits s)(th := info_bits (vreg q th))\<rparr>"
  have s1: "deq_part s1 = ?p" "enq_part s1 = enq_part s" "\<And>i. qparts s1 i = (if i = ?p then q else qparts s i)" by (simp_all add: s1_def)
  have e_neq: "enq_part s \<noteq> ?p" using part_at_inj [OF J(1), of k 0] J by (simp add: part_at_0)
  have at: "qparts s1 (part_at np s i) = (if i = 0 then q else qparts s (part_at np s i))" if "i < np" for i
    using part_at_inj [OF J(1) that np] part_at_0 [OF J(1)] by (auto simp: s1_def)
  show ?thesis
  proof (cases "h + 1 = M")
    case False
    then have p': "p' = (Suc h, k, t)" using N J(4) by (simp split: if_splits)
    have run: "pq_deq np nthreads dbg th s = Some (Some (q_at (qparts s ?p) h), s1)"
      using q(1,3,4,6) False by (simp add: pq_deq_def s1_def Let_def del: fun_upd_apply)
    have pe: "part_at np s1 = part_at np s" by (rule part_at_cong) (simp add: s1_def)
    have rg: "seg_range M (Suc h) k t i = (if i = 0 then (Suc h, M) else seg_range M h k t i)" for i by (simp add: seg_range_def)
    have "q_seg M (qparts s1 (part_at np s1 i)) (fst (seg_range M (Suc h) k t i)) (snd (seg_range M (Suc h) k t i))" if "i < np" for i
      using J(7) [OF that] at [OF that] q(2) False by (simp add: pe rg)
    then have inv: "pq_inv np M s1 p'"
      using J(1-6,9) False q(5) e_neq s1(1,2) s1(3) [of "?p"] s1(3) [of "enq_part s"] pe by (simp add: pq_inv_def p')
    have "seg_items np s1 0 (seg_range M (Suc h) k t 0) = map (q_at (qparts s ?p)) [Suc h..<M]"
      using at [OF np] part_at_0 [OF J(1)] by (simp add: seg_items_def rg pe q(7))
    moreover have "seg_items np s 0 (seg_range M h k t 0) = q_at (qparts s ?p) h # map (q_at (qparts s ?p)) [Suc h..<M]"
      using J(1,4) by (simp add: seg_items_def seg_range_def part_at_0 upt_conv_Cons)
    moreover have "concat (map (\<lambda>i. seg_items np s1 (Suc i) (seg_range M (Suc h) k t (Suc i))) [0..<np - 1]) =
        concat (map (\<lambda>i. seg_items np s (Suc i) (seg_range M h k t (Suc i))) [0..<np - 1])"
      by (rule concat_upt_cong) (use at in \<open>simp add: seg_items_def rg pe\<close>)
    ultimately have "pq_abs np M s (h, k, t) = q_at (qparts s ?p) h # pq_abs np M s1 p'"
      unfolding pq_abs_def p' prod.case upt_shift [OF np] by simp
    then show ?thesis using run inv by blast
  next
    case True
    then have p': "p' = (0, k - 1, t)" and k: "1 < k" using N by (simp_all split: if_splits)
    let ?d = "part_at np s 1"
    have d1: "?d \<noteq> ?p" using part_at_inj [OF J(1), of 1 0] J k by (simp add: part_at_0)
    define s' where "s' = s1\<lparr>deq_part := ?d, qparts := (qparts s1)(?d := set_sreg 0 2 (qparts s1 ?d))\<rparr>"
    have s': "deq_part s' = ?d" "enq_part s' = enq_part s" "\<And>i. qparts s' i = (if i = ?d then set_sreg 0 2 (qparts s1 ?d) else qparts s1 i)"
      by (simp_all add: s'_def s1(2))
    have run: "pq_deq np nthreads dbg th s = Some (Some (q_at (qparts s ?p) h), s')"
      using q(1,3,4,6) True next_part_at [of np s 0] part_at_0 [OF J(1)] by (simp add: pq_deq_def s'_def s1_def Let_def del: fun_upd_apply)
    have pe: "part_at np s' i = part_at np s (i + 1)" for i by (simp add: part_at_def s'_def mod_Suc_eq mod_add_left_eq)
    have ps: "qparts s' (part_at np s' i) = (if i = 0 then set_sreg 0 2 (qparts s ?d) else qparts s (part_at np s (i + 1)))" if "i < np - 1" for i
      using at [of "i + 1"] at [of 1] part_at_inj [OF J(1), of "i + 1" 1] that unfolding pe s'(3) by auto
    have last: "part_at np s' (np - 1) = ?p" unfolding pe using np J(1) by (simp add: part_at_def)
    then have pl: "qparts s' (part_at np s' (np - 1)) = q" using d1 by (simp add: s' s1)
    have rg: "seg_range M 0 (k - 1) t i = seg_range M h k t (i + 1)" if "i < np - 1" for i using k by (auto simp: seg_range_def)
    have rl: "seg_range M 0 (k - 1) t (np - 1) = (0, 0)" using J(3) k by (auto simp: seg_range_def)
    have "q_seg M (qparts s' (part_at np s' i)) (fst (seg_range M 0 (k - 1) t i)) (snd (seg_range M 0 (k - 1) t i))" if "i < np" for i
    proof (cases "i = np - 1")
      case True
      show ?thesis unfolding True pl rl using q(2) \<open>h + 1 = M\<close> by simp
    next
      case False
      then have i: "i < np - 1" "i + 1 < np" using that by auto
      show ?thesis unfolding ps [OF i(1)] rg [OF i(1)] using J(7) [OF i(2)] by (auto intro: q_seg_cong)
    qed
    moreover have "enq_part s' = part_at np s' (k - 1)" using k J(6) by (simp add: pe s')
    moreover have "sreg (qparts s' (enq_part s')) 0 = 1"
      using J(6,9) e_neq part_at_inj [OF J(1), of k 1] J(3) k by (simp add: s' s1)
    moreover have "sreg (qparts s' ?d) 0 = 2" unfolding s'(3) by simp
    moreover have "k - 1 < np" using J(3) by simp
    ultimately have inv: "pq_inv np M s' p'"
      using J(1-5) k part_at_less [OF np] by (simp add: pq_inv_def p' s'(1))
    have sw: "seg_items np s' i (seg_range M 0 (k - 1) t i) = seg_items np s (Suc i) (seg_range M h k t (Suc i))" if "i < np - 1" for i
      unfolding seg_items_def ps [OF that] rg [OF that] by simp
    have "[0..<np] = [0..<np - 1] @ [np - 1]" using np by (cases np) simp_all
    then have "concat (map (\<lambda>i. seg_items np s' i (seg_range M 0 (k - 1) t i)) [0..<np]) =
        concat (map (\<lambda>i. seg_items np s (Suc i) (seg_range M h k t (Suc i))) [0..<np - 1])"
      using concat_upt_cong [OF sw] rl by (simp add: seg_items_empty)
    moreover have "seg_items np s 0 (seg_range M h k t 0) = [q_at (qparts s ?p) h]"
      using J(1,4) True by (simp add: seg_items_def seg_range_def part_at_0 flip: True)
    ultimately have "pq_abs np M s (h, k, t) = q_at (qparts s ?p) h # pq_abs np M s' p'"
      unfolding pq_abs_def p' prod.case upt_shift [OF np, of "\<lambda>i. seg_items np s i (seg_range M h k t i)"] by simp
    then show ?thesis using run inv by blast
  qed
qed


definition q_pim_of :: "u32 \<Rightarrow> u32 \<Rightarrow> u32 list \<Rightarrow> q_pim" where
  "q_pim_of mode bytes xs = \<lparr>sreg = (\<lambda>j. if j = 0 then mode else if j = 1 then bytes else if j = 3 then BLOCK_BASE_ADDR
       else if j = 5 then of_nat (length xs) else 0),
     vmem = fold (\<lambda>i m. m(block 1 i := xs ! i)) [0..<length xs] (\<lambda>_. 0), vreg = (\<lambda>_. \<lparr>info_bits = 0, timestamp = 0, req_parameter = 0\<rparr>)\<rparr>"

definition pq_example :: pq where
  "pq_example = \<lparr>qparts = (\<lambda>p. if p = 2 then q_pim_of 2 8 [10, 20] else if p = 0 then q_pim_of 1 8 [] else q_pim_of 0 8 []),
     enq_part = 0, deq_part = 2, tbits = (\<lambda>_. 0)\<rparr>"

lemma pq_example_inv: "pq_inv 3 2 pq_example (0, 1, 0)"
proof -
  have "i < 3 \<longleftrightarrow> i = 0 \<or> i = 1 \<or> i = 2" for i :: nat by auto
  then show ?thesis
    by (simp add: pq_inv_def pq_example_def part_at_def q_seg_def q_pim_of_def seg_range_def MAX_SEGMENT_ITEMS_def SEG_WORDS_def VAULT_SIZE_def Q_CHECK_VALID_REQUEST_def)
qed

lemma pq_example_abs: "pq_abs 3 2 pq_example (0, 1, 0) = [10, 20]"
proof -
  have u: "[0..<3] = [0, 1, 2 :: nat]" "[0..<2] = [0, 1 :: nat]" by (simp_all add: upt_conv_Cons)
  have b: "block (Suc 0) 0 \<noteq> block (Suc 0) (Suc 0)" using qb.block_inj [of 0 1] by (auto simp: SEG_WORDS_def VAULT_SIZE_def)
  show ?thesis
    unfolding pq_abs_def seg_items_def seg_range_def u prod.case by (simp add: q_at_def pq_example_def part_at_def q_pim_of_def u b)
qed


subsection \<open>The queue of a single PIM\<close>

definition MAX_INDEX :: u32 where "MAX_INDEX = 33554432"

definition sq_slot :: "bool \<Rightarrow> nat \<Rightarrow> q_pim \<Rightarrow> (bool \<times> q_pim) option" where
  "sq_slot dbg i s =
     do { s3 \<leftarrow> (if Q_EXTRACT_OP (info_bits (vreg s i)) = 0 then
                   do { v \<leftarrow> vrd (vmem s) (seg_addr s (sreg s 4));
                        let s1 = q_stamp dbg i (s\<lparr>vreg := (vreg s)(i := (vreg s i)\<lparr>req_parameter := v\<rparr>)\<rparr>);
                        let s2 = set_sreg 4 (sreg s1 4 + 1) s1;
                        Some (if MAX_INDEX \<le> sreg s2 4 then set_sreg 4 0 s2 else s2) }
                 else
                   do { m \<leftarrow> vwr (seg_addr s (sreg s 5)) (req_parameter (vreg s i)) (vmem s);
                        let s1 = q_stamp dbg i (s\<lparr>vmem := m\<rparr>);
                        let s2 = set_sreg 5 (sreg s1 5 + 1) s1;
                        Some (if MAX_INDEX \<le> sreg s2 5 then set_sreg 5 0 s2 else s2) });
          Some (False, q_bits Q_CLEAR_REQUEST i s3) }"

definition sq_kernel_step :: "nat \<Rightarrow> bool \<Rightarrow> q_pim \<Rightarrow> q_pim option" where
  "sq_kernel_step nthreads dbg s =
     (if sreg s 0 = 3 then Some (q_init s)
      else if sreg s 0 = 1 then q_loop (sq_slot dbg) [0..<nthreads] s
      else if sreg s 0 = 4 then do { _ \<leftarrow> q_print s; Some (set_sreg 0 0 s) }
      else Some s)"

definition sq_enq :: "nat \<Rightarrow> bool \<Rightarrow> nat \<Rightarrow> u32 \<Rightarrow> q_pim \<times> (nat \<Rightarrow> u16) \<Rightarrow> (q_pim \<times> (nat \<Rightarrow> u16)) option" where
  "sq_enq nthreads dbg t v = (\<lambda>(s, tb).
     do { q \<leftarrow> sq_kernel_step nthreads dbg (q_post t (Q_SET_ENQ (tb t)) (Some v) s);
          if Q_CHECK_VALID_REQUEST (info_bits (vreg q t)) = 0 then Some (q, tb(t := info_bits (vreg q t))) else None })"

definition sq_deq :: "nat \<Rightarrow> bool \<Rightarrow> nat \<Rightarrow> q_pim \<times> (nat \<Rightarrow> u16) \<Rightarrow> (u32 \<times> q_pim \<times> (nat \<Rightarrow> u16)) option" where
  "sq_deq nthreads dbg t = (\<lambda>(s, tb).
     do { q \<leftarrow> sq_kernel_step nthreads dbg (q_post t (Q_SET_DEQ (tb t)) None s);
          if Q_CHECK_VALID_REQUEST (info_bits (vreg q t)) = 0
          then Some (req_parameter (vreg q t), q, tb(t := info_bits (vreg q t))) else None })"

fun sq_run :: "nat \<Rightarrow> bool \<Rightarrow> q_req list \<Rightarrow> q_pim \<times> (nat \<Rightarrow> u16) \<Rightarrow> (u32 list \<times> q_pim \<times> (nat \<Rightarrow> u16)) option" where
  "sq_run nthreads dbg [] s = Some ([], s)"
| "sq_run nthreads dbg (Enq t v # ops) s = do { s1 \<leftarrow> sq_enq nthreads dbg t v s; sq_run nthreads dbg ops s1 }"
| "sq_run nthreads dbg (Deq t # ops) s =
     do { (v, s1) \<leftarrow> sq_deq nthreads dbg t s; (vs, s2) \<leftarrow> sq_run nthreads dbg ops s1; Some (v # vs, s2) }"

definition sq_inv :: "q_pim \<Rightarrow> nat \<times> nat \<Rightarrow> bool" where
  "sq_inv s = (\<lambda>(h, t). sreg s 0 = 1 \<and> sreg s 3 = BLOCK_BASE_ADDR \<and> sreg s 4 = of_nat h \<and> sreg s 5 = of_nat t \<and>
     h < SEG_WORDS \<and> t < SEG_WORDS \<and> (\<forall>i. Q_CHECK_VALID_REQUEST (info_bits (vreg s i)) = 0))"

definition sq_abs :: "q_pim \<Rightarrow> nat \<times> nat \<Rightarrow> u32 list" where
  "sq_abs s = (\<lambda>(h, t). ring_list SEG_WORDS (q_at s) h t)"

text \<open>The number of items stays between one before every dequeue and the size of the array less one.\<close>

fun sq_fits :: "nat \<Rightarrow> nat \<Rightarrow> q_req list \<Rightarrow> bool" where
  "sq_fits nthreads n [] \<longleftrightarrow> True"
| "sq_fits nthreads n (Enq t v # rs) \<longleftrightarrow> t < nthreads \<and> n + 1 < SEG_WORDS \<and> sq_fits nthreads (n + 1) rs"
| "sq_fits nthreads n (Deq t # rs) \<longleftrightarrow> t < nthreads \<and> 0 < n \<and> sq_fits nthreads (n - 1) rs"

lemma sq_wrap:
  assumes "h < SEG_WORDS"
  shows "(if MAX_INDEX \<le> of_nat h + 1 then 0 else of_nat h + 1) = (of_nat (next_index SEG_WORDS h) :: u32)"
proof -
  have "MAX_INDEX = of_nat SEG_WORDS" by (simp add: MAX_INDEX_def SEG_WORDS_def VAULT_SIZE_def)
  moreover have "(of_nat SEG_WORDS :: u32) \<le> of_nat (h + 1) \<longleftrightarrow> SEG_WORDS \<le> h + 1"
    using SEG_WORDS_le [of h] SEG_WORDS_le [of SEG_WORDS] assms by (intro u32_of_nat_le) auto
  ultimately show ?thesis using assms by (auto simp: next_index_eq add.commute)
qed

lemma sq_enq_ok:
  assumes I: "sq_inv s (h, t)" and th: "th < nthreads" and room: "Suc (ring_length SEG_WORDS h t) < SEG_WORDS"
  shows "\<exists>q tb'. sq_enq nthreads dbg th v (s, tb) = Some (q, tb') \<and> sq_inv q (h, next_index SEG_WORDS t) \<and>
    sq_abs q (h, next_index SEG_WORDS t) = sq_abs s (h, t) @ [v]"
proof -
  let ?s = "q_post th (Q_SET_ENQ (tb th)) (Some v) s"
  have D: "sreg s 0 = 1" "sreg s 3 = BLOCK_BASE_ADDR" "sreg s 4 = of_nat h" "sreg s 5 = of_nat t" "h < SEG_WORDS" "t < SEG_WORDS"
    "\<And>i. Q_CHECK_VALID_REQUEST (info_bits (vreg s i)) = 0" using I by (auto simp: sq_inv_def)
  have p: "sreg ?s = sreg s" "vmem ?s = vmem s" "req_parameter (vreg ?s th) = v" "info_bits (vreg ?s th) = Q_SET_REQUEST (Q_SET_ENQ (tb th))"
    "\<And>j. j \<noteq> th \<Longrightarrow> vreg ?s j = vreg s j" by (simp_all add: q_post_def)
  have ad: "seg_addr ?s (sreg ?s 5) = block 1 t" using seg_addr_block [of ?s t] D(2,4) p(1) by simp
  let ?s1 = "q_stamp dbg th (?s\<lparr>vmem := (vmem s)(block 1 t := v)\<rparr>)"
  let ?s2 = "set_sreg 5 (sreg ?s1 5 + 1) ?s1"
  define q where "q = q_bits Q_CLEAR_REQUEST th (if MAX_INDEX \<le> sreg ?s2 5 then set_sreg 5 0 ?s2 else ?s2)"
  have sl: "sq_slot dbg th ?s = Some (False, q)"
    using ad p(2,3,4) block_in [OF D(6)] by (simp add: sq_slot_def vwr_def q_def Let_def)
  have quiet: "Q_CHECK_VALID_REQUEST (info_bits (vreg q j)) = 0" for j
    using D(7) p(4,5) by (cases "j = th") (simp_all add: q_def)
  have "sq_kernel_step nthreads dbg ?s = q_loop (sq_slot dbg) [0..<nthreads] ?s" using D(1) p(1) by (simp add: sq_kernel_step_def)
  also have "\<dots> = Some q"
    by (rule q_loop_one [where t = th and stop = False]) (use th p D(7) sl quiet in auto)
  finally have run: "sq_enq nthreads dbg th v (s, tb) = Some (q, tb(th := info_bits (vreg q th)))" using quiet by (simp add: sq_enq_def)
  have r: "sreg q j = sreg s j" if "j \<noteq> 5" "j \<noteq> 6" for j using that p(1) by (simp add: q_def)
  have r5: "sreg q 5 = of_nat (next_index SEG_WORDS t)" using sq_wrap [OF D(6)] p(1) D(4) by (auto simp: q_def)
  have inv: "sq_inv q (h, next_index SEG_WORDS t)" using D r r5 quiet by (simp add: sq_inv_def)
  have "vmem q = (vmem s)(block 1 t := v)" by (simp add: q_def)
  then have "q_at q i = ((q_at s)(t := v)) i" if "i < SEG_WORDS" for i
    using qb.block_inj [OF that D(6)] by (auto simp: q_at_def)
  then have "ring_list SEG_WORDS (q_at q) h (next_index SEG_WORDS t) = ring_list SEG_WORDS ((q_at s)(t := v)) h (next_index SEG_WORDS t)"
    unfolding ring_list_def using D(5) by (intro map_cong) simp_all
  then have "sq_abs q (h, next_index SEG_WORDS t) = sq_abs s (h, t) @ [v]"
    using ring_list_push [OF D(5,6) room] by (simp add: sq_abs_def)
  then show ?thesis using run inv by blast
qed

lemma sq_deq_ok:
  assumes I: "sq_inv s (h, t)" and th: "th < nthreads" and ne: "h \<noteq> t"
  shows "\<exists>x q tb'. sq_deq nthreads dbg th (s, tb) = Some (x, q, tb') \<and> sq_inv q (next_index SEG_WORDS h, t) \<and>
    sq_abs s (h, t) = x # sq_abs q (next_index SEG_WORDS h, t)"
proof -
  let ?s = "q_post th (Q_SET_DEQ (tb th)) None s"
  have D: "sreg s 0 = 1" "sreg s 3 = BLOCK_BASE_ADDR" "sreg s 4 = of_nat h" "sreg s 5 = of_nat t" "h < SEG_WORDS" "t < SEG_WORDS"
    "\<And>i. Q_CHECK_VALID_REQUEST (info_bits (vreg s i)) = 0" using I by (auto simp: sq_inv_def)
  have p: "sreg ?s = sreg s" "vmem ?s = vmem s" "info_bits (vreg ?s th) = Q_SET_REQUEST (Q_SET_DEQ (tb th))"
    "\<And>j. j \<noteq> th \<Longrightarrow> vreg ?s j = vreg s j" by (simp_all add: q_post_def)
  have ad: "seg_addr ?s (sreg ?s 4) = block 1 h" using seg_addr_block [of ?s h] D(2,3) p(1) by simp
  let ?s1 = "q_stamp dbg th (?s\<lparr>vreg := (vreg ?s)(th := (vreg ?s th)\<lparr>req_parameter := q_at s h\<rparr>)\<rparr>)"
  let ?s2 = "set_sreg 4 (sreg ?s1 4 + 1) ?s1"
  define q where "q = q_bits Q_CLEAR_REQUEST th (if MAX_INDEX \<le> sreg ?s2 4 then set_sreg 4 0 ?s2 else ?s2)"
  have "vrd (vmem ?s) (seg_addr ?s (sreg ?s 4)) = Some (q_at s h)"
    using block_in [OF D(5)] unfolding ad p(2) by (simp add: vrd_def q_at_def)
  then have sl: "sq_slot dbg th ?s = Some (False, q)" using p(3) by (simp add: sq_slot_def q_def Let_def)
  have quiet: "Q_CHECK_VALID_REQUEST (info_bits (vreg q j)) = 0" for j
    using D(7) p(3,4) by (cases "j = th") (simp_all add: q_def)
  have x: "req_parameter (vreg q th) = q_at s h" by (simp add: q_def)
  have "sq_kernel_step nthreads dbg ?s = q_loop (sq_slot dbg) [0..<nthreads] ?s" using D(1) p(1) by (simp add: sq_kernel_step_def)
  also have "\<dots> = Some q"
    by (rule q_loop_one [where t = th and stop = False]) (use th p D(7) sl quiet in auto)
  finally have run: "sq_deq nthreads dbg th (s, tb) = Some (q_at s h, q, tb(th := info_bits (vreg q th)))"
    using quiet x by (simp add: sq_deq_def)
  have r: "sreg q j = sreg s j" if "j \<noteq> 4" "j \<noteq> 6" for j using that p(1) by (simp add: q_def)
  have r4: "sreg q 4 = of_nat (next_index SEG_WORDS h)" using sq_wrap [OF D(5)] p(1) D(3) by (auto simp: q_def)
  have inv: "sq_inv q (next_index SEG_WORDS h, t)" using D r r4 quiet by (simp add: sq_inv_def)
  have "q_at q = q_at s" using p(2) by (simp add: q_def q_at_def fun_eq_iff)
  then have "sq_abs s (h, t) = q_at s h # sq_abs q (next_index SEG_WORDS h, t)"
    using ring_list_pop [OF D(5,6) ne] by (simp add: sq_abs_def)
  then show ?thesis using run inv by blast
qed

text \<open>
  C21. The queue of a single PIM is a first-in first-out queue, whatever the positions of the head and the tail,
  as long as it is never dequeued when empty nor filled up: every request is served in the round after it is posted,
  and the circular array, which wraps around at \<open>MAX_INDEX\<close> words, holds the queue.
\<close>

theorem sq_run_fifo:
  assumes "sq_inv s p" and "sq_fits nthreads (length (sq_abs s p)) ops"
  shows "\<exists>vs s' tb' p'. sq_run nthreads dbg ops (s, tb) = Some (vs, s', tb') \<and> sq_inv s' p' \<and>
    fifo_run ops (sq_abs s p) = (vs, sq_abs s' p')"
  using assms
proof (induction ops arbitrary: s p tb)
  case (Cons r ops)
  obtain h t where p: "p = (h, t)" by (cases p)
  have ht: "h < SEG_WORDS" "t < SEG_WORDS" using Cons.prems(1) by (auto simp: sq_inv_def p)
  have len: "length (sq_abs s p) = ring_length SEG_WORDS h t" by (simp add: sq_abs_def p)
  show ?case
  proof (cases r)
    case (Enq th v)
    then have "th < nthreads" "Suc (ring_length SEG_WORDS h t) < SEG_WORDS" using Cons.prems(2) len by auto
    from sq_enq_ok [OF Cons.prems(1) [unfolded p] this, where dbg = dbg and tb = tb and v = v]
    obtain q tb1 where q: "sq_enq nthreads dbg th v (s, tb) = Some (q, tb1)" "sq_inv q (h, next_index SEG_WORDS t)"
      "sq_abs q (h, next_index SEG_WORDS t) = sq_abs s (h, t) @ [v]" by blast
    have "sq_fits nthreads (length (sq_abs q (h, next_index SEG_WORDS t))) ops" using Cons.prems(2) by (simp add: q(3) Enq p)
    from Cons.IH [OF q(2) this, where tb = tb1] show ?thesis using q(1) by (simp add: Enq p q(3))
  next
    case (Deq th)
    then have "th < nthreads" "h \<noteq> t" using Cons.prems(2) len by (auto simp: ring_length_def)
    from sq_deq_ok [OF Cons.prems(1) [unfolded p] this, where dbg = dbg and tb = tb]
    obtain x q tb1 where q: "sq_deq nthreads dbg th (s, tb) = Some (x, q, tb1)" "sq_inv q (next_index SEG_WORDS h, t)"
      "sq_abs s (h, t) = x # sq_abs q (next_index SEG_WORDS h, t)" by blast
    have "sq_fits nthreads (length (sq_abs q (next_index SEG_WORDS h, t))) ops" using Cons.prems(2) by (simp add: q(3) Deq p)
    from Cons.IH [OF q(2) this, where tb = tb1]
    obtain vs s' tb' p' where w: "sq_run nthreads dbg ops (q, tb1) = Some (vs, s', tb')" "sq_inv s' p'"
      "fifo_run ops (sq_abs q (next_index SEG_WORDS h, t)) = (vs, sq_abs s' p')" by blast
    then have "sq_run nthreads dbg (r # ops) (s, tb) = Some (x # vs, s', tb')" "fifo_run (r # ops) (sq_abs s p) = (x # vs, sq_abs s' p')"
      using q(1) by (simp_all add: Deq p q(3))
    then show ?thesis using w(2) by blast
  qed
qed auto

lemma sq_example_inv: "sq_inv (q_pim_of 1 0 [10, 20]) (0, 2)"
  by (simp add: sq_inv_def q_pim_of_def SEG_WORDS_def VAULT_SIZE_def Q_CHECK_VALID_REQUEST_def)

lemma sq_example_abs: "sq_abs (q_pim_of 1 0 [10, 20]) (0, 2) = [10, 20]"
proof -
  have u: "[0..<2] = [0, 1 :: nat]" by (simp add: upt_conv_Cons)
  have b: "block (Suc 0) 0 \<noteq> block (Suc 0) (Suc 0)" using qb.block_inj [of 0 1] by (auto simp: SEG_WORDS_def VAULT_SIZE_def)
  have "ring_length SEG_WORDS 0 2 = 2" by (simp add: ring_length_eq SEG_WORDS_def VAULT_SIZE_def)
  then show ?thesis unfolding sq_abs_def ring_list_def prod.case by (simp add: u q_at_def q_pim_of_def b SEG_WORDS_def VAULT_SIZE_def)
qed

theorem sq_run_fifo_witness:
  "\<exists>s'. sq_run 2 True [Enq 0 30, Deq 1, Deq 0, Enq 1 40, Deq 1] (q_pim_of 1 0 [10, 20], \<lambda>_. 0) = Some ([10, 20, 30], s')"
  using sq_run_fifo [OF sq_example_inv, of 2 "[Enq 0 30, Deq 1, Deq 0, Enq 1 40, Deq 1]" True "\<lambda>_. 0", unfolded sq_example_abs]
  by (auto simp: SEG_WORDS_def VAULT_SIZE_def simp del: sq_run.simps)

end
