(* ===== verification/PIM_Task.thy ===== *)
theory PIM_Task
  imports SMC_Prelude
begin

text \<open>
  \<open>HOST/api/pim_task.cc\<close> and the part of \<open>HOST/api/pim_api.cc\<close> that offloads a task: the data sets of a task, kept
  sorted by address, the ranges of virtual pages they occupy, and the arguments handed to the driver. \<open>ulong_t\<close> has 32
  bits (ARMv7); \<open>None\<close> is the exit of a debug build on a failed check. \<open>PIM_HOST_OFFSET\<close>, which the build generates,
  is an argument.
\<close>

record pim_data =
  v_addr :: u32
  dsize :: u32
  dreg :: u32

record pim_page =
  v_pn_start :: u32
  v_pn_end :: u32
  pcount :: u32

record pim_task =
  task_name :: string
  task_data :: "pim_data list"
  vpages :: "pim_page list"
  stat_datasize :: u32
  task_updated :: bool

definition PIMTask :: "string \<Rightarrow> pim_task" where
  "PIMTask n = \<lparr>task_name = n, task_data = [], vpages = [], stat_datasize = 0, task_updated = False\<rparr>"

text \<open>\<open>PIMAPI::PIMAPI\<close>: \<open>PAGE_SHIFT\<close> from \<open>PAGE_SIZE\<close>.\<close>

function page_shift :: "u32 \<Rightarrow> nat \<Rightarrow> nat" where
  "page_shift p sh = (if 1 < p then page_shift (drop_bit 1 p) (sh + 1) else sh)"
  by auto

termination page_shift
proof (relation "measure (\<lambda>(p, sh). unat p)")
  fix p :: u32 and sh :: nat
  assume "1 < p"
  then have "0 < unat p" by (simp add: word_less_nat_alt)
  then show "((drop_bit 1 p, sh + 1), p, sh) \<in> measure (\<lambda>(p, sh). unat p)"
    by (simp add: drop_bit_eq_div unat_div)
qed simp

declare page_shift.simps [simp del]

text \<open>\<open>addData\<close>: \<open>None\<close> of \<open>insert_data\<close> when no data set has a larger address.\<close>

fun insert_data :: "pim_data \<Rightarrow> pim_data list \<Rightarrow> pim_data list option" where
  "insert_data d [] = None"
| "insert_data d (e # es) = (if v_addr d < v_addr e then Some (d # e # es) else map_option ((#) e) (insert_data d es))"

definition addData :: "bool \<Rightarrow> u32 \<Rightarrow> u32 \<Rightarrow> u32 \<Rightarrow> u32 \<Rightarrow> pim_task \<Rightarrow> pim_task option" where
  "addData dbg host_offset addr sz reg t =
     (if dbg \<and> addr < host_offset then None
      else let d = \<lparr>v_addr = addr, dsize = sz, dreg = reg\<rparr>;
               t1 = t\<lparr>stat_datasize := stat_datasize t + sz\<rparr>
           in case insert_data d (task_data t) of
                Some ds \<Rightarrow> Some (t1\<lparr>task_data := ds\<rparr>)
              | None \<Rightarrow> Some (t1\<lparr>task_data := task_data t @ [d], task_updated := False\<rparr>))"

definition start_page :: "nat \<Rightarrow> pim_data \<Rightarrow> u32" where
  "start_page sh d = drop_bit sh (v_addr d)"

definition end_page :: "nat \<Rightarrow> pim_data \<Rightarrow> u32" where
  "end_page sh d = drop_bit sh (v_addr d + dsize d - 1)"

definition new_page :: "nat \<Rightarrow> pim_data \<Rightarrow> pim_page" where
  "new_page sh d = \<lparr>v_pn_start = start_page sh d, v_pn_end = end_page sh d, pcount = end_page sh d - start_page sh d + 1\<rparr>"

definition merge_page :: "nat \<Rightarrow> pim_data \<Rightarrow> pim_page option \<times> pim_page list \<Rightarrow> pim_page option \<times> pim_page list" where
  "merge_page sh d = (\<lambda>(pg, vp).
     case pg of
       None \<Rightarrow> (Some (new_page sh d), vp)
     | Some p \<Rightarrow>
         (if start_page sh d - 1 \<le> v_pn_end p
          then (Some (p\<lparr>v_pn_end := end_page sh d, pcount := end_page sh d - v_pn_start p + 1\<rparr>), vp)
          else (Some (new_page sh d), vp @ [p])))"

fun merge_loop :: "bool \<Rightarrow> nat \<Rightarrow> pim_data list \<Rightarrow> u32 \<Rightarrow> pim_page option \<times> pim_page list \<Rightarrow> (pim_page option \<times> pim_page list) option" where
  "merge_loop dbg sh [] prev_end st = Some st"
| "merge_loop dbg sh (d # ds) prev_end st =
     (let st1 = merge_page sh d st
      in if dbg \<and> prev_end \<noteq> 0 \<and> v_addr d < prev_end then None
         else merge_loop dbg sh ds (v_addr d + dsize d - 1) st1)"

definition updatePages :: "bool \<Rightarrow> nat \<Rightarrow> pim_task \<Rightarrow> pim_task option" where
  "updatePages dbg sh t =
     do { (pg, vp) \<leftarrow> merge_loop dbg sh (task_data t) 0 (None, vpages t);
          Some (t\<lparr>vpages := vp @ (case pg of None \<Rightarrow> [] | Some p \<Rightarrow> [p]), task_updated := True\<rparr>) }"

text \<open>The number and the unit of \<open>MEM_SIZE\<close>.\<close>

definition MEM_SIZE :: "u32 \<Rightarrow> u32 \<times> string" where
  "MEM_SIZE v = (if v > 1024 * 1024 then (v div (1024 * 1024), ''(MB)'') else if v > 1024 then (v div 1024, ''(KB)'') else (v, ''(B)''))"

text \<open>\<open>PIMAPI::offload_task\<close>: the argument of the system call and the scalar registers.\<close>

definition PIM_IOCTL_MAX_ARGS :: nat where "PIM_IOCTL_MAX_ARGS = 8"

definition ioctl_args :: "nat \<Rightarrow> pim_task \<Rightarrow> u32 list" where
  "ioctl_args sh t = of_nat (2 * length (vpages t)) # concat (map (\<lambda>p. [push_bit sh (v_pn_start p), pcount p]) (vpages t))"

definition send_pointers :: "pim_data list \<Rightarrow> (nat \<Rightarrow> u32) \<Rightarrow> (nat \<Rightarrow> u32)" where
  "send_pointers ds sregs = fold (\<lambda>d f. f(unat (dreg d) := v_addr d)) ds sregs"

definition offload_task :: "bool \<Rightarrow> nat \<Rightarrow> pim_task \<Rightarrow> (nat \<Rightarrow> u32) \<Rightarrow> (u32 list \<times> pim_task \<times> (nat \<Rightarrow> u32)) option" where
  "offload_task dbg sh t sregs =
     do { t1 \<leftarrow> updatePages dbg sh t;
          if dbg \<and> \<not> (length (vpages t1) * 2 < PIM_IOCTL_MAX_ARGS \<and> length (vpages t1) = 1) then None
          else Some (ioctl_args sh t1, t1, send_pointers (task_data t1) sregs) }"

subsection \<open>The data sets are sorted\<close>

lemma insert_data_None: "insert_data d ds = None \<longleftrightarrow> (\<forall>e \<in> set ds. v_addr e \<le> v_addr d)"
  by (induction ds) (auto simp: not_less)

lemma insert_data_set: "insert_data d ds = Some es \<Longrightarrow> set es = insert d (set ds)"
  by (induction ds arbitrary: es) (auto split: if_splits)

lemma insert_data_sorted: "insert_data d ds = Some es \<Longrightarrow> sorted (map v_addr ds) \<Longrightarrow> sorted (map v_addr es)"
proof (induction ds arbitrary: es)
  case (Cons e ds)
  show ?case
  proof (cases "v_addr d < v_addr e")
    case False
    then obtain es' where es: "insert_data d ds = Some es'" "es = e # es'" using Cons.prems(1) by auto
    show ?thesis using Cons.IH [OF es(1)] Cons.prems(2) insert_data_set [OF es(1)] False by (auto simp: es(2) not_less)
  qed (use Cons.prems in \<open>fastforce dest: order.strict_implies_order intro: order_trans\<close>)
qed simp

text \<open>
  \<open>addData\<close> keeps the data sets sorted by address whatever order they are added in, adds exactly the new data set,
  and a release build never fails; the debug build fails exactly for an address below \<open>PIM_HOST_OFFSET\<close>.
\<close>

theorem addData_sorted:
  assumes "sorted (map v_addr (task_data t))"
  shows "(addData dbg off a sz reg t = None \<longleftrightarrow> dbg \<and> a < off) \<and>
    (\<forall>t'. addData dbg off a sz reg t = Some t' \<longrightarrow> sorted (map v_addr (task_data t')) \<and>
      set (task_data t') = insert \<lparr>v_addr = a, dsize = sz, dreg = reg\<rparr> (set (task_data t)) \<and> stat_datasize t' = stat_datasize t + sz)"
proof (intro conjI allI impI)
  let ?d = "\<lparr>v_addr = a, dsize = sz, dreg = reg\<rparr>"
  show "addData dbg off a sz reg t = None \<longleftrightarrow> dbg \<and> a < off" by (auto simp: addData_def Let_def split: option.splits)
  fix t' assume t': "addData dbg off a sz reg t = Some t'"
  have e: "task_data t' = (case insert_data ?d (task_data t) of Some ds \<Rightarrow> ds | None \<Rightarrow> task_data t @ [?d])" "stat_datasize t' = stat_datasize t + sz"
    using t' by (auto simp: addData_def Let_def split: if_splits option.splits)
  have "sorted (map v_addr (task_data t')) \<and> set (task_data t') = insert ?d (set (task_data t))"
  proof (cases "insert_data ?d (task_data t)")
    case None
    then show ?thesis using assms insert_data_None [of ?d "task_data t"] by (simp add: e(1) sorted_append)
  next
    case (Some ds)
    then show ?thesis using insert_data_sorted [OF Some assms] insert_data_set [OF Some] by (simp add: e(1))
  qed
  then show "sorted (map v_addr (task_data t'))" "set (task_data t') = insert ?d (set (task_data t))" by blast+
  show "stat_datasize t' = stat_datasize t + sz" by (rule e(2))
qed

theorem addData_sorted_witness:
  "\<exists>t. addData True 16 64 4 1 (PIMTask ''a''\<lparr>task_data := [\<lparr>v_addr = 100, dsize = 8, dreg = 0\<rparr>]\<rparr>) = Some t \<and>
    sorted (map v_addr (task_data t))"
proof -
  let ?t = "PIMTask ''a''\<lparr>task_data := [\<lparr>v_addr = 100, dsize = 8, dreg = 0\<rparr>]\<rparr>"
  have "sorted (map v_addr (task_data ?t))" by simp
  from addData_sorted [OF this, of True 16 64 4 1] show ?thesis by (auto simp del: not_None_eq)
qed

subsection \<open>The pages of the data sets\<close>

text \<open>Data sets in order, without overlap, above the first page and inside the address space.\<close>

definition d_end :: "pim_data \<Rightarrow> nat" where
  "d_end d = unat (v_addr d) + unat (dsize d) - 1"

definition data_ok :: "nat \<Rightarrow> pim_data list \<Rightarrow> bool" where
  "data_ok sh ds \<longleftrightarrow> sorted_wrt (\<lambda>d e. d_end d < unat (v_addr e)) ds \<and>
     (\<forall>d \<in> set ds. 0 < dsize d \<and> 2 ^ sh \<le> unat (v_addr d) \<and> unat (v_addr d) + unat (dsize d) \<le> 2 ^ 32)"

definition data_pages :: "nat \<Rightarrow> pim_data \<Rightarrow> nat set" where
  "data_pages sh d = {unat (v_addr d) div 2 ^ sh .. d_end d div 2 ^ sh}"

definition range_pages :: "pim_page \<Rightarrow> nat set" where
  "range_pages p = {unat (v_pn_start p) .. unat (v_pn_end p)}"

definition ranges_ok :: "pim_page list \<Rightarrow> bool" where
  "ranges_ok ps \<longleftrightarrow> sorted_wrt (\<lambda>p q. unat (v_pn_end p) + 1 < unat (v_pn_start q)) ps \<and>
     (\<forall>p \<in> set ps. v_pn_start p \<le> v_pn_end p \<and> unat (pcount p) = unat (v_pn_end p) - unat (v_pn_start p) + 1)"

lemma unat_drop_bit: "unat (drop_bit sh w :: u32) = unat w div 2 ^ sh"
  by (metis drop_bit_eq_div unat_drop_bit_eq)

lemma unat_end:
  assumes "0 < dsize d" "unat (v_addr d) + unat (dsize d) \<le> 2 ^ 32"
  shows "unat (v_addr d + dsize d - 1) = d_end d"
proof -
  have "v_addr d + dsize d - 1 = of_nat (unat (v_addr d) + unat (dsize d) - 1)"
    using assms(1) by (simp add: of_nat_diff word_less_nat_alt)
  moreover have "unat (of_nat (unat (v_addr d) + unat (dsize d) - 1) :: u32) = unat (v_addr d) + unat (dsize d) - 1"
    by (subst unat_of_nat) (use assms(2) in simp)
  ultimately show ?thesis by (simp add: d_end_def)
qed

lemma unat_pages:
  assumes "0 < dsize d" "2 ^ sh \<le> unat (v_addr d)" "unat (v_addr d) + unat (dsize d) \<le> 2 ^ 32"
  shows "unat (start_page sh d) = unat (v_addr d) div 2 ^ sh" "unat (end_page sh d) = d_end d div 2 ^ sh"
    "start_page sh d \<le> end_page sh d" "unat (start_page sh d - 1) + 1 = unat (start_page sh d)"
proof -
  show s: "unat (start_page sh d) = unat (v_addr d) div 2 ^ sh" by (simp add: start_page_def unat_drop_bit)
  show e: "unat (end_page sh d) = d_end d div 2 ^ sh" using unat_end [OF assms(1,3)] by (simp add: end_page_def unat_drop_bit)
  have "unat (v_addr d) \<le> d_end d" using assms(1) by (simp add: d_end_def word_less_nat_alt)
  then show "start_page sh d \<le> end_page sh d" by (simp add: word_le_nat_alt s e div_le_mono)
  have "0 < unat (start_page sh d)" unfolding s using assms(2) by (simp add: div_greater_zero_iff)
  then show "unat (start_page sh d - 1) + 1 = unat (start_page sh d)" by (simp add: unat_minus_one unat_gt_0)
qed

lemma unat_count: "a \<le> b \<Longrightarrow> 0 < unat (a :: u32) \<Longrightarrow> unat (b - a + 1) = unat b - unat a + 1"
proof -
  assume a: "a \<le> b" "0 < unat a"
  then have "unat (b - a) = unat b - unat a" by (simp add: unat_sub)
  moreover have "unat b < 2 ^ 32" using unsigned_less [of b, where 'a = nat] by simp
  ultimately show ?thesis using a by (simp add: unat_plus_if' word_le_nat_alt)
qed

definition covered :: "pim_page option \<times> pim_page list \<Rightarrow> nat set" where
  "covered st = \<Union> (range_pages ` set (snd st @ (case fst st of None \<Rightarrow> [] | Some p \<Rightarrow> [p])))"

text \<open>The state of the loop over the data sets after the last one ended at byte \<open>e\<close>.\<close>

definition merge_ok :: "nat \<Rightarrow> nat \<Rightarrow> pim_page option \<times> pim_page list \<Rightarrow> bool" where
  "merge_ok sh e st \<longleftrightarrow> (case fst st of None \<Rightarrow> snd st = [] | Some p \<Rightarrow> ranges_ok (snd st @ [p]) \<and> 0 < unat (v_pn_start p) \<and> unat (v_pn_end p) = e div 2 ^ sh)"

lemma ranges_ok_snoc: "ranges_ok (ps @ [p]) \<longleftrightarrow> ranges_ok ps \<and> (\<forall>q \<in> set ps. unat (v_pn_end q) + 1 < unat (v_pn_start p)) \<and>
    v_pn_start p \<le> v_pn_end p \<and> unat (pcount p) = unat (v_pn_end p) - unat (v_pn_start p) + 1"
  by (auto simp: ranges_ok_def sorted_wrt_append)

lemma merge_page_ok:
  assumes M: "merge_ok sh e st" and le: "fst st \<noteq> None \<Longrightarrow> e < unat (v_addr d)"
    and d: "0 < dsize d" "2 ^ sh \<le> unat (v_addr d)" "unat (v_addr d) + unat (dsize d) \<le> 2 ^ 32"
  shows "merge_ok sh (d_end d) (merge_page sh d st) \<and> covered (merge_page sh d st) = covered st \<union> data_pages sh d \<and> fst (merge_page sh d st) \<noteq> None"
proof -
  note u = unat_pages [OF d]
  have s0: "0 < unat (start_page sh d)" using u(4) by simp
  have np: "ranges_ok [new_page sh d]" "range_pages (new_page sh d) = data_pages sh d"
    using u s0 unat_count [OF u(3) s0] by (simp_all add: ranges_ok_def new_page_def range_pages_def data_pages_def)
  obtain pg vp where st: "st = (pg, vp)" by (cases st)
  show ?thesis
  proof (cases pg)
    case None
    then show ?thesis using M np s0 u(2) by (simp add: st merge_page_def merge_ok_def covered_def new_page_def)
  next
    case (Some p)
    have R: "ranges_ok (vp @ [p])" "0 < unat (v_pn_start p)" "unat (v_pn_end p) = e div 2 ^ sh" using M by (simp_all add: st Some merge_ok_def)
    have sp: "v_pn_start p \<le> v_pn_end p" using R(1) by (simp add: ranges_ok_snoc)
    have ge: "unat (v_pn_end p) \<le> unat (start_page sh d)"
      unfolding R(3) u(1) using le by (intro div_le_mono) (simp add: st Some)
    show ?thesis
    proof (cases "start_page sh d - 1 \<le> v_pn_end p")
      case True
      then have m: "unat (start_page sh d) \<le> unat (v_pn_end p) + 1" using u(4) by (simp add: word_le_nat_alt)
      let ?p = "p\<lparr>v_pn_end := end_page sh d, pcount := end_page sh d - v_pn_start p + 1\<rparr>"
      have le2: "v_pn_start p \<le> end_page sh d" using sp ge u(3) by (simp add: word_le_nat_alt)
      have "ranges_ok (vp @ [?p])" using R(1) le2 unat_count [OF le2 R(2)] by (simp add: ranges_ok_snoc)
      moreover have "range_pages ?p = range_pages p \<union> data_pages sh d"
        using m ge u sp by (auto simp: range_pages_def data_pages_def word_le_nat_alt)
      ultimately show ?thesis using True R(2) u(2) by (simp add: st Some merge_page_def merge_ok_def covered_def Un_ac)
    next
      case False
      then have g: "unat (v_pn_end p) + 1 < unat (start_page sh d)" using u(4) by (simp add: word_le_nat_alt)
      have "unat (v_pn_end q) + 1 < unat (start_page sh d)" if "q \<in> set (vp @ [p])" for q
      proof (cases "q = p")
        case False
        then have "unat (v_pn_end q) + 1 < unat (v_pn_start p)" using R(1) that by (simp add: ranges_ok_snoc)
        then show ?thesis using g sp by (simp add: word_le_nat_alt)
      qed (use g in simp)
      then have "ranges_ok ((vp @ [p]) @ [new_page sh d])"
        using R(1) np(1) unfolding ranges_ok_snoc [of "vp @ [p]"] by (simp add: ranges_ok_def new_page_def)
      then show ?thesis using False s0 u(2) np(2) by (simp add: st Some merge_page_def merge_ok_def covered_def new_page_def Un_ac)
    qed
  qed
qed

lemma merge_loop_ok:
  assumes "merge_ok sh e st" and "data_ok sh ds" and "fst st \<noteq> None \<Longrightarrow> \<forall>d \<in> set ds. e < unat (v_addr d)" and "fst st = None \<or> unat prev = e" and "fst st = None \<longrightarrow> prev = 0"
  shows "\<exists>st' e'. merge_loop dbg sh ds prev st = Some st' \<and> merge_ok sh e' st' \<and> covered st' = covered st \<union> (\<Union>d \<in> set ds. data_pages sh d)"
  using assms
proof (induction ds arbitrary: e st prev)
  case (Cons d ds)
  have d: "0 < dsize d" "2 ^ sh \<le> unat (v_addr d)" "unat (v_addr d) + unat (dsize d) \<le> 2 ^ 32"
    and ds: "data_ok sh ds" "\<forall>x \<in> set ds. d_end d < unat (v_addr x)" using Cons.prems(2) by (simp_all add: data_ok_def)
  have "merge_ok sh (d_end d) (merge_page sh d st) \<and> covered (merge_page sh d st) = covered st \<union> data_pages sh d \<and> fst (merge_page sh d st) \<noteq> None"
    by (rule merge_page_ok [OF Cons.prems(1) _ d]) (use Cons.prems(3) in simp)
  then have m: "merge_ok sh (d_end d) (merge_page sh d st)" "covered (merge_page sh d st) = covered st \<union> data_pages sh d" "fst (merge_page sh d st) \<noteq> None"
    by simp_all
  have "\<exists>st' e'. merge_loop dbg sh ds (v_addr d + dsize d - 1) (merge_page sh d st) = Some st' \<and> merge_ok sh e' st' \<and>
      covered st' = covered (merge_page sh d st) \<union> (\<Union>d \<in> set ds. data_pages sh d)"
    using Cons.IH [OF m(1) ds(1), of "v_addr d + dsize d - 1"] ds(2) m(3) unat_end [OF d(1,3)] by simp
  moreover have "\<not> (prev \<noteq> 0 \<and> v_addr d < prev)"
    using Cons.prems(3,4,5) by (cases "fst st") (auto simp: word_less_nat_alt)
  ultimately show ?case unfolding m(2) by (simp add: Let_def Un_assoc del: split_paired_Ex)
qed auto

lemma updatePages_ok:
  assumes "data_ok sh (task_data t)" and "vpages t = []"
  shows "\<exists>t'. updatePages dbg sh t = Some t' \<and> task_updated t' \<and> task_data t' = task_data t \<and> ranges_ok (vpages t') \<and>
    (\<Union>p \<in> set (vpages t'). range_pages p) = (\<Union>d \<in> set (task_data t). data_pages sh d)"
proof -
  have "merge_ok sh 0 (None, [])" by (simp add: merge_ok_def)
  from merge_loop_ok [OF this assms(1), of 0 dbg] obtain pg vp e
    where m: "merge_loop dbg sh (task_data t) 0 (None, vpages t) = Some (pg, vp)" "merge_ok sh e (pg, vp)"
      "covered (pg, vp) = (\<Union>d \<in> set (task_data t). data_pages sh d)"
    by (auto simp: assms(2) covered_def)
  show ?thesis
  proof (cases pg)
    case None
    then show ?thesis using m by (auto simp: updatePages_def merge_ok_def covered_def ranges_ok_def)
  next
    case (Some p)
    then show ?thesis using m by (auto simp: updatePages_def merge_ok_def covered_def)
  qed
qed

text \<open>
  C22. \<open>updatePages\<close> computes the page ranges of a task: for data sets that do not overlap, the ranges cover exactly the
  pages that hold a byte of a data set, they are in ascending order, no two of them overlap or touch, each is as
  long as its page count says, and the overlap check of a debug build does not fire.
\<close>

theorem updatePages_covers:
  assumes "data_ok sh (task_data t)" and "vpages t = []"
  shows "\<exists>t'. updatePages dbg sh t = Some t' \<and> task_updated t' \<and> task_data t' = task_data t \<and> ranges_ok (vpages t') \<and>
    (\<Union>p \<in> set (vpages t'). range_pages p) = (\<Union>d \<in> set (task_data t). data_pages sh d)"
  by (rule updatePages_ok [OF assms])

theorem updatePages_covers_witness:
  "\<exists>t'. updatePages True 12 (PIMTask ''t''\<lparr>task_data := [\<lparr>v_addr = 0x5000, dsize = 0x1800, dreg = 0\<rparr>, \<lparr>v_addr = 0x7010, dsize = 4, dreg = 1\<rparr>]\<rparr>) = Some t' \<and>
    (\<Union>p \<in> set (vpages t'). range_pages p) = {5, 6, 7}"
proof -
  let ?t = "PIMTask ''t''\<lparr>task_data := [\<lparr>v_addr = 0x5000, dsize = 0x1800, dreg = 0\<rparr>, \<lparr>v_addr = 0x7010, dsize = 4, dreg = 1\<rparr>]\<rparr>"
  have "data_ok 12 (task_data ?t)" by (simp add: data_ok_def d_end_def)
  from updatePages_covers [OF this, of True] obtain t' where t': "updatePages True 12 ?t = Some t'"
    "(\<Union>p \<in> set (vpages t'). range_pages p) = (\<Union>d \<in> set (task_data ?t). data_pages 12 d)" by (auto simp: PIMTask_def)
  have "(\<Union>d \<in> set (task_data ?t). data_pages 12 d) = {5..6} \<union> {7}" by (simp add: data_pages_def d_end_def)
  also have "\<dots> = {5, 6, 7}" by auto
  finally show ?thesis using t' by auto
qed

lemma unat_two_power: "k < 32 \<Longrightarrow> unat (2 ^ k :: u32) = 2 ^ k"
proof -
  assume k: "k < 32"
  have "(2 :: nat) ^ k < 2 ^ 32" using k by (rule power_strict_increasing) simp
  then have "unat (of_nat (2 ^ k) :: u32) = 2 ^ k" by (subst unat_of_nat) simp
  then show ?thesis by simp
qed

lemma page_shift_power: "k < 32 \<Longrightarrow> page_shift (2 ^ k) sh = sh + k"
proof (induction k arbitrary: sh)
  case (Suc k)
  have "(1 :: u32) < 2 ^ Suc k" using unat_two_power [OF Suc.prems] one_less_power [of "2 :: nat" "Suc k"] by (simp add: word_less_nat_alt del: power_Suc)
  moreover have "drop_bit 1 (2 ^ Suc k :: u32) = 2 ^ k"
    using unat_two_power [OF Suc.prems] unat_two_power [of k] Suc.prems by (simp only: word_unat_eq_iff unat_drop_bit) simp
  ultimately have "page_shift (2 ^ Suc k) sh = page_shift (2 ^ k) (sh + 1)" by (simp only: page_shift.simps [of "2 ^ Suc k"] if_True)
  then show ?case using Suc by (simp del: power_Suc)
qed (simp add: page_shift.simps)

end
