(* ===== verification/PIM_Driver.thy ===== *)
theory PIM_Driver
  imports SMC_Prelude
begin

text \<open>
  \<open>HOST/driver/pim.c\<close>: the driver pins the pages of a task, merges pages that are contiguous in physical
  memory into slices, writes the slice table and passes it to the PIM device. The services of the
  kernel are arguments (\<open>kernel\<close>): the allocators, \<open>get_user_pages\<close>, \<open>page_to_phys\<close> and the user memory that \<open>copy_from_user\<close>
  reads. \<open>None\<close> is an access outside an array, to memory never written or to freed memory.
\<close>

datatype errno = ENOTTY | EFAULT | ENOMEM | EINVAL | EAGAIN

datatype dev_reg = PIM_SLICETABLE | PIM_SLICECOUNT | PIM_SLICEVSTART | PIM_M5_D1_REG | PIM_M5_D2_REG

record slice =
  sl_vaddr :: u32
  sl_paddr :: u32
  sl_size :: u32

record drv =
  pages_list :: "nat list"
  list_live :: bool
  pages_count :: nat
  physical_addr :: "u32 list"
  phys_live :: bool
  slicetable :: "slice list"
  slicetable_paddr :: u32
  stat_numslices :: nat
  ioctl_allocate :: nat
  device :: "nat \<Rightarrow> dev_reg \<Rightarrow> u32"
  flushed :: "(u32 \<times> u32) list"

record kernel =
  debug_driver :: bool
  merge_slices :: bool
  page_size :: u32
  kmalloc_list :: bool
  kmalloc_phys :: bool
  free_pages :: "u32 option"
  get_user_pages :: "u32 \<Rightarrow> u32 \<Rightarrow> nat list"
  page_to_phys :: "nat \<Rightarrow> u32"
  access_ok :: "u32 \<Rightarrow> u32 \<Rightarrow> bool"
  user_word :: "u32 \<Rightarrow> nat \<Rightarrow> u32 option"
  page_reserved :: "nat \<Rightarrow> bool"

definition pim_init :: "drv \<Rightarrow> drv" where
  "pim_init s = s\<lparr>pages_list := [], list_live := False, physical_addr := [], phys_live := False, pages_count := 0, stat_numslices := 0\<rparr>"

definition sizeof_Slice :: nat where "sizeof_Slice = 12"

definition PAGE_ORDER :: "nat \<Rightarrow> nat" where
  "PAGE_ORDER x = (if x \<le> 0x1000 then 0 else if x \<le> 0x2000 then 1 else if x \<le> 0x4000 then 2 else if x \<le> 0x8000 then 3
     else if x \<le> 0x10000 then 4 else if x \<le> 0x20000 then 5 else if x \<le> 0x40000 then 6 else 11)"

definition pim_get_user_pages :: "kernel \<Rightarrow> u32 \<Rightarrow> u32 \<Rightarrow> drv \<Rightarrow> (errno + unit) \<times> drv" where
  "pim_get_user_pages K addr_start n_pages s =
     (if \<not> kmalloc_list K then (Inl ENOMEM, s\<lparr>pages_list := [], list_live := False\<rparr>)
      else let ps = get_user_pages K addr_start n_pages;
               s1 = s\<lparr>pages_list := ps, list_live := True\<rparr>
           in if length ps \<noteq> unat n_pages then (Inl ENOMEM, s1)
              else (Inr (), s1\<lparr>pages_count := unat n_pages\<rparr>))"

text \<open>The number of contiguous pages from the first one on; the loop reads on past the end of the array.\<close>

fun run_len :: "u32 \<Rightarrow> u32 \<Rightarrow> u32 list \<Rightarrow> nat option" where
  "run_len ps prev [] = None"
| "run_len ps prev (x # xs) = (if prev + ps = x then map_option Suc (run_len ps x xs) else Some 1)"

function slice_loop :: "bool \<Rightarrow> u32 \<Rightarrow> u32 \<Rightarrow> nat \<Rightarrow> u32 list \<Rightarrow> (slice list \<times> nat) option" where
  "slice_loop mrg ps vstart i [] = Some ([], 0)"
| "slice_loop mrg ps vstart i (x # xs) =
     do { c \<leftarrow> (if mrg \<and> xs \<noteq> [] then run_len ps x xs else Some 1);
          (tab, n) \<leftarrow> slice_loop mrg ps vstart (i + c) (drop (c - 1) xs);
          Some (replicate c \<lparr>sl_vaddr = vstart + ps * of_nat i, sl_paddr = x, sl_size = ps * of_nat c\<rparr> @ tab, n + 1) }"
  by pat_completeness auto

termination slice_loop
  by (relation "measure (\<lambda>(mrg, ps, vstart, i, xs). length xs)") auto

definition write_dev :: "nat \<Rightarrow> dev_reg \<Rightarrow> u32 \<Rightarrow> drv \<Rightarrow> drv" where
  "write_dev minor r v s = s\<lparr>device := (device s)(minor := (device s minor)(r := v))\<rparr>"

text \<open>A flush command covers the range in the two data registers.\<close>

definition flush_range :: "nat \<Rightarrow> u32 \<Rightarrow> u32 \<Rightarrow> drv \<Rightarrow> drv" where
  "flush_range minor a b s =
     (let s1 = write_dev minor PIM_M5_D2_REG b (write_dev minor PIM_M5_D1_REG a s)
      in s1\<lparr>flushed := flushed s1 @ [(device s1 minor PIM_M5_D1_REG, device s1 minor PIM_M5_D2_REG)]\<rparr>)"

definition pim_cache_flush :: "u32 \<Rightarrow> nat \<Rightarrow> drv \<Rightarrow> drv" where
  "pim_cache_flush ps minor s =
     flush_range minor (slicetable_paddr s) (slicetable_paddr s + of_nat (pages_count s * sizeof_Slice) - 1)
       (fold (\<lambda>a. flush_range minor a (a + ps - 1)) (physical_addr s) s)"

definition pim_create_slice_table :: "kernel \<Rightarrow> nat \<Rightarrow> u32 \<Rightarrow> drv \<Rightarrow> ((errno + unit) \<times> drv) option" where
  "pim_create_slice_table K minor vaddr_start s =
     (if debug_driver K \<and> \<not> kmalloc_phys K then Some (Inl ENOMEM, s\<lparr>physical_addr := [], phys_live := False\<rparr>)
      else if \<not> kmalloc_phys K \<or> \<not> list_live s \<or> length (pages_list s) < pages_count s then None
      else let pa = map (page_to_phys K) (take (pages_count s) (pages_list s));
               s1 = s\<lparr>physical_addr := pa, phys_live := True\<rparr>
           in case free_pages K of
                None \<Rightarrow> if debug_driver K then Some (Inl ENOMEM, s1) else None
              | Some tp \<Rightarrow>
                  do { (tab, n) \<leftarrow> slice_loop (merge_slices K) (page_size K) vaddr_start 0 pa;
                       let s2 = s1\<lparr>slicetable := tab, slicetable_paddr := tp, stat_numslices := n\<rparr>;
                       let s3 = write_dev minor PIM_SLICECOUNT (of_nat (pages_count s2)) (write_dev minor PIM_SLICETABLE tp s2);
                       if tab = [] then None
                       else Some (Inr (), pim_cache_flush (page_size K) minor (write_dev minor PIM_SLICEVSTART (sl_vaddr (hd tab)) s3)) })"

subsection \<open>The system calls\<close>

unbundle bit_operations_syntax

definition IOC_TYPE :: "u32 \<Rightarrow> u32" where "IOC_TYPE cmd = drop_bit 8 cmd AND 0xFF"
definition IOC_NR :: "u32 \<Rightarrow> u32" where "IOC_NR cmd = cmd AND 0xFF"
definition IOC_DIR :: "u32 \<Rightarrow> u32" where "IOC_DIR cmd = drop_bit 30 cmd"
definition PIM_IOCTL_MAGIC :: u32 where "PIM_IOCTL_MAGIC = 0x70"
definition PIM_IOCTL_HELLO :: u32 where "PIM_IOCTL_HELLO = 0x70B0"
definition PIM_IOCTL_ALLOCATE_DATA :: u32 where "PIM_IOCTL_ALLOCATE_DATA = 0x400470B1"
definition PIM_IOCTL_RELEASE_ALL_DATA :: u32 where "PIM_IOCTL_RELEASE_ALL_DATA = 0x70B2"
definition PIM_IOCTL_REPORT_STATS :: u32 where "PIM_IOCTL_REPORT_STATS = 0x70B3"
definition IOCTL_MAX_ARGS :: u32 where "IOCTL_MAX_ARGS = 8"

text \<open>\<open>k\<close> ranges from range \<open>i\<close> on; the result of pinning a range is not looked at.\<close>

fun pin_ranges :: "kernel \<Rightarrow> (nat \<Rightarrow> u32 option) \<Rightarrow> nat \<Rightarrow> nat \<Rightarrow> drv \<Rightarrow> drv option" where
  "pin_ranges K arg i 0 s = Some s"
| "pin_ranges K arg i (Suc k) s =
     do { a \<leftarrow> arg (2 * i + 1);
          n \<leftarrow> arg (2 * i + 2);
          pin_ranges K arg (i + 1) k (snd (pim_get_user_pages K a n s)) }"

text \<open>The array on the stack after \<open>n\<close> words were copied to it.\<close>

definition ioctl_arg :: "(nat \<Rightarrow> u32 option) \<Rightarrow> u32 \<Rightarrow> nat \<Rightarrow> nat \<Rightarrow> u32 option" where
  "ioctl_arg user w0 n i = (if i = 0 \<and> n = 0 then Some w0 else if i < n then user i else None)"

definition ioctl_allocate_data :: "kernel \<Rightarrow> nat \<Rightarrow> (nat \<Rightarrow> u32 option) \<Rightarrow> drv \<Rightarrow> ((errno + int) \<times> drv) option" where
  "ioctl_allocate_data K minor user s =
     (let s1 = s\<lparr>ioctl_allocate := ioctl_allocate s + 1\<rparr>
      in case user 0 of
           None \<Rightarrow> Some (Inl EFAULT, s1)
         | Some w0 \<Rightarrow>
             if w0 + 1 > IOCTL_MAX_ARGS then Some (Inl EFAULT, s1)
             else let n = unat (w0 + 1); arg = ioctl_arg user w0 n
                  in if \<exists>i \<in> set [0..<n]. user i = None then Some (Inl EFAULT, s1)
                     else do { s2 \<leftarrow> pin_ranges K arg 0 (unat (w0 div 2)) s1;
                               a \<leftarrow> arg 1;
                               (_, s3) \<leftarrow> pim_create_slice_table K minor a s2;
                               Some (Inr 1, s3) })"

text \<open>The list of pages is freed inside the loop over it.\<close>

fun release_pages :: "nat \<Rightarrow> drv \<Rightarrow> drv option" where
  "release_pages 0 s = Some s"
| "release_pages (Suc k) s = (if list_live s then release_pages k (s\<lparr>list_live := False\<rparr>) else None)"

definition pim_ioctl :: "kernel \<Rightarrow> nat \<Rightarrow> u32 \<Rightarrow> u32 \<Rightarrow> drv \<Rightarrow> ((errno + int) \<times> drv) option" where
  "pim_ioctl K minor cmd arg s =
     (if IOC_TYPE cmd \<noteq> PIM_IOCTL_MAGIC then Some (Inl ENOTTY, s)
      else if IOC_NR cmd < 0xB0 \<or> IOC_NR cmd > 0xB3 then Some (Inl ENOTTY, s)
      else if IOC_DIR cmd \<noteq> 0 \<and> \<not> access_ok K arg cmd then Some (Inl EFAULT, s)
      else if cmd = PIM_IOCTL_HELLO then Some (Inr 1, s)
      else if cmd = PIM_IOCTL_ALLOCATE_DATA then ioctl_allocate_data K minor (user_word K arg) s
      else if cmd = PIM_IOCTL_RELEASE_ALL_DATA then do { s1 \<leftarrow> release_pages (pages_count s) s; Some (Inr 1, s1) }
      else if cmd = PIM_IOCTL_REPORT_STATS then Some (Inr 1, s)
      else Some (Inl ENOTTY, s))"

definition pim_mmap :: "u32 \<Rightarrow> nat \<Rightarrow> u32 \<Rightarrow> u32 \<Rightarrow> u32 \<Rightarrow> bool \<Rightarrow> errno + unit" where
  "pim_mmap phy_size sh pgoff vm_start vm_end remap_fails =
     (if vm_end - vm_start > phy_size - push_bit sh pgoff then Inl EINVAL else if remap_fails then Inl EAGAIN else Inr ())"

text \<open>\<open>kfree\<close> of memory already freed is an error; of a null pointer it is not.\<close>

definition pim_release :: "drv \<Rightarrow> drv option" where
  "pim_release s =
     (if physical_addr s \<noteq> [] \<and> \<not> phys_live s \<or> pages_list s \<noteq> [] \<and> \<not> list_live s then None
      else Some (s\<lparr>phys_live := False, list_live := False\<rparr>))"

subsection \<open>The slice table\<close>

text \<open>Page \<open>j\<close> belongs to a run of \<open>c\<close> contiguous pages from page \<open>b\<close> on, which its entry describes.\<close>

definition slice_of :: "u32 \<Rightarrow> u32 \<Rightarrow> nat \<Rightarrow> u32 list \<Rightarrow> slice \<Rightarrow> nat \<Rightarrow> bool" where
  "slice_of ps vstart i pa e j \<longleftrightarrow> (\<exists>b c. b \<le> j \<and> j < b + c \<and> b + c \<le> length pa \<and>
     e = \<lparr>sl_vaddr = vstart + ps * of_nat (i + b), sl_paddr = pa ! b, sl_size = ps * of_nat c\<rparr> \<and>
     (\<forall>l<c. pa ! (b + l) = pa ! b + ps * of_nat l))"

lemma run_len_Some:
  "run_len ps prev xs = Some c \<Longrightarrow> 0 < c \<and> c \<le> length xs \<and> (\<forall>l<c. (prev # xs) ! l = prev + ps * of_nat l)"
proof (induction xs arbitrary: prev c)
  case (Cons x xs)
  show ?case
  proof (cases "prev + ps = x")
    case True
    then obtain d where d: "run_len ps x xs = Some d" "c = Suc d" using Cons.prems by auto
    have "(prev # x # xs) ! l = prev + ps * of_nat l" if "l < c" for l
      using Cons.IH [OF d(1)] that d(2) True by (cases l) (auto simp: algebra_simps)
    then show ?thesis using Cons.IH [OF d(1)] d(2) by auto
  qed (use Cons.prems in auto)
qed simp

lemma run_len_None: "run_len ps prev xs = None \<longleftrightarrow> (\<forall>l<length xs. (prev # xs) ! l + ps = xs ! l)"
proof (induction xs arbitrary: prev)
  case (Cons x xs)
  have "(\<forall>l<length (x # xs). (prev # x # xs) ! l + ps = (x # xs) ! l) \<longleftrightarrow> prev + ps = x \<and> (\<forall>l<length xs. (x # xs) ! l + ps = xs ! l)"
    by (auto simp: less_Suc_eq_0_disj)
  then show ?case using Cons.IH [of x] by auto
qed simp

lemma slice_loop_correct:
  "slice_loop mrg ps vstart i pa = Some (tab, n) \<Longrightarrow>
    length tab = length pa \<and> n \<le> length pa \<and> (\<forall>j<length pa. slice_of ps vstart i pa (tab ! j) j)"
proof (induction mrg ps vstart i pa arbitrary: tab n rule: slice_loop.induct)
  case (2 mrg ps vstart i x xs)
  then obtain c tab' n' where c: "(if mrg \<and> xs \<noteq> [] then run_len ps x xs else Some 1) = Some c"
    and r: "slice_loop mrg ps vstart (i + c) (drop (c - 1) xs) = Some (tab', n')"
    and tab: "tab = replicate c \<lparr>sl_vaddr = vstart + ps * of_nat i, sl_paddr = x, sl_size = ps * of_nat c\<rparr> @ tab'" "n = n' + 1"
    by (auto split: bind_splits)
  have run: "0 < c" "c \<le> length (x # xs)" "\<forall>l<c. (x # xs) ! l = x + ps * of_nat l"
    using c run_len_Some [of ps x xs c] by (auto split: if_splits)
  note IH = "2.IH" [OF c r]
  have len: "length (drop (c - 1) xs) = length (x # xs) - c" using run by simp
  have dr: "drop (c - 1) xs = drop c (x # xs)" using run(1) by (cases c) auto
  have "slice_of ps vstart i (x # xs) (tab ! j) j" if j: "j < length (x # xs)" for j
  proof (cases "j < c")
    case True
    then show ?thesis unfolding slice_of_def
      by (intro exI [of _ 0] exI [of _ c]) (use run tab(1) in \<open>simp add: nth_append\<close>)
  next
    case False
    then have "j - c < length (drop (c - 1) xs)" using j len by simp
    then have "slice_of ps vstart (i + c) (drop (c - 1) xs) (tab' ! (j - c)) (j - c)" using IH by blast
    then obtain b d where bd: "b \<le> j - c" "j - c < b + d" "b + d \<le> length (drop (c - 1) xs)"
      "tab' ! (j - c) = \<lparr>sl_vaddr = vstart + ps * of_nat (i + c + b), sl_paddr = drop (c - 1) xs ! b, sl_size = ps * of_nat d\<rparr>"
      "\<forall>l<d. drop (c - 1) xs ! (b + l) = drop (c - 1) xs ! b + ps * of_nat l"
      unfolding slice_of_def by blast
    have nth: "drop (c - 1) xs ! l = (x # xs) ! (c + l)" for l unfolding dr using run(2) by (rule nth_drop)
    show ?thesis unfolding slice_of_def
    proof (intro exI conjI)
      show "c + b \<le> j" "j < c + b + d" "c + b + d \<le> length (x # xs)" using bd(1-3) False len run(2) by simp_all
      show "tab ! j = \<lparr>sl_vaddr = vstart + ps * of_nat (i + (c + b)), sl_paddr = (x # xs) ! (c + b), sl_size = ps * of_nat d\<rparr>"
        using bd(4) tab(1) False nth [of b] by (simp add: nth_append add.assoc)
      show "\<forall>l<d. (x # xs) ! (c + b + l) = (x # xs) ! (c + b) + ps * of_nat l" using bd(5) unfolding nth by (simp add: add.assoc)
    qed
  qed
  then show ?case using IH len run tab by auto
qed simp

text \<open>The loop reads outside the array exactly when the last two pages are contiguous.\<close>

definition tail_run :: "bool \<Rightarrow> u32 \<Rightarrow> u32 list \<Rightarrow> bool" where
  "tail_run mrg ps pa \<longleftrightarrow> mrg \<and> 2 \<le> length pa \<and> pa ! (length pa - 2) + ps = pa ! (length pa - 1)"

lemma run_len_tail:
  assumes "run_len ps x xs = None" and "xs \<noteq> []"
  shows "tail_run True ps (x # xs)"
proof -
  have "(x # xs) ! (length xs - 1) + ps = xs ! (length xs - 1)" using assms run_len_None [of ps x xs] by (simp del: nth_Cons)
  moreover have "xs ! (length xs - 1) = (x # xs) ! length xs" using assms(2) by (cases xs) auto
  ultimately show ?thesis using assms(2) by (cases xs) (auto simp: tail_run_def)
qed

lemma tail_run_drop:
  assumes "0 < c" "c \<le> length xs" and "run_len ps x xs = Some c"
  shows "tail_run True ps (x # xs) \<longleftrightarrow> tail_run True ps (drop (c - 1) xs)"
proof (cases "c = length xs")
  case True
  have d: "drop (c - 1) xs = [last xs]" using assms(1) True by (metis append_butlast_last_id append_eq_conv_conj length_0_conv length_butlast less_irrefl)
  have "\<not> (\<forall>l<length xs. (x # xs) ! l + ps = xs ! l)" using assms(3) run_len_None [of ps x xs] by simp
  moreover have "(x # xs) ! l + ps = xs ! l" if "Suc l < c" for l
  proof -
    have "\<forall>l<c. (x # xs) ! l = x + ps * of_nat l" using run_len_Some [OF assms(3)] by blast
    then have "(x # xs) ! l = x + ps * of_nat l" "(x # xs) ! Suc l = x + ps * of_nat (Suc l)" using that by (blast intro: Suc_lessD)+
    then show ?thesis by (simp add: algebra_simps)
  qed
  ultimately have "(x # xs) ! (c - 1) + ps \<noteq> xs ! (c - 1)" using True by (metis Suc_pred' assms(1) less_antisym not_less_eq)
  then show ?thesis unfolding d using True assms(1) by (auto simp: tail_run_def nth_Cons' split: if_splits)
next
  case False
  have dr: "drop (c - 1) xs = drop c (x # xs)" using assms(1) by (cases c) auto
  have "2 \<le> length (drop c (x # xs))" using False assms(2) by simp
  then show ?thesis unfolding dr tail_run_def using assms by (simp add: nth_drop del: drop_Suc_Cons nth_Cons_Suc)
qed

lemma slice_loop_None: "slice_loop mrg ps vstart i pa = None \<longleftrightarrow> tail_run mrg ps pa"
proof (induction mrg ps vstart i pa rule: slice_loop.induct)
  case (2 mrg ps vstart i x xs)
  show ?case
  proof (cases "mrg \<and> xs \<noteq> []")
    case False
    have "slice_loop mrg ps vstart (i + 1) xs = None \<longleftrightarrow> tail_run mrg ps xs" using "2.IH" [of 1] False by auto
    then show ?thesis using False by (auto simp: tail_run_def split: bind_splits)
  next
    case True
    show ?thesis
    proof (cases "run_len ps x xs")
      case None
      then show ?thesis using True run_len_tail [OF None] by (simp add: tail_run_def)
    next
      case (Some c)
      then have "slice_loop mrg ps vstart (i + c) (drop (c - 1) xs) = None \<longleftrightarrow> tail_run True ps (x # xs)"
        using "2.IH" [of c] True run_len_Some [OF Some] tail_run_drop [of c xs ps x] by simp
      then show ?thesis using True Some by (auto simp: tail_run_def split: bind_splits)
    qed
  qed
qed (simp add: tail_run_def)

lemma flush_range_simps [simp]:
  "flushed (flush_range m a b s) = flushed s @ [(a, b)]" "slicetable (flush_range m a b s) = slicetable s"
  "slicetable_paddr (flush_range m a b s) = slicetable_paddr s" "stat_numslices (flush_range m a b s) = stat_numslices s"
  "physical_addr (flush_range m a b s) = physical_addr s" "pages_count (flush_range m a b s) = pages_count s"
  "r \<noteq> PIM_M5_D1_REG \<Longrightarrow> r \<noteq> PIM_M5_D2_REG \<Longrightarrow> device (flush_range m a b s) m r = device s m r"
  by (simp_all add: flush_range_def write_dev_def Let_def)

lemma fold_flush:
  assumes "r \<noteq> PIM_M5_D1_REG" "r \<noteq> PIM_M5_D2_REG"
  shows "flushed (fold (\<lambda>a. flush_range m a (f a)) as s) = flushed s @ map (\<lambda>a. (a, f a)) as \<and>
    slicetable (fold (\<lambda>a. flush_range m a (f a)) as s) = slicetable s \<and>
    stat_numslices (fold (\<lambda>a. flush_range m a (f a)) as s) = stat_numslices s \<and>
    physical_addr (fold (\<lambda>a. flush_range m a (f a)) as s) = physical_addr s \<and>
    device (fold (\<lambda>a. flush_range m a (f a)) as s) m r = device s m r"
  using assms by (induction as arbitrary: s) auto

lemma cache_flush_simps:
  assumes "r \<noteq> PIM_M5_D1_REG" "r \<noteq> PIM_M5_D2_REG"
  shows "flushed (pim_cache_flush ps m s) = flushed s @ map (\<lambda>a. (a, a + ps - 1)) (physical_addr s) @
      [(slicetable_paddr s, slicetable_paddr s + of_nat (pages_count s * sizeof_Slice) - 1)]"
    and "slicetable (pim_cache_flush ps m s) = slicetable s" and "stat_numslices (pim_cache_flush ps m s) = stat_numslices s"
    and "physical_addr (pim_cache_flush ps m s) = physical_addr s"
    and "device (pim_cache_flush ps m s) m r = device s m r"
  using fold_flush [OF assms, of m "\<lambda>a. a + ps - 1" "physical_addr s" s] assms by (simp_all add: pim_cache_flush_def)

text \<open>What the driver leaves behind for \<open>n\<close> pages at \<open>v\<close> with the physical addresses \<open>pa\<close>.\<close>

definition table_ok :: "kernel \<Rightarrow> nat \<Rightarrow> u32 \<Rightarrow> u32 list \<Rightarrow> u32 \<Rightarrow> drv \<Rightarrow> bool" where
  "table_ok K minor v pa tp s \<longleftrightarrow> length (slicetable s) = length pa \<and> (\<forall>j<length pa. slice_of (page_size K) v 0 pa (slicetable s ! j) j) \<and>
     stat_numslices s \<le> length pa \<and> device s minor PIM_SLICETABLE = tp \<and> device s minor PIM_SLICECOUNT = of_nat (length pa) \<and>
     device s minor PIM_SLICEVSTART = v \<and> set (map (\<lambda>a. (a, a + page_size K - 1)) pa) \<subseteq> set (flushed s) \<and>
     (tp, tp + of_nat (length pa * sizeof_Slice) - 1) \<in> set (flushed s)"

lemma create_slice_table_ok:
  assumes l: "list_live s" "length (pages_list s) = pages_count s" "0 < pages_count s"
    and K: "kmalloc_phys K" "free_pages K = Some tp" and pa: "pa = map (page_to_phys K) (pages_list s)"
    and t: "\<not> tail_run (merge_slices K) (page_size K) pa"
  shows "\<exists>s'. pim_create_slice_table K minor v s = Some (Inr (), s') \<and> table_ok K minor v pa tp s' \<and>
    slice_loop (merge_slices K) (page_size K) v 0 pa = Some (slicetable s', stat_numslices s')"
proof -
  have lp: "length pa = pages_count s" using l(2) pa by simp
  obtain tab n where tn: "slice_loop (merge_slices K) (page_size K) v 0 pa = Some (tab, n)"
    using t slice_loop_None [of "merge_slices K" "page_size K" v 0 pa] by (cases "slice_loop (merge_slices K) (page_size K) v 0 pa") auto
  note c = slice_loop_correct [OF tn]
  then have ne: "tab \<noteq> []" using lp l(3) by auto
  have "slice_of (page_size K) v 0 pa (tab ! 0) 0" using c lp l(3) by simp
  then obtain b d where "b \<le> 0" "tab ! 0 = \<lparr>sl_vaddr = v + page_size K * of_nat (0 + b), sl_paddr = pa ! b, sl_size = page_size K * of_nat d\<rparr>"
    unfolding slice_of_def by blast
  then have hd: "sl_vaddr (hd tab) = v" using ne by (simp add: hd_conv_nth)
  define s2 where "s2 = s\<lparr>physical_addr := pa, phys_live := True, slicetable := tab, slicetable_paddr := tp, stat_numslices := n\<rparr>"
  define s4 where "s4 = write_dev minor PIM_SLICEVSTART v (write_dev minor PIM_SLICECOUNT (of_nat (pages_count s)) (write_dev minor PIM_SLICETABLE tp s2))"
  have r: "pim_create_slice_table K minor v s = Some (Inr (), pim_cache_flush (page_size K) minor s4)"
    using l K tn ne hd by (simp add: pim_create_slice_table_def s4_def s2_def Let_def flip: pa)
  have s4: "slicetable s4 = tab" "stat_numslices s4 = n" "physical_addr s4 = pa" "slicetable_paddr s4 = tp" "pages_count s4 = length pa"
    "device s4 minor PIM_SLICETABLE = tp" "device s4 minor PIM_SLICECOUNT = of_nat (length pa)" "device s4 minor PIM_SLICEVSTART = v"
    by (simp_all add: s4_def s2_def write_dev_def lp)
  have "table_ok K minor v pa tp (pim_cache_flush (page_size K) minor s4)"
    using c unfolding table_ok_def by (auto simp: s4 cache_flush_simps(5) cache_flush_simps(1-4) [of PIM_SLICETABLE])
  moreover have "slicetable (pim_cache_flush (page_size K) minor s4) = tab" "stat_numslices (pim_cache_flush (page_size K) minor s4) = n"
    by (simp_all add: s4 cache_flush_simps(2,3) [of PIM_SLICETABLE])
  ultimately show ?thesis using r tn by auto
qed

text \<open>
  C23. The slice table: the driver builds an entry for every pinned page, which describes a run of pages that is
  contiguous in virtual and in physical memory and holds that page; it hands address, length and start to the device and
  flushes every page and the table itself. With merging of slices enabled and the last two pages
  contiguous in physical memory, the merge loop reads past the end of the array of physical addresses instead.
\<close>

theorem create_slice_table_correct:
  assumes "list_live s" and "length (pages_list s) = pages_count s" and "0 < pages_count s"
    and "kmalloc_phys K" and "free_pages K = Some tp"
  shows "if tail_run (merge_slices K) (page_size K) (map (page_to_phys K) (pages_list s))
    then pim_create_slice_table K minor v s = None
    else \<exists>s'. pim_create_slice_table K minor v s = Some (Inr (), s') \<and> table_ok K minor v (map (page_to_phys K) (pages_list s)) tp s'"
proof (cases "tail_run (merge_slices K) (page_size K) (map (page_to_phys K) (pages_list s))")
  case True
  then have "slice_loop (merge_slices K) (page_size K) v 0 (map (page_to_phys K) (pages_list s)) = None" by (simp add: slice_loop_None)
  then show ?thesis using assms True by (simp add: pim_create_slice_table_def Let_def)
next
  case False
  then show ?thesis using create_slice_table_ok [OF assms refl False] by auto
qed

definition kernel_of :: "(nat \<Rightarrow> u32) \<Rightarrow> (nat \<Rightarrow> u32 option) \<Rightarrow> kernel" where
  "kernel_of phys user = \<lparr>debug_driver = False, merge_slices = True, page_size = 0x1000, kmalloc_list = True, kmalloc_phys = True,
     free_pages = Some 0x80000, get_user_pages = (\<lambda>a n. [0..<unat n]), page_to_phys = phys, access_ok = (\<lambda>_ _. True),
     user_word = (\<lambda>_. user), page_reserved = (\<lambda>_. False)\<rparr>"

definition drv_of :: "nat \<Rightarrow> drv" where
  "drv_of n = \<lparr>pages_list = [0..<n], list_live = True, pages_count = n, physical_addr = [], phys_live = False, slicetable = [],
     slicetable_paddr = 0, stat_numslices = 0, ioctl_allocate = 0, device = (\<lambda>_ _. 0), flushed = []\<rparr>"

theorem create_slice_table_correct_witness:
  "pim_create_slice_table (kernel_of (\<lambda>i. 0x1000 * of_nat i) (\<lambda>_. None)) 0 0x4000 (drv_of 2) = None \<and>
   (\<exists>s'. pim_create_slice_table (kernel_of (\<lambda>i. if i < 2 then 0x5000 + 0x1000 * of_nat i else 0x2000) (\<lambda>_. None)) 0 0x4000 (drv_of 3) = Some (Inr (), s') \<and>
     device s' 0 PIM_SLICECOUNT = 3)"
proof -
  have u: "[0..<2] = [0, 1 :: nat]" "[0..<3] = [0, 1, 2 :: nat]" by (simp_all add: upt_conv_Cons)
  let ?K = "kernel_of (\<lambda>i. if i < 2 then 0x5000 + 0x1000 * of_nat i else 0x2000) (\<lambda>_. None)"
  have "pim_create_slice_table (kernel_of (\<lambda>i. 0x1000 * of_nat i) (\<lambda>_. None)) 0 0x4000 (drv_of 2) = None"
    using create_slice_table_correct [of "drv_of 2" "kernel_of (\<lambda>i. 0x1000 * of_nat i) (\<lambda>_. None)" "0x80000" 0 "0x4000"]
    by (simp add: drv_of_def kernel_of_def tail_run_def u)
  moreover have "\<exists>s'. pim_create_slice_table ?K 0 0x4000 (drv_of 3) = Some (Inr (), s') \<and> table_ok ?K 0 0x4000 [0x5000, 0x6000, 0x2000] 0x80000 s'"
    using create_slice_table_correct [of "drv_of 3" ?K "0x80000" 0 "0x4000"] by (simp add: drv_of_def kernel_of_def tail_run_def u)
  ultimately show ?thesis by (auto simp: table_ok_def)
qed

lemma pin_ranges_None: "arg (2 * i + 1) = None \<Longrightarrow> 0 < k \<Longrightarrow> pin_ranges K arg i k s = None"
  by (cases k) simp_all

lemma ioctl_wrap:
  assumes "user 0 = Some 0xFFFFFFFF"
  shows "ioctl_allocate_data K minor user s = None"
proof -
  have w: "(0xFFFFFFFF :: u32) + 1 = 0" by simp
  have "0 < unat (0xFFFFFFFF div 2 :: u32)" by (simp add: unat_div)
  then have "pin_ranges K (ioctl_arg user 0xFFFFFFFF 0) 0 (unat (0xFFFFFFFF div 2 :: u32)) t = None" for t
    by (intro pin_ranges_None) (simp_all add: ioctl_arg_def)
  then show ?thesis unfolding ioctl_allocate_data_def assms w Let_def option.case unsigned_0 by (simp only: IOCTL_MAX_ARGS_def) simp
qed

lemmas ioctl_cmds = PIM_IOCTL_ALLOCATE_DATA_def PIM_IOCTL_RELEASE_ALL_DATA_def PIM_IOCTL_MAGIC_def PIM_IOCTL_HELLO_def IOC_TYPE_def IOC_NR_def IOC_DIR_def

text \<open>
  C24. Errors the driver does not catch. A length of \<open>ULONG_MAX\<close> in the first argument word wraps around in the check and
  the ranges are then read from stack memory that was never written. \<open>PIM_IOCTL_RELEASE_ALL_DATA\<close> frees the list of pages in the
  loop over it: with two pages or more it reads the freed list, and with one page closing the device frees the list again.
\<close>

theorem ioctl_unchecked_errors:
  "(access_ok K arg PIM_IOCTL_ALLOCATE_DATA \<and> user_word K arg 0 = Some 0xFFFFFFFF \<longrightarrow> pim_ioctl K minor PIM_IOCTL_ALLOCATE_DATA arg s = None) \<and>
   (2 \<le> pages_count s \<longrightarrow> pim_ioctl K minor PIM_IOCTL_RELEASE_ALL_DATA arg s = None) \<and>
   (pages_count s = 1 \<and> list_live s \<and> pages_list s \<noteq> [] \<longrightarrow>
     (\<exists>s'. pim_ioctl K minor PIM_IOCTL_RELEASE_ALL_DATA arg s = Some (Inr 1, s') \<and> pim_release s' = None))"
proof (intro conjI impI)
  assume a: "access_ok K arg PIM_IOCTL_ALLOCATE_DATA \<and> user_word K arg 0 = Some 0xFFFFFFFF"
  then have "ioctl_allocate_data K minor (user_word K arg) s = None" by (intro ioctl_wrap) simp
  then show "pim_ioctl K minor PIM_IOCTL_ALLOCATE_DATA arg s = None"
    using a by (simp add: pim_ioctl_def ioctl_cmds)
next
  assume "2 \<le> pages_count s"
  then obtain k where "pages_count s = 2 + k" using le_Suc_ex by blast
  then have "release_pages (pages_count s) s = None" by simp
  then show "pim_ioctl K minor PIM_IOCTL_RELEASE_ALL_DATA arg s = None"
    by (simp add: pim_ioctl_def ioctl_cmds)
next
  assume "pages_count s = 1 \<and> list_live s \<and> pages_list s \<noteq> []"
  then show "\<exists>s'. pim_ioctl K minor PIM_IOCTL_RELEASE_ALL_DATA arg s = Some (Inr 1, s') \<and> pim_release s' = None"
    by (simp add: pim_ioctl_def pim_release_def ioctl_cmds)
qed

theorem ioctl_unchecked_errors_witness:
  "pim_ioctl (kernel_of (\<lambda>_. 0) (\<lambda>_. Some 0xFFFFFFFF)) 0 PIM_IOCTL_ALLOCATE_DATA 0x1000 (drv_of 1) = None \<and>
   pim_ioctl (kernel_of (\<lambda>_. 0) (\<lambda>_. None)) 0 PIM_IOCTL_RELEASE_ALL_DATA 0 (drv_of 2) = None \<and>
   (\<exists>s'. pim_ioctl (kernel_of (\<lambda>_. 0) (\<lambda>_. None)) 0 PIM_IOCTL_RELEASE_ALL_DATA 0 (drv_of 1) = Some (Inr 1, s') \<and> pim_release s' = None)"
  using ioctl_unchecked_errors [of "kernel_of (\<lambda>_. 0) (\<lambda>_. Some 0xFFFFFFFF)" "0x1000" 0 "drv_of 1"]
    ioctl_unchecked_errors [of "kernel_of (\<lambda>_. 0) (\<lambda>_. None)" 0 0 "drv_of 2"] ioctl_unchecked_errors [of "kernel_of (\<lambda>_. 0) (\<lambda>_. None)" 0 0 "drv_of 1"]
  by (simp add: drv_of_def kernel_of_def)

text \<open>The call of \<open>PIMAPI::offload_task\<close> for one range of pages.\<close>

lemma ioctl_allocate_one_range:
  assumes "access_ok K arg PIM_IOCTL_ALLOCATE_DATA" "user_word K arg 0 = Some 2" "user_word K arg 1 = Some v" "user_word K arg 2 = Some n"
    and "kmalloc_list K" "kmalloc_phys K" "free_pages K = Some tp" "length (get_user_pages K v n) = unat n" "0 < n"
    and "\<not> tail_run (merge_slices K) (page_size K) (map (page_to_phys K) (get_user_pages K v n))"
  shows "\<exists>s'. pim_ioctl K minor PIM_IOCTL_ALLOCATE_DATA arg s = Some (Inr 1, s') \<and>
    table_ok K minor v (map (page_to_phys K) (get_user_pages K v n)) tp s' \<and>
    slice_loop (merge_slices K) (page_size K) v 0 (map (page_to_phys K) (get_user_pages K v n)) = Some (slicetable s', stat_numslices s')"
proof -
  define s1 where "s1 = s\<lparr>ioctl_allocate := ioctl_allocate s + 1\<rparr>"
  define s2 where "s2 = s1\<lparr>pages_list := get_user_pages K v n, list_live := True, pages_count := unat n\<rparr>"
  have "\<exists>s'. pim_create_slice_table K minor v s2 = Some (Inr (), s') \<and> table_ok K minor v (map (page_to_phys K) (get_user_pages K v n)) tp s' \<and>
      slice_loop (merge_slices K) (page_size K) v 0 (map (page_to_phys K) (get_user_pages K v n)) = Some (slicetable s', stat_numslices s')"
    by (rule create_slice_table_ok) (use assms in \<open>simp_all add: s2_def word_less_nat_alt\<close>)
  then obtain s' where s': "pim_create_slice_table K minor v s2 = Some (Inr (), s')" "table_ok K minor v (map (page_to_phys K) (get_user_pages K v n)) tp s'"
    "slice_loop (merge_slices K) (page_size K) v 0 (map (page_to_phys K) (get_user_pages K v n)) = Some (slicetable s', stat_numslices s')" by blast
  have g: "pim_get_user_pages K v n s1 = (Inr (), s2)" using assms(5,8) by (simp add: pim_get_user_pages_def s2_def Let_def)
  have "[0..<3] = [0, 1, 2 :: nat]" by (simp add: upt_conv_Cons)
  then have e: "\<not> (\<exists>i \<in> set [0..<3]. user_word K arg i = None)" using assms(2,3,4) by (simp only: list.set) simp
  let ?arg = "ioctl_arg (user_word K arg) 2 3"
  have a: "?arg 1 = Some v" "?arg (2 * 0 + 1) = Some v" "?arg (2 * 0 + 2) = Some n" using assms(3,4) by (simp_all add: ioctl_arg_def flip: numeral_2_eq_2)
  have "pin_ranges K ?arg 0 (Suc 0) s1 = Some s2" unfolding pin_ranges.simps a using g by simp
  then have "ioctl_allocate_data K minor (user_word K arg) s = Some (Inr 1, s')"
    using assms(2) e s'(1) a(1) by (simp add: ioctl_allocate_data_def IOCTL_MAX_ARGS_def Let_def s1_def del: pin_ranges.simps)
  then show ?thesis using assms(1) s'(2,3)
    by (simp add: pim_ioctl_def ioctl_cmds)
qed

end
