(* ===== verification/Addr_Range.thy ===== *)
theory Addr_Range
  imports SMC_Prelude
begin

text \<open>
  Address ranges of the simulator (\<open>base/addr_range.hh\<close>): an interval of 64-bit addresses, optionally interleaved, that is
  restricted to the addresses with a given value in a field of bits. \<open>None\<close> is \<open>panic\<close> or \<open>fatal\<close>.
\<close>

type_synonym u64 = "64 word"

record addr_range =
  r_start :: u64
  r_end :: u64
  intlvHighBit :: nat
  intlvBits :: nat
  intlvMatch :: nat

definition AddrRange :: "u64 \<Rightarrow> u64 \<Rightarrow> addr_range" where
  "AddrRange s e = \<lparr>r_start = s, r_end = e, intlvHighBit = 0, intlvBits = 0, intlvMatch = 0\<rparr>"

definition AddrRange_intlv :: "u64 \<Rightarrow> u64 \<Rightarrow> nat \<Rightarrow> nat \<Rightarrow> nat \<Rightarrow> addr_range" where
  "AddrRange_intlv s e hi bs mtch = \<lparr>r_start = s, r_end = e, intlvHighBit = hi, intlvBits = bs, intlvMatch = mtch\<rparr>"

definition bits_at :: "u64 \<Rightarrow> nat \<Rightarrow> nat \<Rightarrow> u64" where
  "bits_at v fst_bit last_bit = take_bit (fst_bit - last_bit + 1) (drop_bit last_bit v)"

definition interleaved :: "addr_range \<Rightarrow> bool" where
  "interleaved r \<longleftrightarrow> intlvBits r \<noteq> 0"

definition granularity :: "addr_range \<Rightarrow> u64" where
  "granularity r = push_bit (intlvHighBit r + 1 - intlvBits r) 1"

definition stripes :: "addr_range \<Rightarrow> u64" where
  "stripes r = push_bit (intlvBits r) 1"

definition range_size :: "addr_range \<Rightarrow> u64" where
  "range_size r = drop_bit (intlvBits r) (r_end r - r_start r + 1)"

definition valid :: "addr_range \<Rightarrow> bool" where
  "valid r \<longleftrightarrow> r_start r \<le> r_end r"

definition mergesWith :: "addr_range \<Rightarrow> addr_range \<Rightarrow> bool" where
  "mergesWith r q \<longleftrightarrow> r_start q = r_start r \<and> r_end q = r_end r \<and> intlvHighBit q = intlvHighBit r \<and> intlvBits q = intlvBits r"

definition contains :: "addr_range \<Rightarrow> u64 \<Rightarrow> bool" where
  "contains r a \<longleftrightarrow> r_start r \<le> a \<and> a \<le> r_end r \<and>
     (\<not> interleaved r \<or> unat (bits_at a (intlvHighBit r) (intlvHighBit r + 1 - intlvBits r)) = intlvMatch r)"

definition intersects :: "addr_range \<Rightarrow> addr_range \<Rightarrow> bool option" where
  "intersects r q =
     (if \<not> interleaved r then Some (r_start r \<le> r_end q \<and> r_start q \<le> r_end r)
      else if range_size q = 1 then Some (contains r (r_start q))
      else if \<not> interleaved q then Some (r_start r \<le> r_end q \<and> r_start q \<le> r_end r)
      else if mergesWith r q then Some (intlvMatch r = intlvMatch q)
      else None)"

definition isSubset :: "addr_range \<Rightarrow> addr_range \<Rightarrow> bool option" where
  "isSubset r q = (if interleaved r then None else Some (r_start q \<le> r_start r \<and> r_end r \<le> r_end q))"

text \<open>The constructor that merges interleaved ranges; the running match value is an 8-bit number.\<close>

fun match_ok :: "addr_range \<Rightarrow> nat \<Rightarrow> addr_range list \<Rightarrow> bool" where
  "match_ok r mtch [] \<longleftrightarrow> True"
| "match_ok r mtch (q # qs) \<longleftrightarrow> mergesWith r q \<and> intlvMatch q = mtch \<and> match_ok r ((mtch + 1) mod 256) qs"

definition merge_ranges :: "addr_range list \<Rightarrow> addr_range option" where
  "merge_ranges rs =
     (case rs of
        [] \<Rightarrow> Some (AddrRange 1 0)
      | q # _ \<Rightarrow> if length rs \<noteq> 2 ^ intlvBits q \<or> \<not> match_ok q 0 rs then None else Some (AddrRange (r_start q) (r_end q)))"

definition RangeEx :: "u64 \<Rightarrow> u64 \<Rightarrow> addr_range" where "RangeEx s e = AddrRange s (e - 1)"
definition RangeIn :: "u64 \<Rightarrow> u64 \<Rightarrow> addr_range" where "RangeIn s e = AddrRange s e"
definition RangeSize :: "u64 \<Rightarrow> u64 \<Rightarrow> addr_range" where "RangeSize s n = AddrRange s (s + n - 1)"

lemma AddrRange_simps [simp]:
  "r_start (AddrRange s e) = s" "r_end (AddrRange s e) = e" "\<not> interleaved (AddrRange s e)"
  "contains (AddrRange s e) a \<longleftrightarrow> s \<le> a \<and> a \<le> e" "range_size (AddrRange s e) = e - s + 1"
  by (simp_all add: AddrRange_def contains_def interleaved_def range_size_def)

lemma AddrRange_intlv_simps [simp]:
  "r_start (AddrRange_intlv s e hi bs i) = s" "r_end (AddrRange_intlv s e hi bs i) = e" "intlvBits (AddrRange_intlv s e hi bs i) = bs"
  "intlvMatch (AddrRange_intlv s e hi bs i) = i" "mergesWith (AddrRange_intlv s e hi bs i) (AddrRange_intlv s e hi bs j)"
  by (simp_all add: AddrRange_intlv_def mergesWith_def)

lemma match_ok_all:
  assumes "n \<le> 256"
  shows "i \<le> n \<Longrightarrow> match_ok (AddrRange_intlv s e hi bs k) (i mod 256) (map (AddrRange_intlv s e hi bs) [i..<n])"
proof (induction "n - i" arbitrary: i)
  case (Suc d)
  then have i: "i < n" "d = n - Suc i" by auto
  have "match_ok (AddrRange_intlv s e hi bs k) (Suc i mod 256) (map (AddrRange_intlv s e hi bs) [Suc i..<n])" using Suc.hyps(1) [OF i(2)] i(1) by simp
  moreover have "[i..<n] = i # [Suc i..<n]" using i(1) by (rule upt_conv_Cons)
  ultimately show ?case using i(1) assms by (simp add: mod_Suc_eq)
qed simp

lemma unat_bits_less: "hi < 64 \<Longrightarrow> lo \<le> hi \<Longrightarrow> unat (bits_at a hi lo) < 2 ^ (hi - lo + 1)"
proof -
  assume h: "hi < 64" "lo \<le> hi"
  have "unat (bits_at a hi lo) = take_bit (hi - lo + 1) (unat (drop_bit lo a))"
    using h by (simp add: bits_at_def unsigned_take_bit_eq)
  also have "\<dots> < 2 ^ (hi - lo + 1)" by (rule take_bit_nat_less_exp)
  finally show ?thesis .
qed



end
