(* ===== verification/PIM_TLB.thy ===== *)
theory PIM_TLB
  imports Addr_Range PIM_Driver
begin

text \<open>
  The TLB of the PIM device (\<open>mem/ethz_tlb.cc\<close>) for the 32-bit PIM: rules that map virtual to physical ranges, the first of them fixed, the
  others refilled from the slice table and replaced in least-recently-used order. The memory behind the
  master port is an argument \<open>mem\<close> that gives the word at a physical address; \<open>now\<close> is the current tick and \<open>ok\<close> says whether the master port accepts
  a packet. \<open>None\<close> is a panic, a failed assertion or an access outside a vector.
\<close>

record tlb =
  originalRanges :: "addr_range list"
  remappedRanges :: "addr_range list"
  lastUsed :: "u64 list"
  pending_refills :: "u64 list"
  slicetable_ptr :: u64
  slicecount :: u64
  slicevstart :: u64
  hmc_operand :: u64
  TLBAccess :: nat
  TLBDynamicAccess :: nat
  TLBMiss :: nat

record tlb_params =
  TLB_SIZE :: nat
  OS_PAGE_SHIFT :: nat
  IDEAL_REFILL :: bool
  PIM_DTLB_IDEAL_REFILL_REG :: u64
  HMC_ATOMIC_INCR :: u64
  HMC_ATOMIC_IMIN :: u64
  HMC_ATOMIC_FADD :: u64
  HMC_OPERAND :: u64

definition RangeAddrMapper :: "addr_range list \<Rightarrow> addr_range list \<Rightarrow> (addr_range list \<times> addr_range list) option" where
  "RangeAddrMapper orig remapped =
     (if length orig \<noteq> length remapped then None
      else if map range_size orig \<noteq> map range_size remapped then None else Some (orig, remapped))"

text \<open>The TLB starts with a single entry in \<open>lastUsed\<close>.\<close>

definition ethz_TLB :: "addr_range list \<Rightarrow> addr_range list \<Rightarrow> u64 \<Rightarrow> tlb option" where
  "ethz_TLB original remapped vstart =
     do { (orig, rem) \<leftarrow> RangeAddrMapper original remapped;
          Some \<lparr>originalRanges = orig, remappedRanges = rem, lastUsed = [- 1], pending_refills = [], slicetable_ptr = 0, slicecount = 0,
            slicevstart = vstart, hmc_operand = 0, TLBAccess = 0, TLBDynamicAccess = 0, TLBMiss = 0\<rparr> }"

fun find_range :: "addr_range list \<Rightarrow> u64 \<Rightarrow> nat option" where
  "find_range [] a = None"
| "find_range (r # rs) a = (if contains r a then Some 0 else map_option Suc (find_range rs a))"

definition apply_rule :: "tlb \<Rightarrow> nat \<Rightarrow> u64 \<Rightarrow> u64" where
  "apply_rule t i a = (a - r_start (originalRanges t ! i)) + r_start (remappedRanges t ! i)"

definition remap_check :: "u64 \<Rightarrow> tlb \<Rightarrow> u64" where
  "remap_check a t = (case find_range (originalRanges t) a of Some i \<Rightarrow> apply_rule t i a | None \<Rightarrow> - 1)"

definition slice_vend :: "u64 \<Rightarrow> tlb \<Rightarrow> u64 option" where
  "slice_vend a t = map_option (\<lambda>i. r_start (originalRanges t ! i) + range_size (originalRanges t ! i) - 1) (find_range (originalRanges t) a)"

definition slice_vstart :: "u64 \<Rightarrow> tlb \<Rightarrow> u64 option" where
  "slice_vstart a t = map_option (\<lambda>i. r_start (originalRanges t ! i)) (find_range (originalRanges t) a)"

definition remap :: "u64 \<Rightarrow> u64 \<Rightarrow> tlb \<Rightarrow> (u64 \<times> tlb) option" where
  "remap now a t =
     (let t1 = t\<lparr>TLBAccess := TLBAccess t + 1\<rparr>
      in case find_range (originalRanges t) a of
           Some i \<Rightarrow>
             if 0 < i then
               (if i < length (lastUsed t)
                then Some (apply_rule t i a, t1\<lparr>lastUsed := (lastUsed t)[i := now], TLBDynamicAccess := TLBDynamicAccess t + 1\<rparr>) else None)
             else Some (apply_rule t i a, t1)
         | None \<Rightarrow> if slicetable_ptr t \<noteq> 0 then Some (- 1, t1\<lparr>TLBMiss := TLBMiss t + 1\<rparr>) else None)"

subsection \<open>Refill\<close>

definition pending_refill :: "u64 \<Rightarrow> tlb \<Rightarrow> bool" where
  "pending_refill a t \<longleftrightarrow> a \<in> set (pending_refills t)"

definition remove_pending_refill :: "u64 \<Rightarrow> tlb \<Rightarrow> tlb option" where
  "remove_pending_refill a t = (if pending_refill a t then Some (t\<lparr>pending_refills := remove1 a (pending_refills t)\<rparr>) else None)"

text \<open>The rule used least recently, the first one excepted.\<close>

fun lru_index :: "u64 list \<Rightarrow> nat \<Rightarrow> u64 \<Rightarrow> nat \<Rightarrow> nat" where
  "lru_index [] i mn mi = mi"
| "lru_index (u # us) i mn mi = (if mn > u then lru_index us (i + 1) u i else lru_index us (i + 1) mn mi)"

definition erase :: "nat \<Rightarrow> 'a list \<Rightarrow> 'a list" where
  "erase i xs = take i xs @ drop (i + 1) xs"

definition evict_lru :: "nat \<Rightarrow> tlb \<Rightarrow> tlb option" where
  "evict_lru n t =
     (if n \<le> length (originalRanges t) then
        (if length (lastUsed t) < 2 then None
         else let mi = lru_index (drop 1 (lastUsed t)) 1 (lastUsed t ! 1) 1
              in if mi < length (originalRanges t) \<and> mi < length (remappedRanges t)
                 then Some (t\<lparr>lastUsed := erase mi (lastUsed t), originalRanges := erase mi (originalRanges t),
                              remappedRanges := erase mi (remappedRanges t)\<rparr>)
                 else None)
      else Some t)"

definition updateTLB :: "tlb_params \<Rightarrow> u64 \<Rightarrow> u64 \<Rightarrow> u64 \<Rightarrow> u64 \<Rightarrow> tlb \<Rightarrow> tlb option" where
  "updateTLB P now v p n t =
     do { t1 \<leftarrow> evict_lru (TLB_SIZE P) t;
          Some (t1\<lparr>originalRanges := originalRanges t1 @ [AddrRange v (v + n - 1)], remappedRanges := remappedRanges t1 @ [AddrRange p (p + n - 1)],
                   lastUsed := lastUsed t1 @ [now]\<rparr>) }"

definition rule_addr :: "tlb_params \<Rightarrow> u64 \<Rightarrow> tlb \<Rightarrow> u64" where
  "rule_addr P a t = slicetable_ptr t + drop_bit (OS_PAGE_SHIFT P) (a - slicevstart t) * 12"

definition refillTLB_atomic :: "tlb_params \<Rightarrow> u64 \<Rightarrow> (u64 \<Rightarrow> u32) \<Rightarrow> u64 \<Rightarrow> tlb \<Rightarrow> tlb option" where
  "refillTLB_atomic P now mem a t =
     (if a < slicevstart t \<or> pending_refill (rule_addr P a t) t then None
      else let q = rule_addr P a t in updateTLB P now (ucast (mem q)) (ucast (mem (q + 4))) (ucast (mem (q + 8))) t)"

text \<open>The refill on behalf of software and of the DMA reads the table by a functional access.\<close>

definition refillTLB_functional :: "tlb_params \<Rightarrow> u64 \<Rightarrow> (u64 \<Rightarrow> u32) \<Rightarrow> u64 \<Rightarrow> tlb \<Rightarrow> tlb option" where
  "refillTLB_functional P now mem a t =
     (if a < slicevstart t \<or> pending_refill (rule_addr P a t) t then None
      else let q = rule_addr P a t in updateTLB P now (ucast (mem q)) (ucast (mem (q + 4))) (ucast (mem (q + 8))) t)"

lemma refill_functional_atomic: "refillTLB_functional = refillTLB_atomic"
  by (simp add: fun_eq_iff refillTLB_functional_def refillTLB_atomic_def)

definition refillTLB_timing :: "tlb_params \<Rightarrow> bool \<Rightarrow> u64 \<Rightarrow> tlb \<Rightarrow> (bool \<times> tlb) option" where
  "refillTLB_timing P ok a t =
     (if a < slicevstart t then None
      else if pending_refill (rule_addr P a t) t then Some (True, t)
      else if ok then Some (True, t\<lparr>pending_refills := pending_refills t @ [rule_addr P a t]\<rparr>)
      else Some (False, t))"

subsection \<open>Packets\<close>

datatype hmc_cmd = HMC_CMD_INC | HMC_CMD_FADD u64 | HMC_CMD_MIN u64

record packet =
  pkt_addr :: u64
  is_write :: bool
  pkt_data :: u32
  pkt_hmc :: "hmc_cmd option"
  is_remapped :: bool

text \<open>The target and the command of an atomic operation, target \<open>0\<close> when the packet is not one.\<close>

definition check_hmc_command :: "tlb_params \<Rightarrow> packet \<Rightarrow> tlb \<Rightarrow> u64 \<times> hmc_cmd option \<times> tlb" where
  "check_hmc_command P pkt t =
     (let a = pkt_addr pkt; d = ucast (pkt_data pkt) :: u64;
          cmd = (if a = HMC_ATOMIC_INCR P \<and> is_write pkt then Some HMC_CMD_INC
                 else if a = HMC_ATOMIC_FADD P \<and> is_write pkt then Some (HMC_CMD_FADD (hmc_operand t))
                 else if a = HMC_ATOMIC_IMIN P \<and> is_write pkt then Some (HMC_CMD_MIN (hmc_operand t))
                 else None)
      in if a = 0 then (0, None, t)
         else if cmd \<noteq> None \<and> d = 0 then (0, None, t)
         else (if cmd = None then 0 else d, cmd, if a = HMC_OPERAND P \<and> is_write pkt then t\<lparr>hmc_operand := d\<rparr> else t))"

definition with_cmd :: "hmc_cmd option \<Rightarrow> packet \<Rightarrow> packet" where
  "with_cmd cmd pkt = (case cmd of None \<Rightarrow> pkt | Some c \<Rightarrow> pkt\<lparr>pkt_hmc := Some c\<rparr>)"

text \<open>What becomes of a packet: answered by the TLB, refused to be sent again as it is then, or sent to an address, possibly as an atomic operation.\<close>

datatype outcome = Answered | Refused packet | Sent u64 "hmc_cmd option"

definition refill_request :: "tlb_params \<Rightarrow> u64 \<Rightarrow> (u64 \<Rightarrow> u32) \<Rightarrow> packet \<Rightarrow> tlb \<Rightarrow> (outcome \<times> tlb) option" where
  "refill_request P now mem pkt t =
     (let a = ucast (pkt_data pkt)
      in if \<not> is_write pkt then None
         else if a \<noteq> 0 \<and> remap_check a t = - 1 then do { t1 \<leftarrow> refillTLB_functional P now mem a t; Some (Answered, t1) }
         else Some (Answered, t))"

definition recvAtomic :: "tlb_params \<Rightarrow> u64 \<Rightarrow> (u64 \<Rightarrow> u32) \<Rightarrow> packet \<Rightarrow> tlb \<Rightarrow> (outcome \<times> tlb) option" where
  "recvAtomic P now mem pkt t =
     (if PIM_DTLB_IDEAL_REFILL_REG P \<noteq> 0 \<and> pkt_addr pkt = PIM_DTLB_IDEAL_REFILL_REG P then refill_request P now mem pkt t
      else do { let (target, cmd, t0) = check_hmc_command P pkt t;
                (x, t1) \<leftarrow> remap now (if target = 0 then pkt_addr pkt else target) t0;
                (y, t2) \<leftarrow> (if x = - 1 then
                              do { t2 \<leftarrow> refillTLB_atomic P now mem (pkt_addr pkt) t1;
                                   (y, t3) \<leftarrow> remap now (pkt_addr pkt) t2;
                                   if y = - 1 then None else Some (y, t3) }
                            else Some (x, t1));
                Some (Sent y (pkt_hmc (with_cmd cmd pkt)), t2) })"

definition send_remapped :: "bool \<Rightarrow> u64 \<Rightarrow> packet \<Rightarrow> outcome" where
  "send_remapped ok x pkt = (if ok then Sent x (pkt_hmc pkt) else Refused (pkt\<lparr>pkt_addr := x, is_remapped := True\<rparr>))"

definition recvTimingReq :: "tlb_params \<Rightarrow> u64 \<Rightarrow> (u64 \<Rightarrow> u32) \<Rightarrow> bool \<Rightarrow> packet \<Rightarrow> tlb \<Rightarrow> (outcome \<times> tlb) option" where
  "recvTimingReq P now mem ok pkt t =
     (if PIM_DTLB_IDEAL_REFILL_REG P \<noteq> 0 \<and> pkt_addr pkt = PIM_DTLB_IDEAL_REFILL_REG P then refill_request P now mem pkt t
      else if is_remapped pkt then Some (if ok then Sent (pkt_addr pkt) (pkt_hmc pkt) else Refused pkt, t)
      else do { let (target, cmd, t0) = check_hmc_command P pkt t;
                let a = (if target = 0 then pkt_addr pkt else target);
                (x, t1) \<leftarrow> remap now a t0;
                if x = - 1 then
                  (if IDEAL_REFILL P then
                     do { t2 \<leftarrow> refillTLB_functional P now mem a t1;
                          (y, t3) \<leftarrow> remap now a t2;
                          if y = - 1 then None else Some (send_remapped ok y (with_cmd cmd pkt), t3) }
                   else do { (_, t2) \<leftarrow> refillTLB_timing P ok a t1; Some (Refused (with_cmd cmd pkt), t2) })
                else Some (send_remapped ok x (with_cmd cmd pkt), t1) })"

text \<open>The answer to a refill request.\<close>

definition recvTimingResp :: "tlb_params \<Rightarrow> u64 \<Rightarrow> (u64 \<Rightarrow> u32) \<Rightarrow> u64 \<Rightarrow> tlb \<Rightarrow> tlb option" where
  "recvTimingResp P now mem q t =
     do { t1 \<leftarrow> remove_pending_refill q t;
          updateTLB P now (ucast (mem q)) (ucast (mem (q + 4))) (ucast (mem (q + 8))) t1 }"

subsection \<open>Rules of the slice table\<close>

text \<open>The physical address of a virtual one by the list \<open>pa\<close> of page addresses.\<close>

definition page_addr :: "nat \<Rightarrow> nat \<Rightarrow> u32 list \<Rightarrow> nat \<Rightarrow> nat" where
  "page_addr sh v pa a = unat (pa ! ((a - v) div 2 ^ sh)) + (a - v) mod 2 ^ sh"

definition in_pages :: "nat \<Rightarrow> nat \<Rightarrow> u32 list \<Rightarrow> u64 \<Rightarrow> bool" where
  "in_pages sh v pa a \<longleftrightarrow> v \<le> unat a \<and> unat a < v + 2 ^ sh * length pa"

text \<open>Pages that fit into the 32-bit address space, the last page excepted.\<close>

definition pages_fit :: "nat \<Rightarrow> nat \<Rightarrow> u32 list \<Rightarrow> bool" where
  "pages_fit sh v pa \<longleftrightarrow> v + 2 ^ sh * length pa < 2 ^ 32 \<and> (\<forall>p \<in> set pa. unat p + 2 ^ sh < 2 ^ 32)"

definition page_rule :: "nat \<Rightarrow> nat \<Rightarrow> u32 list \<Rightarrow> addr_range \<Rightarrow> addr_range \<Rightarrow> bool" where
  "page_rule sh v pa q r \<longleftrightarrow> \<not> interleaved q \<and> (\<exists>b c. 0 < c \<and> b + c \<le> length pa \<and>
     unat (r_start q) = v + 2 ^ sh * b \<and> unat (r_end q) = v + 2 ^ sh * (b + c) - 1 \<and> unat (r_start r) = unat (pa ! b) \<and>
     (\<forall>l<c. unat (pa ! (b + l)) = unat (pa ! b) + 2 ^ sh * l))"

lemma unat_of_nat_u32: "n < 2 ^ 32 \<Longrightarrow> unat (of_nat n :: u32) = n"
  by (subst unat_of_nat) simp

lemma unat_of_nat_u64: "n < 2 ^ 64 \<Longrightarrow> unat (of_nat n :: u64) = n"
  by (subst unat_of_nat) simp

lemma unat_ucast_64: "unat (ucast (w :: u32) :: u64) = unat w"
  by (simp add: unsigned_ucast_eq take_bit_nat_eq_self_iff order.strict_trans [OF unsigned_less])

lemma ucast_64_of_nat: "(ucast (w :: u32) :: u64) = of_nat (unat w)"
  by (simp add: unat_ucast_64 flip: word_unat_eq_iff)

lemma unat_add_u64: "unat (x :: u64) + unat y < 2 ^ 64 \<Longrightarrow> unat (x + y) = unat x + unat y"
proof -
  assume "unat x + unat y < 2 ^ 64"
  then have "unat (of_nat (unat x + unat y) :: u64) = unat x + unat y" by (rule unat_of_nat_u64)
  then show ?thesis by simp
qed

lemma page_rule_addr:
  assumes R: "page_rule sh v pa q r" and x: "unat (r_start q) \<le> x" "x \<le> unat (r_end q)"
  shows "page_addr sh v pa x = unat (r_start r) + (x - unat (r_start q))" "pa ! ((x - v) div 2 ^ sh) \<in> set pa" "v \<le> x" "x < v + 2 ^ sh * length pa"
proof -
  let ?P = "2 ^ sh :: nat"
  from R obtain b c where bc: "0 < c" "b + c \<le> length pa" "unat (r_start q) = v + ?P * b" "unat (r_end q) = v + ?P * (b + c) - 1"
    "unat (r_start r) = unat (pa ! b)" "\<forall>l<c. unat (pa ! (b + l)) = unat (pa ! b) + ?P * l" unfolding page_rule_def by blast
  define d where "d = x - (v + ?P * b)"
  have e: "x = v + ?P * b + d" using x(1) bc(3) by (simp add: d_def)
  have "0 < ?P * (b + c)" using bc(1) by simp
  then have bd: "?P * b + d < ?P * (b + c)" using x(2) e bc(4) by linarith
  then have "d < ?P * c" by (simp add: distrib_left)
  then have l: "d div ?P < c" by (simp add: less_mult_imp_div_less mult.commute)
  have dm: "(x - v) div ?P = b + d div ?P" "(x - v) mod ?P = d mod ?P" using e by simp_all
  show "page_addr sh v pa x = unat (r_start r) + (x - unat (r_start q))" using dm bc(3,5,6) l by (simp add: page_addr_def add.assoc d_def)
  show "pa ! ((x - v) div ?P) \<in> set pa" unfolding dm using l bc(2) by simp
  have "?P * (b + c) \<le> ?P * length pa" using bc(2) by simp
  then show "v \<le> x" "x < v + ?P * length pa" using e bd by linarith+
qed

lemma page_addr_fits: "pages_fit sh v pa \<Longrightarrow> pa ! ((x - v) div 2 ^ sh) \<in> set pa \<Longrightarrow> page_addr sh v pa x < 2 ^ 32"
proof -
  assume "pages_fit sh v pa" "pa ! ((x - v) div 2 ^ sh) \<in> set pa"
  then have "unat (pa ! ((x - v) div 2 ^ sh)) + 2 ^ sh < 2 ^ 32" by (simp add: pages_fit_def)
  moreover have "(x - v) mod 2 ^ sh < 2 ^ sh" by simp
  ultimately show ?thesis unfolding page_addr_def by linarith
qed

lemma page_rule_sound:
  assumes R: "page_rule sh v pa q r" and F: "pages_fit sh v pa" and C: "contains q a"
  shows "unat (a - r_start q + r_start r) = page_addr sh v pa (unat a)" and "page_addr sh v pa (unat a) < 2 ^ 32" and "in_pages sh v pa a"
proof -
  have a: "unat (r_start q) \<le> unat a" "unat a \<le> unat (r_end q)" using C by (simp_all add: contains_def word_le_nat_alt)
  note pr = page_rule_addr [OF R a]
  show lt: "page_addr sh v pa (unat a) < 2 ^ 32" by (rule page_addr_fits [OF F pr(2)])
  have "unat (a - r_start q) = unat a - unat (r_start q)" using a(1) by (simp add: unat_sub word_le_nat_alt)
  moreover have "unat (r_start r) + (unat a - unat (r_start q)) < 2 ^ 64" using lt unfolding pr(1) by simp
  ultimately show "unat (a - r_start q + r_start r) = page_addr sh v pa (unat a)" using unat_add_u64 [of "a - r_start q" "r_start r"] pr(1) by simp
  show "in_pages sh v pa a" using pr(3,4) by (simp add: in_pages_def)
qed

text \<open>The entry of a page gives such a rule.\<close>

lemma slice_rule:
  assumes S: "slice_of (2 ^ sh) v32 0 pa e j" and F: "pages_fit sh (unat v32) pa" and sh: "sh < 32"
  shows "page_rule sh (unat v32) pa (AddrRange (ucast (sl_vaddr e)) (ucast (sl_vaddr e) + ucast (sl_size e) - 1)) (AddrRange (ucast (sl_paddr e)) x) \<and>
    (\<forall>a. unat v32 + 2 ^ sh * j \<le> unat a \<longrightarrow> unat a < unat v32 + 2 ^ sh * (j + 1) \<longrightarrow>
       contains (AddrRange (ucast (sl_vaddr e)) (ucast (sl_vaddr e) + ucast (sl_size e) - 1)) a)"
proof -
  let ?P = "2 ^ sh :: nat"
  from S obtain b c where bc: "b \<le> j" "j < b + c" "b + c \<le> length pa"
    "e = \<lparr>sl_vaddr = v32 + 2 ^ sh * of_nat b, sl_paddr = pa ! b, sl_size = 2 ^ sh * of_nat c\<rparr>" "\<forall>l<c. pa ! (b + l) = pa ! b + 2 ^ sh * of_nat l"
    unfolding slice_of_def by (simp only: add_0) blast
  have fit: "unat v32 + ?P * length pa < 2 ^ 32" "\<forall>p \<in> set pa. unat p + ?P < 2 ^ 32" using F by (simp_all add: pages_fit_def)
  have le: "?P * (b + c) \<le> ?P * length pa" using bc(3) by simp
  then have nb: "unat v32 + ?P * b < 2 ^ 32" "?P * c < 2 ^ 32" using fit(1) by (simp_all add: distrib_left)
  have "sl_vaddr e = of_nat (unat v32 + ?P * b)" "sl_size e = of_nat (?P * c)" by (simp_all add: bc(4))
  then have va: "unat (sl_vaddr e) = unat v32 + ?P * b" and sz: "unat (sl_size e) = ?P * c" using nb by (simp_all only: unat_of_nat_u32)
  have ph: "unat (pa ! (b + l)) = unat (pa ! b) + ?P * l" if "l < c" for l
    using that
  proof (induction l)
    case (Suc l)
    have "pa ! (b + l) \<in> set pa" using Suc.prems bc(3) by simp
    then have lt: "unat (pa ! (b + l)) + ?P < 2 ^ 32" using fit(2) by blast
    have "pa ! (b + Suc l) = pa ! b + 2 ^ sh * of_nat (Suc l)" "pa ! (b + l) = pa ! b + 2 ^ sh * of_nat l" using bc(5) Suc.prems by (blast intro: Suc_lessD)+
    then have "pa ! (b + Suc l) = pa ! (b + l) + 2 ^ sh" by (simp add: distrib_left)
    also have "\<dots> = of_nat (unat (pa ! (b + l)) + ?P)" by simp
    finally have "unat (pa ! (b + Suc l)) = unat (pa ! (b + l)) + ?P" using lt by (simp only: unat_of_nat_u32)
    then show ?case using Suc by simp
  qed simp
  let ?q = "AddrRange (ucast (sl_vaddr e)) (ucast (sl_vaddr e) + ucast (sl_size e) - 1)"
  have c0: "0 < c" "0 < ?P * c" using bc(1,2) by simp_all
  have one: "1 \<le> unat v32 + ?P * (b + c)" using c0(2) unfolding distrib_left by linarith
  have s: "unat (r_start ?q) = unat v32 + ?P * b" by (simp add: unat_ucast_64 va)
  have "(ucast (sl_vaddr e) + ucast (sl_size e) - 1 :: u64) = of_nat (unat v32 + ?P * (b + c) - 1)"
    unfolding ucast_64_of_nat [of "sl_vaddr e"] ucast_64_of_nat [of "sl_size e"] va sz of_nat_diff [OF one] by (simp add: distrib_left add.assoc)
  moreover have "unat v32 + ?P * (b + c) - 1 < 2 ^ 64"
    using le fit(1) power_strict_increasing [of 32 64 "2 :: nat"] by linarith
  ultimately have t: "unat (r_end ?q) = unat v32 + ?P * (b + c) - 1" by (simp only: AddrRange_simps unat_of_nat_u64)
  have pr: "page_rule sh (unat v32) pa ?q (AddrRange (ucast (sl_paddr e)) x)"
    unfolding page_rule_def using c0(1) bc(3,4) s t ph by (auto simp: unat_ucast_64 simp del: AddrRange_simps(2))
  have "contains ?q a" if h: "unat v32 + ?P * j \<le> unat a" "unat a < unat v32 + ?P * (j + 1)" for a
  proof -
    have "?P * b \<le> ?P * j" "?P * (j + 1) \<le> ?P * (b + c)" using bc(1,2) by (simp_all del: mult_Suc_right)
    then have "unat (r_start ?q) \<le> unat a" "unat a \<le> unat (r_end ?q)" unfolding s t using h by linarith+
    then show ?thesis by (simp add: word_le_nat_alt contains_def interleaved_def AddrRange_def)
  qed
  then show ?thesis using pr by blast
qed

subsection \<open>The invariant\<close>

definition holds_table :: "(u64 \<Rightarrow> u32) \<Rightarrow> u64 \<Rightarrow> slice list \<Rightarrow> bool" where
  "holds_table mem tp tab \<longleftrightarrow> (\<forall>j<length tab. mem (tp + of_nat (j * 12)) = sl_vaddr (tab ! j) \<and>
     mem (tp + of_nat (j * 12) + 4) = sl_paddr (tab ! j) \<and> mem (tp + of_nat (j * 12) + 8) = sl_size (tab ! j))"

definition table_of :: "nat \<Rightarrow> u32 \<Rightarrow> u32 list \<Rightarrow> slice list \<Rightarrow> bool" where
  "table_of sh v pa tab \<longleftrightarrow> sh < 32 \<and> pages_fit sh (unat v) pa \<and> length tab = length pa \<and> (\<forall>j<length pa. slice_of (2 ^ sh) v 0 pa (tab ! j) j)"

text \<open>The fixed rule does not overlap the pages and the other rules are rules of the pages.\<close>

definition tlb_ok :: "nat \<Rightarrow> nat \<Rightarrow> nat \<Rightarrow> u32 list \<Rightarrow> tlb \<Rightarrow> bool" where
  "tlb_ok n sh v pa t \<longleftrightarrow> length (lastUsed t) = length (originalRanges t) \<and> originalRanges t \<noteq> [] \<and> remappedRanges t \<noteq> [] \<and>
     length (originalRanges t) \<le> n \<and> 2 \<le> n \<and> (\<forall>a. in_pages sh v pa a \<longrightarrow> \<not> contains (hd (originalRanges t)) a) \<and>
     list_all2 (page_rule sh v pa) (tl (originalRanges t)) (tl (remappedRanges t))"

definition tlb_regs :: "u32 \<Rightarrow> u64 \<Rightarrow> tlb \<Rightarrow> bool" where
  "tlb_regs v tp t \<longleftrightarrow> slicetable_ptr t = tp \<and> tp \<noteq> 0 \<and> slicevstart t = ucast v \<and> pending_refills t = []"

lemma find_range_Some: "find_range rs a = Some i \<Longrightarrow> i < length rs \<and> contains (rs ! i) a"
  by (induction rs arbitrary: i) (auto split: if_splits)

lemma find_range_None: "find_range rs a = None \<longleftrightarrow> (\<forall>r \<in> set rs. \<not> contains r a)"
  by (induction rs) auto

lemma tlb_ok_length: "tlb_ok n sh v pa t \<Longrightarrow> length (remappedRanges t) = length (originalRanges t)"
  by (cases "originalRanges t"; cases "remappedRanges t") (auto simp: tlb_ok_def dest: list_all2_lengthD)

lemma tlb_ok_rule:
  assumes "tlb_ok n sh v pa t" "in_pages sh v pa a" "find_range (originalRanges t) a = Some i"
  shows "0 < i" "i < length (lastUsed t)" "page_rule sh v pa (originalRanges t ! i) (remappedRanges t ! i)" "contains (originalRanges t ! i) a"
proof -
  note f = find_range_Some [OF assms(3)]
  show c: "contains (originalRanges t ! i) a" using f by blast
  have ne: "originalRanges t \<noteq> []" "\<not> contains (hd (originalRanges t)) a" using assms(1,2) by (auto simp: tlb_ok_def)
  then show i: "0 < i" using c by (cases i) (auto simp: hd_conv_nth)
  show "i < length (lastUsed t)" using f assms(1) by (simp add: tlb_ok_def)
  have "page_rule sh v pa (tl (originalRanges t) ! (i - 1)) (tl (remappedRanges t) ! (i - 1))"
    using list_all2_nthD [of "page_rule sh v pa" "tl (originalRanges t)" "tl (remappedRanges t)" "i - 1"] assms(1) f i by (auto simp: tlb_ok_def)
  moreover have "i - 1 < length (tl (originalRanges t))" "i - 1 < length (tl (remappedRanges t))" using i f tlb_ok_length [OF assms(1)] by auto
  ultimately show "page_rule sh v pa (originalRanges t ! i) (remappedRanges t ! i)" using i by (simp only: nth_tl) simp
qed

lemma apply_rule_sound:
  assumes "tlb_ok n sh v pa t" "pages_fit sh v pa" "in_pages sh v pa a" "find_range (originalRanges t) a = Some i"
  shows "unat (apply_rule t i a) = page_addr sh v pa (unat a)" "apply_rule t i a \<noteq> - 1"
proof -
  note r = page_rule_sound [OF tlb_ok_rule(3) [OF assms(1,3,4)] assms(2) tlb_ok_rule(4) [OF assms(1,3,4)]]
  show u: "unat (apply_rule t i a) = page_addr sh v pa (unat a)" using r(1) by (simp add: apply_rule_def)
  have "unat (- 1 :: u64) = 2 ^ 64 - 1" by (simp add: unsigned_minus_1_eq_mask mask_eq_exp_minus_1)
  then show "apply_rule t i a \<noteq> - 1" using r(2) u by auto
qed

lemma remap_hit:
  assumes "tlb_ok n sh v pa t" "pages_fit sh v pa" "in_pages sh v pa a" "find_range (originalRanges t) a = Some i" "tlb_regs v32 tp t"
  shows "\<exists>x t'. remap now a t = Some (x, t') \<and> x \<noteq> - 1 \<and> unat x = page_addr sh v pa (unat a) \<and> tlb_ok n sh v pa t' \<and> tlb_regs v32 tp t'"
  using tlb_ok_rule(1,2) [OF assms(1,3,4)] apply_rule_sound [OF assms(1-4)] assms(1,4,5)
  by (simp add: remap_def Let_def tlb_ok_def tlb_regs_def)

lemma lru_index_bounds: "lru_index us i mn mi = mi \<or> (i \<le> lru_index us i mn mi \<and> lru_index us i mn mi < i + length us)"
  by (induction us i mn mi rule: lru_index.induct) (auto split: if_splits)

lemma erase_simps:
  assumes "0 < i" "i < length xs"
  shows "length (erase i xs) = length xs - 1" "erase i xs \<noteq> []" "hd (erase i xs) = hd xs" "tl (erase i xs) = erase (i - 1) (tl xs)"
proof -
  obtain x ys where xs: "xs = x # ys" using assms by (cases xs) auto
  obtain j where i: "i = Suc j" using assms by (cases i) auto
  show "length (erase i xs) = length xs - 1" "erase i xs \<noteq> []" "hd (erase i xs) = hd xs" "tl (erase i xs) = erase (i - 1) (tl xs)"
    using assms by (simp_all add: erase_def xs i)
qed

lemma list_all2_erase: "list_all2 R xs ys \<Longrightarrow> list_all2 R (erase i xs) (erase i ys)"
  by (auto simp: erase_def intro!: list_all2_appendI list_all2_takeI list_all2_dropI)

lemma evict_lru_ok:
  assumes T: "tlb_ok n sh v pa t" and G: "tlb_regs v32 tp t"
  shows "\<exists>t'. evict_lru n t = Some t' \<and> tlb_ok n sh v pa t' \<and> tlb_regs v32 tp t' \<and> length (originalRanges t') < n"
proof (cases "n \<le> length (originalRanges t)")
  case True
  note len = tlb_ok_length [OF T]
  have L: "length (lastUsed t) = length (originalRanges t)" "originalRanges t \<noteq> []" "length (originalRanges t) \<le> n" "2 \<le> n"
    "list_all2 (page_rule sh v pa) (tl (originalRanges t)) (tl (remappedRanges t))" "\<forall>a. in_pages sh v pa a \<longrightarrow> \<not> contains (hd (originalRanges t)) a"
    using T by (auto simp: tlb_ok_def)
  define mi where "mi = lru_index (drop 1 (lastUsed t)) 1 (lastUsed t ! 1) 1"
  have two: "2 \<le> length (originalRanges t)" using True L(4) by simp
  then have mi: "0 < mi" "mi < length (originalRanges t)"
    using lru_index_bounds [of "drop 1 (lastUsed t)" 1 "lastUsed t ! 1" 1] L(1) by (auto simp: mi_def)
  let ?t = "t\<lparr>lastUsed := erase mi (lastUsed t), originalRanges := erase mi (originalRanges t), remappedRanges := erase mi (remappedRanges t)\<rparr>"
  have "tlb_ok n sh v pa ?t"
    using erase_simps [OF mi] erase_simps [of mi "remappedRanges t"] erase_simps [of mi "lastUsed t"] mi len L list_all2_erase [OF L(5)]
    by (simp add: tlb_ok_def)
  moreover have "evict_lru n t = Some ?t" unfolding evict_lru_def Let_def mi_def [symmetric] using True two L(1) mi len by simp
  ultimately show ?thesis using L(3,4) erase_simps(1) [OF mi] G by (simp add: tlb_regs_def)
qed (use assms in \<open>simp add: evict_lru_def\<close>)

lemma updateTLB_ok:
  assumes T: "tlb_ok (TLB_SIZE P) sh v pa t" and R: "page_rule sh v pa (AddrRange a (a + n - 1)) (AddrRange p (p + n - 1))" and G: "tlb_regs v32 tp t"
  shows "\<exists>t'. updateTLB P now a p n t = Some t' \<and> tlb_ok (TLB_SIZE P) sh v pa t' \<and> tlb_regs v32 tp t' \<and> AddrRange a (a + n - 1) \<in> set (originalRanges t')"
proof -
  obtain t1 where t1: "evict_lru (TLB_SIZE P) t = Some t1" "tlb_ok (TLB_SIZE P) sh v pa t1" "tlb_regs v32 tp t1" "length (originalRanges t1) < TLB_SIZE P"
    using evict_lru_ok [OF T G] by blast
  let ?t = "t1\<lparr>originalRanges := originalRanges t1 @ [AddrRange a (a + n - 1)], remappedRanges := remappedRanges t1 @ [AddrRange p (p + n - 1)],
                   lastUsed := lastUsed t1 @ [now]\<rparr>"
  have "updateTLB P now a p n t = Some ?t" by (simp add: updateTLB_def t1(1))
  moreover have "tlb_ok (TLB_SIZE P) sh v pa ?t" "tlb_regs v32 tp ?t"
    using t1(2-4) R by (auto simp: tlb_ok_def tlb_regs_def intro!: list_all2_appendI)
  ultimately show ?thesis by (intro exI [of _ ?t]) simp
qed

lemma rule_addr_page:
  assumes "OS_PAGE_SHIFT P = sh" "slicevstart t = ucast (v :: u32)" "slicetable_ptr t = tp" "in_pages sh (unat v) pa a"
  shows "rule_addr P a t = tp + of_nat ((unat a - unat v) div 2 ^ sh * 12)" "\<not> a < slicevstart t" "(unat a - unat v) div 2 ^ sh < length pa"
proof -
  have le: "unat v \<le> unat a" "unat a - unat v < 2 ^ sh * length pa" using assms(4) by (auto simp: in_pages_def)
  then have ge: "ucast v \<le> a" by (simp add: word_le_nat_alt unat_ucast_64)
  then have "unat (a - ucast v) = unat a - unat v" by (simp add: unat_sub unat_ucast_64)
  then have "unat (drop_bit sh (a - ucast v)) = (unat a - unat v) div 2 ^ sh" by (metis drop_bit_eq_div unat_drop_bit_eq)
  then have "(of_nat (unat (drop_bit sh (a - ucast v))) :: u64) = of_nat ((unat a - unat v) div 2 ^ sh)" by (rule arg_cong)
  then have "drop_bit sh (a - ucast v) = of_nat ((unat a - unat v) div 2 ^ sh)" by simp
  then show "rule_addr P a t = tp + of_nat ((unat a - unat v) div 2 ^ sh * 12)" using assms by (simp add: rule_addr_def)
  show "\<not> a < slicevstart t" using ge assms(2) by (simp add: not_less)
  show "(unat a - unat v) div 2 ^ sh < length pa" using le(2) by (simp add: less_mult_imp_div_less mult.commute)
qed

text \<open>The rule read from the slice table for an address covers that address.\<close>

lemma table_update_ok:
  assumes T: "tlb_ok (TLB_SIZE P) sh (unat v) pa t" and G: "tlb_regs v tp t" and S: "OS_PAGE_SHIFT P = sh"
    and M: "holds_table mem tp tab" "table_of sh v pa tab" and a: "in_pages sh (unat v) pa a" and q: "q = rule_addr P a t"
  shows "\<exists>t'. updateTLB P now (ucast (mem q)) (ucast (mem (q + 4))) (ucast (mem (q + 8))) t = Some t' \<and>
    tlb_ok (TLB_SIZE P) sh (unat v) pa t' \<and> tlb_regs v tp t' \<and> find_range (originalRanges t') a \<noteq> None"
proof -
  let ?j = "(unat a - unat v) div 2 ^ sh"
  have R: "slicevstart t = ucast v" "slicetable_ptr t = tp" using G by (simp_all add: tlb_regs_def)
  note qa = rule_addr_page [OF S R a]
  have tab: "sh < 32" "pages_fit sh (unat v) pa" "length tab = length pa" "slice_of (2 ^ sh) v 0 pa (tab ! ?j) ?j" using M(2) qa(3) by (auto simp: table_of_def)
  define e where "e = tab ! ?j"
  have m: "mem q = sl_vaddr e" "mem (q + 4) = sl_paddr e" "mem (q + 8) = sl_size e"
    using M(1) qa(3) tab(3) unfolding q qa(1) holds_table_def e_def by simp_all
  note sr = slice_rule [OF tab(4,2,1), folded e_def]
  let ?q = "AddrRange (ucast (sl_vaddr e)) (ucast (sl_vaddr e) + ucast (sl_size e) - 1)"
  have le: "unat v \<le> unat a" using a by (simp add: in_pages_def)
  have "2 ^ sh * ?j \<le> unat a - unat v" "unat a - unat v < 2 ^ sh * (?j + 1)"
    using div_mult_mod_eq [of "unat a - unat v" "2 ^ sh"] mod_less_divisor [of "2 ^ sh" "unat a - unat v"] by (simp_all add: mult.commute dividend_less_times_div)
  then have "unat v + 2 ^ sh * ?j \<le> unat a" "unat a < unat v + 2 ^ sh * (?j + 1)" using le by linarith+
  then have c: "contains ?q a" using sr by blast
  obtain t' where t': "updateTLB P now (ucast (sl_vaddr e)) (ucast (sl_paddr e)) (ucast (sl_size e)) t = Some t'"
      "tlb_ok (TLB_SIZE P) sh (unat v) pa t'" "tlb_regs v tp t'" "?q \<in> set (originalRanges t')"
    using updateTLB_ok [OF T conjunct1 [OF sr] G] by blast
  have "find_range (originalRanges t') a \<noteq> None" using find_range_None [of "originalRanges t'" a] c t'(4) by blast
  then show ?thesis unfolding m using t'(1-3) by blast
qed

lemma refill_ok:
  assumes "tlb_ok (TLB_SIZE P) sh (unat v) pa t" "tlb_regs v tp t" "OS_PAGE_SHIFT P = sh" "holds_table mem tp tab" "table_of sh v pa tab" "in_pages sh (unat v) pa a"
  shows "\<exists>t'. refillTLB_atomic P now mem a t = Some t' \<and> tlb_ok (TLB_SIZE P) sh (unat v) pa t' \<and> tlb_regs v tp t' \<and> find_range (originalRanges t') a \<noteq> None"
proof -
  have R: "slicevstart t = ucast v" "slicetable_ptr t = tp" "pending_refills t = []" using assms(2) by (simp_all add: tlb_regs_def)
  show ?thesis using table_update_ok [OF assms refl, where now = now] rule_addr_page(2) [OF assms(3) R(1,2) assms(6)] R(3)
    by (simp add: refillTLB_atomic_def pending_refill_def Let_def)
qed

text \<open>A packet that is not meant for one of the registers of the TLB.\<close>

definition plain :: "tlb_params \<Rightarrow> packet \<Rightarrow> bool" where
  "plain P pkt \<longleftrightarrow> pkt_addr pkt \<notin> {PIM_DTLB_IDEAL_REFILL_REG P, HMC_ATOMIC_INCR P, HMC_ATOMIC_FADD P, HMC_ATOMIC_IMIN P, HMC_OPERAND P} \<and> pkt_hmc pkt = None"

lemma plain_command: "plain P pkt \<Longrightarrow> check_hmc_command P pkt t = (0, None, t)"
  by (simp add: plain_def check_hmc_command_def Let_def)

definition tlb_inv :: "tlb_params \<Rightarrow> (u64 \<Rightarrow> u32) \<Rightarrow> u32 \<Rightarrow> u32 list \<Rightarrow> u64 \<Rightarrow> slice list \<Rightarrow> tlb \<Rightarrow> bool" where
  "tlb_inv P mem v pa tp tab t \<longleftrightarrow> tlb_ok (TLB_SIZE P) (OS_PAGE_SHIFT P) (unat v) pa t \<and> tlb_regs v tp t \<and> holds_table mem tp tab \<and> table_of (OS_PAGE_SHIFT P) v pa tab"

text \<open>An access after a miss, the same in the atomic and in the ideal timing mode.\<close>

lemma remap_miss:
  assumes "tlb_inv P mem v pa tp tab t" "in_pages (OS_PAGE_SHIFT P) (unat v) pa a" "find_range (originalRanges t) a = None"
  shows "\<exists>t1 t2 x t3. remap now a t = Some (- 1, t1) \<and> refillTLB_atomic P now mem a t1 = Some t2 \<and> remap now a t2 = Some (x, t3) \<and> x \<noteq> - 1 \<and>
    unat x = page_addr (OS_PAGE_SHIFT P) (unat v) pa (unat a) \<and> tlb_inv P mem v pa tp tab t3"
proof -
  have I: "tlb_ok (TLB_SIZE P) (OS_PAGE_SHIFT P) (unat v) pa t" "tlb_regs v tp t" "holds_table mem tp tab" "table_of (OS_PAGE_SHIFT P) v pa tab"
    using assms(1) by (simp_all add: tlb_inv_def)
  have F: "pages_fit (OS_PAGE_SHIFT P) (unat v) pa" using I(4) by (simp add: table_of_def)
  let ?t1 = "t\<lparr>TLBAccess := TLBAccess t + 1, TLBMiss := TLBMiss t + 1\<rparr>"
  have r1: "remap now a t = Some (- 1, ?t1)" using assms(3) I(2) by (simp add: remap_def tlb_regs_def Let_def)
  have "tlb_ok (TLB_SIZE P) (OS_PAGE_SHIFT P) (unat v) pa ?t1" "tlb_regs v tp ?t1" using I(1,2) by (simp_all add: tlb_ok_def tlb_regs_def)
  from refill_ok [OF this refl I(3,4) assms(2), where now = now] obtain t2 i
    where t2: "refillTLB_atomic P now mem a ?t1 = Some t2" "tlb_ok (TLB_SIZE P) (OS_PAGE_SHIFT P) (unat v) pa t2" "tlb_regs v tp t2" "find_range (originalRanges t2) a = Some i"
    by auto
  from remap_hit [OF t2(2) F assms(2) t2(4,3), where now = now] show ?thesis using r1 t2(1) I(3,4) unfolding tlb_inv_def by blast
qed

lemma recvAtomic_translates:
  assumes I: "tlb_inv P mem v pa tp tab t" and a: "in_pages (OS_PAGE_SHIFT P) (unat v) pa (pkt_addr pkt)" and p: "plain P pkt"
  shows "\<exists>x t'. recvAtomic P now mem pkt t = Some (Sent x None, t') \<and> unat x = page_addr (OS_PAGE_SHIFT P) (unat v) pa (unat (pkt_addr pkt)) \<and> tlb_inv P mem v pa tp tab t'"
proof (cases "find_range (originalRanges t) (pkt_addr pkt)")
  case (Some i)
  have F: "pages_fit (OS_PAGE_SHIFT P) (unat v) pa" "tlb_ok (TLB_SIZE P) (OS_PAGE_SHIFT P) (unat v) pa t" "tlb_regs v tp t"
    using I by (simp_all add: tlb_inv_def table_of_def)
  from remap_hit [OF F(2,1) a Some F(3), where now = now] I
  obtain x t' where "remap now (pkt_addr pkt) t = Some (x, t')" "x \<noteq> - 1" "unat x = page_addr (OS_PAGE_SHIFT P) (unat v) pa (unat (pkt_addr pkt))" "tlb_inv P mem v pa tp tab t'"
    by (auto simp: tlb_inv_def)
  then show ?thesis using p plain_command [OF p, of t] by (auto simp: recvAtomic_def plain_def with_cmd_def)
next
  case None
  from remap_miss [OF I a this, where now = now] obtain t1 t2 x t3 where r: "remap now (pkt_addr pkt) t = Some (- 1, t1)" "refillTLB_atomic P now mem (pkt_addr pkt) t1 = Some t2"
    "remap now (pkt_addr pkt) t2 = Some (x, t3)" "x \<noteq> - 1" "unat x = page_addr (OS_PAGE_SHIFT P) (unat v) pa (unat (pkt_addr pkt))" "tlb_inv P mem v pa tp tab t3" by blast
  then have "recvAtomic P now mem pkt t = Some (Sent x None, t3)" using p plain_command [OF p, of t] by (simp add: recvAtomic_def plain_def with_cmd_def)
  then show ?thesis using r(5,6) by blast
qed

fun tlb_run :: "tlb_params \<Rightarrow> (u64 \<Rightarrow> u32) \<Rightarrow> (u64 \<times> packet) list \<Rightarrow> tlb \<Rightarrow> (outcome list \<times> tlb) option" where
  "tlb_run P mem [] t = Some ([], t)"
| "tlb_run P mem ((now, pkt) # ps) t =
     do { (r, t1) \<leftarrow> recvAtomic P now mem pkt t; (rs, t2) \<leftarrow> tlb_run P mem ps t1; Some (r # rs, t2) }"

lemma tlb_run_ok:
  assumes "tlb_inv P mem v pa tp tab t"
    and "\<forall>(now, pkt) \<in> set ps. in_pages (OS_PAGE_SHIFT P) (unat v) pa (pkt_addr pkt) \<and> plain P pkt"
  shows "\<exists>rs t'. tlb_run P mem ps t = Some (rs, t') \<and> tlb_inv P mem v pa tp tab t' \<and>
    list_all2 (\<lambda>(now, pkt) r. \<exists>x. r = Sent x None \<and> unat x = page_addr (OS_PAGE_SHIFT P) (unat v) pa (unat (pkt_addr pkt))) ps rs"
  using assms
proof (induction ps arbitrary: t)
  case (Cons p ps)
  obtain now pkt where p: "p = (now, pkt)" by (cases p)
  have h: "in_pages (OS_PAGE_SHIFT P) (unat v) pa (pkt_addr pkt)" "plain P pkt" using Cons.prems(2) by (auto simp: p)
  from recvAtomic_translates [OF Cons.prems(1) h, where now = now] obtain x t1
    where x: "recvAtomic P now mem pkt t = Some (Sent x None, t1)" "unat x = page_addr (OS_PAGE_SHIFT P) (unat v) pa (unat (pkt_addr pkt))" "tlb_inv P mem v pa tp tab t1" by blast
  from Cons.IH [OF x(3)] Cons.prems(2) obtain rs t' where r: "tlb_run P mem ps t1 = Some (rs, t')" "tlb_inv P mem v pa tp tab t'"
    "list_all2 (\<lambda>(now, pkt) r. \<exists>x. r = Sent x None \<and> unat x = page_addr (OS_PAGE_SHIFT P) (unat v) pa (unat (pkt_addr pkt))) ps rs" by auto
  show ?case by (intro exI [of _ "Sent x None # rs"] exI [of _ t']) (use x r in \<open>simp add: p\<close>)
qed simp

text \<open>
  C25. The TLB translates correctly: whatever sequence of accesses to the pages of a slice table the PIM makes, at whatever times, every access is
  sent to the physical address of its page plus the offset in the page, no matter which rules are in the TLB or were replaced before; the
  simulation never stops with an error and the rules stay rules of the slice table.
\<close>

theorem tlb_run_translates:
  assumes "tlb_inv P mem v pa tp tab t"
    and "\<forall>(now, pkt) \<in> set ps. in_pages (OS_PAGE_SHIFT P) (unat v) pa (pkt_addr pkt) \<and> plain P pkt"
  shows "\<exists>rs t'. tlb_run P mem ps t = Some (rs, t') \<and> tlb_inv P mem v pa tp tab t' \<and>
    list_all2 (\<lambda>(now, pkt) r. \<exists>x. r = Sent x None \<and> unat x = page_addr (OS_PAGE_SHIFT P) (unat v) pa (unat (pkt_addr pkt))) ps rs"
  by (rule tlb_run_ok [OF assms])

text \<open>A memory that holds a slice table.\<close>

definition mem_of :: "u64 \<Rightarrow> slice list \<Rightarrow> u64 \<Rightarrow> u32" where
  "mem_of tp tab q =
     (let k = unat (q - tp)
      in if k div 12 < length tab then (if k mod 12 = 0 then sl_vaddr else if k mod 12 = 4 then sl_paddr else sl_size) (tab ! (k div 12)) else 0)"

lemma holds_table_mem_of:
  assumes "length tab * 12 < 2 ^ 32"
  shows "holds_table (mem_of tp tab) tp tab"
proof -
  have u: "unat (tp + of_nat (j * 12) + of_nat c - tp) = j * 12 + c" if "j < length tab" "c < 12" for j c
  proof -
    have "j * 12 + c < 2 ^ 64" using that assms by simp
    then have "unat (of_nat (j * 12 + c) :: u64) = j * 12 + c" by (rule unat_of_nat_u64)
    then show ?thesis by (simp add: add.assoc)
  qed
  have w: "mem_of tp tab (tp + of_nat (j * 12) + of_nat c) = (if c = 0 then sl_vaddr else if c = 4 then sl_paddr else sl_size) (tab ! j)" if "j < length tab" "c < 12" for j c
    unfolding mem_of_def u [OF that] Let_def using that by simp
  show ?thesis unfolding holds_table_def using w [where c = 0] w [where c = 4] w [where c = 8] by simp
qed

definition params_of :: "nat \<Rightarrow> tlb_params" where
  "params_of n = \<lparr>TLB_SIZE = n, OS_PAGE_SHIFT = 12, IDEAL_REFILL = True, PIM_DTLB_IDEAL_REFILL_REG = 0x100, HMC_ATOMIC_INCR = 0x104, HMC_ATOMIC_IMIN = 0x108,
     HMC_ATOMIC_FADD = 0x10C, HMC_OPERAND = 0x110\<rparr>"

definition tlb_of :: "u64 \<Rightarrow> u64 \<Rightarrow> tlb" where
  "tlb_of tp vstart = \<lparr>originalRanges = [AddrRange 0 0xFFF], remappedRanges = [AddrRange 0x80000000 0x80000FFF], lastUsed = [- 1], pending_refills = [],
     slicetable_ptr = tp, slicecount = 0, slicevstart = vstart, hmc_operand = 0, TLBAccess = 0, TLBDynamicAccess = 0, TLBMiss = 0\<rparr>"

definition read_at :: "u64 \<Rightarrow> packet" where
  "read_at a = \<lparr>pkt_addr = a, is_write = False, pkt_data = 0, pkt_hmc = None, is_remapped = False\<rparr>"

definition ex_pages :: "u32 list" where "ex_pages = [0x5000, 0x6000, 0x2000]"

definition ex_table :: "slice list" where
  "ex_table = [\<lparr>sl_vaddr = 0x4000, sl_paddr = 0x5000, sl_size = 0x2000\<rparr>, \<lparr>sl_vaddr = 0x4000, sl_paddr = 0x5000, sl_size = 0x2000\<rparr>,
     \<lparr>sl_vaddr = 0x6000, sl_paddr = 0x2000, sl_size = 0x1000\<rparr>]"

lemma ex_table_of: "table_of 12 0x4000 ex_pages ex_table"
proof -
  have "slice_loop True (2 ^ 12) 0x4000 0 ex_pages = Some (ex_table, 2)" by (simp add: ex_pages_def ex_table_def)
  from slice_loop_correct [OF this] show ?thesis by (simp add: table_of_def pages_fit_def ex_pages_def)
qed

lemma ex_inv: "tlb_inv (params_of 2) (mem_of 0x80000 ex_table) 0x4000 ex_pages 0x80000 ex_table (tlb_of 0x80000 0x4000)"
proof -
  have "tlb_ok 2 12 0x4000 ex_pages (tlb_of 0x80000 0x4000)" by (auto simp: tlb_ok_def tlb_of_def in_pages_def word_le_nat_alt)
  moreover have "tlb_regs 0x4000 0x80000 (tlb_of 0x80000 0x4000)" by (simp add: tlb_regs_def tlb_of_def)
  moreover have "holds_table (mem_of 0x80000 ex_table) 0x80000 ex_table" by (rule holds_table_mem_of) (simp add: ex_table_def)
  ultimately show ?thesis using ex_table_of by (simp add: tlb_inv_def params_of_def)
qed

theorem tlb_run_translates_witness:
  "\<exists>t'. tlb_run (params_of 2) (mem_of 0x80000 ex_table) [(1, read_at 0x4010), (2, read_at 0x6008), (3, read_at 0x5004)] (tlb_of 0x80000 0x4000) =
     Some ([Sent 0x5010 None, Sent 0x2008 None, Sent 0x6004 None], t')"
proof -
  let ?ps = "[(1, read_at 0x4010), (2, read_at 0x6008), (3, read_at 0x5004)] :: (u64 \<times> packet) list"
  have "\<forall>(now, pkt) \<in> set ?ps. in_pages (OS_PAGE_SHIFT (params_of 2)) (unat (0x4000 :: u32)) ex_pages (pkt_addr pkt) \<and> plain (params_of 2) pkt"
    by (simp add: in_pages_def read_at_def plain_def params_of_def ex_pages_def)
  from tlb_run_translates [OF ex_inv this] obtain rs t' where r: "tlb_run (params_of 2) (mem_of 0x80000 ex_table) ?ps (tlb_of 0x80000 0x4000) = Some (rs, t')"
    "list_all2 (\<lambda>(now, pkt) r. \<exists>x. r = Sent x None \<and> unat x = page_addr 12 0x4000 ex_pages (unat (pkt_addr pkt))) ?ps rs" by (auto simp: params_of_def)
  then have "rs = [Sent 0x5010 None, Sent 0x2008 None, Sent 0x6004 None]"
    by (auto simp: list_all2_Cons1 read_at_def page_addr_def ex_pages_def word_unat_eq_iff)
  then show ?thesis using r(1) by blast
qed

text \<open>
  C26. Progress of a miss in timing mode: the packet is refused and one refill request is pending; its answer installs the rule and clears the request, and the packet, when it is sent
  again, goes to the physical address of its page.
\<close>

theorem timing_miss_progress:
  assumes "tlb_inv P mem v pa tp tab t" and "in_pages (OS_PAGE_SHIFT P) (unat v) pa (pkt_addr pkt)" and "plain P pkt" and "\<not> is_remapped pkt"
    and "\<not> IDEAL_REFILL P" and "find_range (originalRanges t) (pkt_addr pkt) = None"
  shows "\<exists>t1 q t2 x t3. recvTimingReq P now1 mem True pkt t = Some (Refused pkt, t1) \<and> pending_refills t1 = [q] \<and>
    recvTimingResp P now2 mem q t1 = Some t2 \<and> tlb_inv P mem v pa tp tab t2 \<and>
    recvTimingReq P now3 mem True pkt t2 = Some (Sent x None, t3) \<and> unat x = page_addr (OS_PAGE_SHIFT P) (unat v) pa (unat (pkt_addr pkt)) \<and> tlb_inv P mem v pa tp tab t3"
proof -
  let ?a = "pkt_addr pkt"
  have I: "tlb_ok (TLB_SIZE P) (OS_PAGE_SHIFT P) (unat v) pa t" "tlb_regs v tp t" "holds_table mem tp tab" "table_of (OS_PAGE_SHIFT P) v pa tab"
    using assms(1) by (simp_all add: tlb_inv_def)
  have F: "pages_fit (OS_PAGE_SHIFT P) (unat v) pa" using I(4) by (simp add: table_of_def)
  have R: "slicevstart t = ucast v" "slicetable_ptr t = tp" "tp \<noteq> 0" "pending_refills t = []" using I(2) by (simp_all add: tlb_regs_def)
  define u where "u = t\<lparr>TLBAccess := TLBAccess t + 1, TLBMiss := TLBMiss t + 1\<rparr>"
  define q where "q = rule_addr P ?a u"
  have U: "tlb_ok (TLB_SIZE P) (OS_PAGE_SHIFT P) (unat v) pa u" "tlb_regs v tp u" using I(1,2) by (simp_all add: u_def tlb_ok_def tlb_regs_def)
  have "remap now1 ?a t = Some (- 1, u)" using assms(6) R(2,3) by (simp add: remap_def u_def Let_def)
  moreover have "refillTLB_timing P True ?a u = Some (True, u\<lparr>pending_refills := [q]\<rparr>)"
    using rule_addr_page(2) [OF refl R(1,2) assms(2)] R(4) by (simp add: refillTLB_timing_def pending_refill_def q_def u_def)
  ultimately have s1: "recvTimingReq P now1 mem True pkt t = Some (Refused pkt, u\<lparr>pending_refills := [q]\<rparr>)"
    using assms(3-5) plain_command [OF assms(3), of t] by (simp add: recvTimingReq_def plain_def with_cmd_def Let_def)
  have "u\<lparr>pending_refills := []\<rparr> = u" using U(2) by (simp add: tlb_regs_def)
  then have rp: "remove_pending_refill q (u\<lparr>pending_refills := [q]\<rparr>) = Some u" by (simp add: remove_pending_refill_def pending_refill_def)
  from table_update_ok [OF U refl I(3,4) assms(2) q_def, where now = now2] obtain t2 i
    where t2: "updateTLB P now2 (ucast (mem q)) (ucast (mem (q + 4))) (ucast (mem (q + 8))) u = Some t2" "tlb_ok (TLB_SIZE P) (OS_PAGE_SHIFT P) (unat v) pa t2" "tlb_regs v tp t2"
      "find_range (originalRanges t2) ?a = Some i" by auto
  have s2: "recvTimingResp P now2 mem q (u\<lparr>pending_refills := [q]\<rparr>) = Some t2" using rp t2(1) by (simp add: recvTimingResp_def)
  from remap_hit [OF t2(2) F assms(2) t2(4,3), where now = now3] obtain x t3
    where x: "remap now3 ?a t2 = Some (x, t3)" "x \<noteq> - 1" "unat x = page_addr (OS_PAGE_SHIFT P) (unat v) pa (unat ?a)" "tlb_ok (TLB_SIZE P) (OS_PAGE_SHIFT P) (unat v) pa t3" "tlb_regs v tp t3" by blast
  have s3: "recvTimingReq P now3 mem True pkt t2 = Some (Sent x None, t3)"
    using assms(3,4) plain_command [OF assms(3), of t2] x(1,2) by (simp add: recvTimingReq_def plain_def with_cmd_def send_remapped_def Let_def)
  have "tlb_inv P mem v pa tp tab t2" "tlb_inv P mem v pa tp tab t3" using t2(2,3) x(4,5) I(3,4) by (simp_all add: tlb_inv_def)
  then show ?thesis using s1 s2 s3 x(3) by (intro exI conjI) (assumption | simp)+
qed

theorem timing_miss_progress_witness:
  "\<exists>t1 q t2 t3. recvTimingReq (params_of 2\<lparr>IDEAL_REFILL := False\<rparr>) 1 (mem_of 0x80000 ex_table) True (read_at 0x5004) (tlb_of 0x80000 0x4000) = Some (Refused (read_at 0x5004), t1) \<and>
     recvTimingResp (params_of 2\<lparr>IDEAL_REFILL := False\<rparr>) 2 (mem_of 0x80000 ex_table) q t1 = Some t2 \<and>
     recvTimingReq (params_of 2\<lparr>IDEAL_REFILL := False\<rparr>) 3 (mem_of 0x80000 ex_table) True (read_at 0x5004) t2 = Some (Sent 0x6004 None, t3)"
proof -
  let ?P = "params_of 2\<lparr>IDEAL_REFILL := False\<rparr>"
  have "tlb_inv ?P (mem_of 0x80000 ex_table) 0x4000 ex_pages 0x80000 ex_table (tlb_of 0x80000 0x4000)" using ex_inv by (simp add: tlb_inv_def)
  moreover have "in_pages (OS_PAGE_SHIFT ?P) (unat (0x4000 :: u32)) ex_pages (pkt_addr (read_at 0x5004))" by (simp add: in_pages_def params_of_def ex_pages_def read_at_def)
  moreover have "plain ?P (read_at 0x5004)" "\<not> is_remapped (read_at 0x5004)" "\<not> IDEAL_REFILL ?P" "find_range (originalRanges (tlb_of 0x80000 0x4000)) (pkt_addr (read_at 0x5004)) = None"
    by (simp_all add: plain_def read_at_def params_of_def tlb_of_def)
  ultimately obtain t1 q t2 x t3 where r: "recvTimingReq ?P 1 (mem_of 0x80000 ex_table) True (read_at 0x5004) (tlb_of 0x80000 0x4000) = Some (Refused (read_at 0x5004), t1)"
    "recvTimingResp ?P 2 (mem_of 0x80000 ex_table) q t1 = Some t2" "recvTimingReq ?P 3 (mem_of 0x80000 ex_table) True (read_at 0x5004) t2 = Some (Sent x None, t3)"
    "unat x = page_addr (OS_PAGE_SHIFT ?P) (unat (0x4000 :: u32)) ex_pages (unat (pkt_addr (read_at 0x5004)))"
    using timing_miss_progress [of ?P "mem_of 0x80000 ex_table" "0x4000" ex_pages "0x80000" ex_table "tlb_of 0x80000 0x4000" "read_at 0x5004" 1 2 3] by blast
  have "x = 0x6004" using r(4) by (simp add: page_addr_def params_of_def ex_pages_def read_at_def word_unat_eq_iff)
  then show ?thesis using r(1-3) by blast
qed

subsection \<open>Defects\<close>

lemma updateTLB_head:
  assumes "tlb_ok n sh v pa t" "updateTLB P now a p m t = Some t'"
  shows "originalRanges t' \<noteq> []" "hd (originalRanges t') = hd (originalRanges t)" "hd (remappedRanges t') = hd (remappedRanges t)"
proof -
  obtain t1 where t1: "evict_lru (TLB_SIZE P) t = Some t1" "originalRanges t' = originalRanges t1 @ [AddrRange a (a + m - 1)]" "remappedRanges t' = remappedRanges t1 @ [AddrRange p (p + m - 1)]"
    using assms(2) by (auto simp: updateTLB_def split: bind_splits)
  have ne: "originalRanges t \<noteq> []" "remappedRanges t \<noteq> []" "length (lastUsed t) = length (originalRanges t)" using assms(1) by (simp_all add: tlb_ok_def)
  note mi = lru_index_bounds [of "drop 1 (lastUsed t)" 1 "lastUsed t ! 1" 1]
  define k where "k = lru_index (drop 1 (lastUsed t)) 1 (lastUsed t ! 1) 1"
  have k: "0 < k" using mi unfolding k_def [symmetric] by auto
  have "originalRanges t1 \<noteq> [] \<and> hd (originalRanges t1) = hd (originalRanges t) \<and> remappedRanges t1 \<noteq> [] \<and> hd (remappedRanges t1) = hd (remappedRanges t)"
    using t1(1) ne erase_simps [OF k, of "originalRanges t"] erase_simps [OF k, of "remappedRanges t"] unfolding evict_lru_def k_def [symmetric] Let_def
    by (auto split: if_splits)
  then show "originalRanges t' \<noteq> []" "hd (originalRanges t') = hd (originalRanges t)" "hd (remappedRanges t') = hd (remappedRanges t)" using t1(2,3) by auto
qed

lemma remap_first:
  assumes "originalRanges t \<noteq> []" "remappedRanges t \<noteq> []" "contains (hd (originalRanges t)) a" "remap now a t = Some (x, t')"
  shows "x = a - r_start (hd (originalRanges t)) + r_start (hd (remappedRanges t))"
proof -
  have "find_range (originalRanges t) a = Some 0" using assms(1,3) by (cases "originalRanges t") auto
  then show ?thesis using assms by (simp add: remap_def apply_rule_def Let_def hd_conv_nth)
qed

text \<open>
  C28. An atomic increment whose target misses in the TLB: in timing mode with ideal refill the command is sent to the physical address of the target, but in atomic mode the
  refill and the second translation use the address of the command register, so that either an assertion fails (when the register is below the pages) or the command is sent to the
  register itself and the target is never updated.
\<close>

theorem hmc_miss_atomic:
  assumes "tlb_inv P mem v pa tp tab t" and "in_pages (OS_PAGE_SHIFT P) (unat v) pa (ucast (pkt_data pkt))"
    and "find_range (originalRanges t) (ucast (pkt_data pkt)) = None" and "pkt_data pkt \<noteq> 0"
    and "pkt_addr pkt = HMC_ATOMIC_INCR P" and "is_write pkt" and "\<not> is_remapped pkt" and "IDEAL_REFILL P"
    and "HMC_ATOMIC_INCR P \<notin> {0, PIM_DTLB_IDEAL_REFILL_REG P, HMC_OPERAND P}" and "contains (hd (originalRanges t)) (HMC_ATOMIC_INCR P)"
  shows "(\<exists>x t'. recvTimingReq P now mem True pkt t = Some (Sent x (Some HMC_CMD_INC), t') \<and> unat x = page_addr (OS_PAGE_SHIFT P) (unat v) pa (unat (pkt_data pkt))) \<and>
    (HMC_ATOMIC_INCR P < slicevstart t \<longrightarrow> recvAtomic P now mem pkt t = None) \<and>
    (\<forall>r t'. recvAtomic P now mem pkt t = Some (r, t') \<longrightarrow>
       r = Sent (HMC_ATOMIC_INCR P - r_start (hd (originalRanges t)) + r_start (hd (remappedRanges t))) (Some HMC_CMD_INC))"
proof -
  let ?g = "ucast (pkt_data pkt) :: u64"
  have g0: "?g \<noteq> 0" using assms(4) by (metis unat_ucast_64 unat_eq_zero)
  have cmd: "check_hmc_command P pkt t = (?g, Some HMC_CMD_INC, t)" using assms(5,6,9) g0 by (simp add: check_hmc_command_def Let_def)
  from remap_miss [OF assms(1,2,3), where now = now] obtain t1 t2 x t3 where r: "remap now ?g t = Some (- 1, t1)" "refillTLB_atomic P now mem ?g t1 = Some t2"
    "remap now ?g t2 = Some (x, t3)" "x \<noteq> - 1" "unat x = page_addr (OS_PAGE_SHIFT P) (unat v) pa (unat ?g)" by blast
  have "recvTimingReq P now mem True pkt t = Some (Sent x (Some HMC_CMD_INC), t3)"
    using assms(5,7,8,9) cmd r g0 by (simp add: recvTimingReq_def refill_functional_atomic send_remapped_def with_cmd_def Let_def)
  moreover have t1: "t1 = t\<lparr>TLBAccess := TLBAccess t + 1, TLBMiss := TLBMiss t + 1\<rparr>" using r(1) assms(3) by (auto simp: remap_def Let_def split: if_splits)
  have step: "recvAtomic P now mem pkt t = (do { t2 \<leftarrow> refillTLB_atomic P now mem (HMC_ATOMIC_INCR P) t1; (y, t3) \<leftarrow> remap now (HMC_ATOMIC_INCR P) t2;
      if y = - 1 then None else Some (Sent y (Some HMC_CMD_INC), t3) })"
    using assms(5,9) cmd r(1) g0 by (auto simp: recvAtomic_def with_cmd_def split: bind_splits)
  have T: "tlb_ok (TLB_SIZE P) (OS_PAGE_SHIFT P) (unat v) pa t1" "remappedRanges t1 \<noteq> []" using assms(1) by (simp_all add: tlb_inv_def t1 tlb_ok_def)
  have "r = Sent (HMC_ATOMIC_INCR P - r_start (hd (originalRanges t)) + r_start (hd (remappedRanges t))) (Some HMC_CMD_INC)"
    if "recvAtomic P now mem pkt t = Some (r, t')" for r t'
  proof -
    from that obtain u y where u: "refillTLB_atomic P now mem (HMC_ATOMIC_INCR P) t1 = Some u" "remap now (HMC_ATOMIC_INCR P) u = Some (y, t')" "r = Sent y (Some HMC_CMD_INC)"
      unfolding step by (auto split: bind_splits if_splits)
    obtain a p m where m: "updateTLB P now a p m t1 = Some u" using u(1) by (auto simp: refillTLB_atomic_def Let_def split: if_splits)
    note h = updateTLB_head [OF T(1) m]
    have "remappedRanges u \<noteq> []" using m by (auto simp: updateTLB_def split: bind_splits)
    then show ?thesis using remap_first [OF h(1) _ _ u(2)] h(2,3) assms(10) u(3) by (simp add: t1)
  qed
  moreover have "recvAtomic P now mem pkt t = None" if "HMC_ATOMIC_INCR P < slicevstart t" using that by (simp add: step refillTLB_atomic_def t1)
  ultimately show ?thesis using r(5) unat_ucast_64 [of "pkt_data pkt"] by auto
qed

theorem hmc_miss_atomic_witness:
  "\<exists>t'. recvTimingReq (params_of 2) 1 (mem_of 0x80000 ex_table) True \<lparr>pkt_addr = 0x104, is_write = True, pkt_data = 0x4010, pkt_hmc = None, is_remapped = False\<rparr>
       (tlb_of 0x80000 0x4000) = Some (Sent 0x5010 (Some HMC_CMD_INC), t') \<and>
     recvAtomic (params_of 2) 1 (mem_of 0x80000 ex_table) \<lparr>pkt_addr = 0x104, is_write = True, pkt_data = 0x4010, pkt_hmc = None, is_remapped = False\<rparr>
       (tlb_of 0x80000 0x4000) = None"
proof -
  let ?k = "\<lparr>pkt_addr = 0x104, is_write = True, pkt_data = 0x4010, pkt_hmc = None, is_remapped = False\<rparr>"
  have "in_pages (OS_PAGE_SHIFT (params_of 2)) (unat (0x4000 :: u32)) ex_pages (ucast (pkt_data ?k))" by (simp add: in_pages_def params_of_def ex_pages_def)
  moreover have "find_range (originalRanges (tlb_of 0x80000 0x4000)) (ucast (pkt_data ?k)) = None" by (simp add: tlb_of_def)
  ultimately have "(\<exists>x t'. recvTimingReq (params_of 2) 1 (mem_of 0x80000 ex_table) True ?k (tlb_of 0x80000 0x4000) = Some (Sent x (Some HMC_CMD_INC), t') \<and>
      unat x = page_addr 12 0x4000 ex_pages 0x4010) \<and> recvAtomic (params_of 2) 1 (mem_of 0x80000 ex_table) ?k (tlb_of 0x80000 0x4000) = None"
    using hmc_miss_atomic [OF ex_inv, of ?k 1] by (simp add: params_of_def tlb_of_def)
  then show ?thesis by (auto simp: page_addr_def ex_pages_def word_unat_eq_iff)
qed

text \<open>
  C27. A TLB that starts with two fixed rules, as the configuration of the multi-PIM system with the vault as second rule, has no time stamp for the second: the first
  access that the second rule translates, one to the vault, writes outside \<open>lastUsed\<close>.
\<close>

theorem second_rule_unstamped:
  assumes "ethz_TLB [r1, r2] [q1, q2] vstart = Some t" and "contains r2 a" and "\<not> contains r1 a"
  shows "remap_check a t = a - r_start r2 + r_start q2 \<and> remap now a t = None"
proof -
  have t: "originalRanges t = [r1, r2]" "remappedRanges t = [q1, q2]" "lastUsed t = [- 1]" using assms(1) by (auto simp: ethz_TLB_def RangeAddrMapper_def Let_def bind_eq_Some_conv split: if_splits)
  have "find_range (originalRanges t) a = Some 1" using assms(2,3) by (simp add: t)
  then show ?thesis by (simp add: remap_check_def apply_rule_def remap_def t Let_def)
qed

theorem second_rule_unstamped_witness:
  "\<exists>t. ethz_TLB [AddrRange 0 0xFFF, AddrRange 0xC0000000 0xC7FFFFFF] [AddrRange 0x80000000 0x80000FFF, AddrRange 0x40000000 0x47FFFFFF] 0 = Some t \<and>
    remap 5 0xC0000010 t = None"
proof -
  obtain t where t: "ethz_TLB [AddrRange 0 0xFFF, AddrRange 0xC0000000 0xC7FFFFFF] [AddrRange 0x80000000 0x80000FFF, AddrRange 0x40000000 0x47FFFFFF] 0 = Some t"
    by (simp add: ethz_TLB_def RangeAddrMapper_def)
  show ?thesis using t second_rule_unstamped [OF t, of "0xC0000010" 5] by simp
qed

end
