(* ===== verification/PIM_DMA.thy ===== *)
theory PIM_DMA
  imports PIM_TLB PIM_Requests
begin

text \<open>
  The DMA engine of the PIM device (\<open>dev/ethz_dma.cc\<close>): a list of requests and a state machine that splits the request it serves
  at the borders of slices. A step that may refill the TLB works on the pair of engine and TLB; \<open>actions\<close> lists what was handed
  to the port: direction, physical address, number of bytes and position in the vector registers. \<open>None\<close> is a panic, a failed assertion or an access outside a
  vector.
\<close>

datatype dma_state = DMA_STATE_IDLE | DMA_STATE_TLBREFILL | DMA_STATE_TRANSFER

record dma_request =
  vreg_ptr :: u64
  mem_vstart :: u64
  mem_vend :: u64
  dma_resource :: u8
  RW :: bool
  mem_pstart :: "u64 list"
  mem_pend :: "u64 list"
  bytes_expected :: u64
  bytes_completed :: u64
  issued :: bool

record dma =
  requests :: "dma_request list"
  current_index :: "nat option"
  current_state :: dma_state
  next_state_scheduled :: bool
  dma_resources :: u8
  dma_status :: u8
  free_events :: nat
  actions :: "(bool \<times> u64 \<times> u64 \<times> u64) list"
  interrupt :: bool

definition maxOutstandingDma :: nat where "maxOutstandingDma = 16"

definition ethz_DMA :: dma where
  "ethz_DMA = \<lparr>requests = [], current_index = None, current_state = DMA_STATE_IDLE, next_state_scheduled = False, dma_resources = 0, dma_status = 0,
     free_events = maxOutstandingDma, actions = [], interrupt = False\<rparr>"

definition DMARequest :: "u64 \<Rightarrow> u64 \<Rightarrow> u64 \<Rightarrow> bool \<Rightarrow> u8 \<Rightarrow> dma_request" where
  "DMARequest vreg start num_bytes dir res =
     \<lparr>vreg_ptr = vreg, mem_vstart = start, mem_vend = start + num_bytes - 1, dma_resource = res, RW = dir, mem_pstart = [], mem_pend = [],
      bytes_expected = num_bytes, bytes_completed = 0, issued = False\<rparr>"

definition nextSubRequest :: "u64 \<Rightarrow> dma_request \<Rightarrow> (bool \<times> dma_request) option" where
  "nextSubRequest vaddr r =
     (if vaddr < mem_vstart r then None
      else if vaddr \<ge> mem_vend r then Some (False, r)
      else let diff = vaddr - mem_vstart r in Some (True, r\<lparr>mem_vstart := mem_vstart r + diff, vreg_ptr := vreg_ptr r + diff\<rparr>))"

fun first_unissued :: "dma_request list \<Rightarrow> nat option" where
  "first_unissued [] = None"
| "first_unissued (r # rs) = (if \<not> issued r then Some 0 else map_option Suc (first_unissued rs))"

definition set_request :: "nat \<Rightarrow> dma_request \<Rightarrow> dma \<Rightarrow> dma" where
  "set_request i r d = d\<lparr>requests := (requests d)[i := r]\<rparr>"

definition idle_step :: "dma \<Rightarrow> dma" where
  "idle_step d =
     (if requests d = [] then d
      else case first_unissued (requests d) of
             None \<Rightarrow> d\<lparr>current_index := None\<rparr>
           | Some i \<Rightarrow> d\<lparr>current_index := Some i, current_state := DMA_STATE_TLBREFILL\<rparr>)"

definition refill_step :: "bool \<Rightarrow> tlb_params \<Rightarrow> u64 \<Rightarrow> (u64 \<Rightarrow> u32) \<Rightarrow> nat \<Rightarrow> dma \<Rightarrow> tlb \<Rightarrow> (dma \<times> tlb) option" where
  "refill_step timing P now mem i d t =
     (let r = (requests d ! i)\<lparr>issued := True\<rparr>; d1 = set_request i r d
      in if mem_vstart r < mem_vend r then
           do { t1 \<leftarrow> (if remap_check (mem_vstart r) t = - 1 then (if timing then refillTLB_functional else refillTLB_atomic) P now mem (mem_vstart r) t else Some t);
                Some (d1\<lparr>current_state := DMA_STATE_TRANSFER\<rparr>, t1) }
         else Some (d1\<lparr>current_state := DMA_STATE_IDLE\<rparr>, t))"

definition transfer_step :: "nat \<Rightarrow> dma \<Rightarrow> tlb \<Rightarrow> dma option" where
  "transfer_step i d t =
     do { let r = requests d ! i;
          let pstart = remap_check (mem_vstart r) t;
          se \<leftarrow> slice_vend (mem_vstart r) t;
          let vend = (if se > mem_vend r then mem_vend r else se);
          let pend = remap_check vend t;
          if pend - pstart \<noteq> vend - mem_vstart r \<or> free_events d = 0 then None
          else do { let r1 = r\<lparr>mem_pstart := mem_pstart r @ [pstart], mem_pend := mem_pend r @ [pend]\<rparr>;
                    (more_left, r2) \<leftarrow> nextSubRequest (vend + 1) r1;
                    Some ((set_request i r2 d)\<lparr>free_events := free_events d - 1,
                            actions := actions d @ [(RW r, pstart, pend - pstart + 1, vreg_ptr r)],
                            current_state := (if more_left then DMA_STATE_TLBREFILL else DMA_STATE_IDLE)\<rparr>) } }"

definition nextState :: "bool \<Rightarrow> tlb_params \<Rightarrow> u64 \<Rightarrow> (u64 \<Rightarrow> u32) \<Rightarrow> dma \<times> tlb \<Rightarrow> (dma \<times> tlb) option" where
  "nextState timing P now mem = (\<lambda>(d0, t).
     do { let act = (requests d0 \<noteq> []);
          let d = (if act then d0 else d0\<lparr>current_state := DMA_STATE_IDLE, current_index := None\<rparr>);
          (d1, t1) \<leftarrow> (case current_state d of
             DMA_STATE_IDLE \<Rightarrow> Some (idle_step d, t)
           | DMA_STATE_TLBREFILL \<Rightarrow>
               (case current_index d of Some i \<Rightarrow> if i < length (requests d) then refill_step timing P now mem i d t else None | None \<Rightarrow> None)
           | DMA_STATE_TRANSFER \<Rightarrow>
               (case current_index d of Some i \<Rightarrow> if i < length (requests d) then do { d1 \<leftarrow> transfer_step i d t; Some (d1, t) } else None | None \<Rightarrow> None));
          Some (if act then d1\<lparr>next_state_scheduled := True\<rparr> else d1\<lparr>next_state_scheduled := False, interrupt := True\<rparr>, t1) })"

definition update_status_register :: "dma \<Rightarrow> dma" where
  "update_status_register d = d\<lparr>dma_status := dma_resources d\<rparr>"

unbundle bit_operations_syntax

definition initiate_read :: "bool \<Rightarrow> tlb_params \<Rightarrow> u64 \<Rightarrow> (u64 \<Rightarrow> u32) \<Rightarrow> u64 \<Rightarrow> u64 \<Rightarrow> u64 \<Rightarrow> u8 \<Rightarrow> dma \<times> tlb \<Rightarrow> (dma \<times> tlb) option" where
  "initiate_read timing P now mem vreg vaddr n res = (\<lambda>(d, t).
     if res = 0 \<or> dma_resources d AND res \<noteq> 0 then None
     else let d1 = update_status_register (d\<lparr>dma_resources := dma_resources d OR res\<rparr>);
              d2 = d1\<lparr>requests := DMARequest vreg vaddr n True res # requests d1\<rparr>
          in if next_state_scheduled d2 then Some (d2, t) else nextState timing P now mem (d2\<lparr>next_state_scheduled := True\<rparr>, t))"

definition initiate_write :: "bool \<Rightarrow> tlb_params \<Rightarrow> u64 \<Rightarrow> (u64 \<Rightarrow> u32) \<Rightarrow> u64 \<Rightarrow> u64 \<Rightarrow> u64 \<Rightarrow> u8 \<Rightarrow> dma \<times> tlb \<Rightarrow> (dma \<times> tlb) option" where
  "initiate_write timing P now mem vreg vaddr n res = (\<lambda>(d, t).
     if res = 0 \<or> dma_resources d AND res \<noteq> 0 then None
     else let d1 = update_status_register (d\<lparr>dma_resources := dma_resources d OR res\<rparr>);
              d2 = d1\<lparr>requests := DMARequest vreg vaddr n False res # requests d1\<rparr>
          in if next_state_scheduled d2 then Some (d2, t) else nextState timing P now mem (d2\<lparr>next_state_scheduled := True\<rparr>, t))"

definition wait_on_resource :: "u8 \<Rightarrow> dma \<Rightarrow> dma option" where
  "wait_on_resource res d = (if res = 0xFF then Some (d\<lparr>interrupt := False\<rparr>) else None)"

text \<open>The completion event of a transfer.\<close>

definition dmaDone :: "dma \<Rightarrow> dma" where
  "dmaDone d = d\<lparr>free_events := free_events d + 1\<rparr>"

definition matches :: "u64 \<Rightarrow> dma_request \<Rightarrow> nat" where
  "matches a r = length (filter (\<lambda>(s, e). s \<le> a \<and> a \<le> e) (zip (mem_pstart r) (mem_pend r)))"

definition handle_packet :: "u64 \<Rightarrow> u64 \<Rightarrow> bool \<Rightarrow> dma \<Rightarrow> dma option" where
  "handle_packet a n suspended d =
     (if (\<Sum>r \<leftarrow> requests d. matches a r) \<noteq> 1 then None
      else case find (\<lambda>i. matches a (requests d ! i) = 1) [0..<length (requests d)] of
             None \<Rightarrow> None
           | Some i \<Rightarrow>
               let r = (requests d ! i)\<lparr>bytes_completed := bytes_completed (requests d ! i) + n\<rparr>
               in if bytes_completed r > bytes_expected r then None
                  else if bytes_completed r = bytes_expected r then
                    (if dma_resources d AND dma_resource r = 0 then None
                     else let d1 = update_status_register (d\<lparr>dma_resources := dma_resources d AND NOT (dma_resource r), interrupt := interrupt d \<or> suspended\<rparr>)
                          in Some (d1\<lparr>requests := erase i (requests d1)\<rparr>))
                  else Some (set_request i r d))"


subsection \<open>One request\<close>

text \<open>The steps of the state machine, each at its own time.\<close>

fun dma_steps :: "bool \<Rightarrow> tlb_params \<Rightarrow> (u64 \<Rightarrow> u32) \<Rightarrow> (nat \<Rightarrow> u64) \<Rightarrow> nat \<Rightarrow> dma \<times> tlb \<Rightarrow> (dma \<times> tlb) option" where
  "dma_steps timing P mem tick 0 s = Some s"
| "dma_steps timing P mem tick (Suc k) s = do { s1 \<leftarrow> nextState timing P (tick 0) mem s; dma_steps timing P mem (\<lambda>i. tick (Suc i)) k s1 }"

text \<open>Actions from the virtual address \<open>x\<close> up to but without \<open>y\<close>: each transfers bytes that are contiguous in physical memory, and the actions use
  consecutive positions of the vector registers.\<close>

fun acts_cover :: "nat \<Rightarrow> nat \<Rightarrow> u32 list \<Rightarrow> bool \<Rightarrow> nat \<Rightarrow> u64 \<Rightarrow> (bool \<times> u64 \<times> u64 \<times> u64) list \<Rightarrow> nat \<Rightarrow> bool" where
  "acts_cover sh v pa rw x vr [] y \<longleftrightarrow> x = y"
| "acts_cover sh v pa rw x vr ((d, p, n, w) # as) y \<longleftrightarrow> d = rw \<and> w = vr \<and> 0 < n \<and>
     (\<forall>i < unat n. page_addr sh v pa (x + i) = unat p + i) \<and> acts_cover sh v pa rw (x + unat n) (vr + n) as y"

lemma rule_to_end:
  assumes R: "page_rule sh v pa q r" and F: "pages_fit sh v pa" and C: "contains q a"
  shows "unat a \<le> unat (r_end q)" "in_pages sh v pa (r_end q)" "(unat (r_end q) + 1 - v) mod 2 ^ sh = 0"
    "unat a \<le> x \<Longrightarrow> x \<le> unat (r_end q) \<Longrightarrow> page_addr sh v pa x = page_addr sh v pa (unat a) + (x - unat a)"
proof -
  let ?P = "2 ^ sh :: nat"
  from R obtain b c where bc: "0 < c" "b + c \<le> length pa" "unat (r_start q) = v + ?P * b" "unat (r_end q) = v + ?P * (b + c) - 1" "\<not> interleaved q"
    unfolding page_rule_def by blast
  have a: "unat (r_start q) \<le> unat a" "unat a \<le> unat (r_end q)" using C by (simp_all add: contains_def word_le_nat_alt)
  then show "unat a \<le> unat (r_end q)" by simp
  show "in_pages sh v pa (r_end q)" using page_rule_addr(3,4) [OF R order.trans [OF a] order.refl] by (simp add: in_pages_def)
  have "0 < ?P * (b + c)" using bc(1) by simp
  then have "unat (r_end q) + 1 - v = ?P * (b + c)" using bc(4) by linarith
  then show "(unat (r_end q) + 1 - v) mod ?P = 0" by simp
  show "page_addr sh v pa x = page_addr sh v pa (unat a) + (x - unat a)" if h: "unat a \<le> x" "x \<le> unat (r_end q)"
    using page_rule_addr(1) [OF R order.trans [OF a(1) h(1)] h(2)] page_rule_addr(1) [OF R a] a(1) h(1) by simp
qed

text \<open>The part of a request that the rule of its first address covers.\<close>

lemma slice_part:
  assumes T: "tlb_ok n sh v pa t" and F: "pages_fit sh v pa" and a: "in_pages sh v pa a" and h: "find_range (originalRanges t) a = Some i"
  shows "\<exists>e. slice_vend a t = Some e \<and> unat a \<le> unat e \<and> in_pages sh v pa e \<and> (unat e + 1 - v) mod 2 ^ sh = 0 \<and>
    (\<forall>x. unat a \<le> x \<longrightarrow> x \<le> unat e \<longrightarrow> page_addr sh v pa x = page_addr sh v pa (unat a) + (x - unat a)) \<and>
    (\<forall>x. unat a \<le> unat x \<longrightarrow> unat x \<le> unat e \<longrightarrow> unat (remap_check x t) = page_addr sh v pa (unat x))"
proof -
  let ?q = "originalRanges t ! i"
  note r = tlb_ok_rule(3,4) [OF T a h]
  note e = rule_to_end [OF r(1) F r(2)]
  have ni: "\<not> interleaved ?q" using r(1) by (simp add: page_rule_def)
  have s: "slice_vend a t = Some (r_end ?q)" using ni by (simp add: slice_vend_def h range_size_def interleaved_def)
  have c: "unat (remap_check x t) = page_addr sh v pa (unat x)" if "unat a \<le> unat x" "unat x \<le> unat (r_end ?q)" for x
  proof -
    have cx: "contains ?q x" using that r(2) ni by (auto simp: contains_def word_le_nat_alt)
    then have x: "in_pages sh v pa x" by (rule page_rule_sound(3) [OF r(1) F])
    have "?q \<in> set (originalRanges t)" using find_range_Some [OF h] by simp
    then obtain j where j: "find_range (originalRanges t) x = Some j" using cx find_range_None [of "originalRanges t" x] by auto
    then show ?thesis using apply_rule_sound(1) [OF T F x j] by (simp add: remap_check_def)
  qed
  show ?thesis using s e(1-3) c e(4) by (intro exI [of _ "r_end ?q"]) blast
qed

lemma refill_step_ok:
  assumes I: "tlb_inv P mem v pa tp tab t" and a: "in_pages (OS_PAGE_SHIFT P) (unat v) pa (mem_vstart r)" and r: "requests d ! i = r" "i < length (requests d)"
    and s: "current_state d = DMA_STATE_TLBREFILL" "current_index d = Some i" and l: "mem_vstart r < mem_vend r"
  shows "\<exists>t' j. nextState timing P now mem (d, t) =
      Some ((set_request i (r\<lparr>issued := True\<rparr>) d)\<lparr>current_state := DMA_STATE_TRANSFER, next_state_scheduled := True\<rparr>, t') \<and>
    tlb_inv P mem v pa tp tab t' \<and> find_range (originalRanges t') (mem_vstart r) = Some j"
proof -
  have ne: "requests d \<noteq> []" using r(2) by auto
  have T: "tlb_ok (TLB_SIZE P) (OS_PAGE_SHIFT P) (unat v) pa t" "tlb_regs v tp t" "holds_table mem tp tab" "table_of (OS_PAGE_SHIFT P) v pa tab"
    using I by (simp_all add: tlb_inv_def)
  have F: "pages_fit (OS_PAGE_SHIFT P) (unat v) pa" using T(4) by (simp add: table_of_def)
  have "\<exists>t' j. (if remap_check (mem_vstart r) t = - 1 then (if timing then refillTLB_functional else refillTLB_atomic) P now mem (mem_vstart r) t else Some t) = Some t' \<and>
    tlb_inv P mem v pa tp tab t' \<and> find_range (originalRanges t') (mem_vstart r) = Some j"
  proof (cases "find_range (originalRanges t) (mem_vstart r)")
    case (Some j)
    then show ?thesis using apply_rule_sound(2) [OF T(1) F a Some] I by (simp add: remap_check_def)
  next
    case None
    then show ?thesis using refill_ok [OF T(1,2) refl T(3,4) a, where now = now] T(3,4)
      by (auto simp: remap_check_def refill_functional_atomic tlb_inv_def)
  qed
  then obtain t' j where t': "(if remap_check (mem_vstart r) t = - 1 then (if timing then refillTLB_functional else refillTLB_atomic) P now mem (mem_vstart r) t else Some t) = Some t'"
    "tlb_inv P mem v pa tp tab t'" "find_range (originalRanges t') (mem_vstart r) = Some j" by blast
  have "nextState timing P now mem (d, t) = Some ((set_request i (r\<lparr>issued := True\<rparr>) d)\<lparr>current_state := DMA_STATE_TRANSFER, next_state_scheduled := True\<rparr>, t')"
    using ne r s l t'(1) by (simp add: nextState_def refill_step_def Let_def split: if_splits)
  then show ?thesis using t'(2,3) by blast
qed

lemma transfer_step_ok:
  assumes I: "tlb_inv P mem v pa tp tab t" and a: "in_pages (OS_PAGE_SHIFT P) (unat v) pa (mem_vstart r)" and r: "requests d ! i = r" "i < length (requests d)"
    and s: "current_state d = DMA_STATE_TRANSFER" "current_index d = Some i" and l: "mem_vstart r < mem_vend r" and f: "0 < free_events d"
    and h: "find_range (originalRanges t) (mem_vstart r) = Some j"
  shows "\<exists>p n. nextState timing P now mem (d, t) =
      Some ((set_request i (let r1 = r\<lparr>mem_pstart := mem_pstart r @ [p], mem_pend := mem_pend r @ [p + n - 1]\<rparr> in
               if unat (mem_vstart r) + unat n < unat (mem_vend r) then r1\<lparr>mem_vstart := mem_vstart r + n, vreg_ptr := vreg_ptr r + n\<rparr> else r1) d)
        \<lparr>free_events := free_events d - 1, actions := actions d @ [(RW r, p, n, vreg_ptr r)],
         current_state := (if unat (mem_vstart r) + unat n < unat (mem_vend r) then DMA_STATE_TLBREFILL else DMA_STATE_IDLE), next_state_scheduled := True\<rparr>, t) \<and>
    0 < n \<and> (\<forall>i<unat n. page_addr (OS_PAGE_SHIFT P) (unat v) pa (unat (mem_vstart r) + i) = unat p + i) \<and>
    (unat (mem_vstart r) + unat n = unat (mem_vend r) + 1 \<or>
     unat (mem_vstart r) + unat n \<le> unat (mem_vend r) \<and> (unat (mem_vstart r) + unat n - unat v) mod 2 ^ OS_PAGE_SHIFT P = 0)"
proof -
  let ?sh = "OS_PAGE_SHIFT P" and ?a = "mem_vstart r"
  have ne: "requests d \<noteq> []" using r(2) by auto
  have T: "tlb_ok (TLB_SIZE P) ?sh (unat v) pa t" "table_of ?sh v pa tab" using I by (simp_all add: tlb_inv_def)
  have F: "pages_fit ?sh (unat v) pa" using T(2) by (simp add: table_of_def)
  obtain e where e: "slice_vend ?a t = Some e" "unat ?a \<le> unat e" "in_pages ?sh (unat v) pa e" "(unat e + 1 - unat v) mod 2 ^ ?sh = 0"
    and e5: "\<forall>x. unat ?a \<le> x \<longrightarrow> x \<le> unat e \<longrightarrow> page_addr ?sh (unat v) pa x = page_addr ?sh (unat v) pa (unat ?a) + (x - unat ?a)"
    and e6: "\<forall>x. unat ?a \<le> unat x \<longrightarrow> unat x \<le> unat e \<longrightarrow> unat (remap_check x t) = page_addr ?sh (unat v) pa (unat x)"
    using slice_part [OF T(1) F a h] by (elim exE conjE) (rule that)
  define w where "w = (if e > mem_vend r then mem_vend r else e)"
  define p where "p = remap_check ?a t"
  have l': "unat ?a < unat (mem_vend r)" using l by (simp add: word_less_nat_alt)
  have w: "unat ?a \<le> unat w" "unat w \<le> unat e" "unat w \<le> unat (mem_vend r)" "w = mem_vend r \<or> w = e"
    using e(2) l' by (auto simp: w_def word_less_nat_alt)
  have up: "unat p = page_addr ?sh (unat v) pa (unat ?a)" unfolding p_def using e6 e(2) by blast
  have uw: "unat (remap_check w t) = unat p + (unat w - unat ?a)" using e6 [rule_format, OF w(1,2)] e5 [rule_format, OF w(1,2)] up by simp
  have rw: "remap_check w t = p + (w - ?a)"
  proof -
    have "(of_nat (unat (remap_check w t)) :: u64) = of_nat (unat p) + of_nat (unat w - unat ?a)" unfolding uw by (rule of_nat_add)
    then show ?thesis using w(1) by (simp add: of_nat_diff)
  qed
  have fit: "unat e < 2 ^ 32" using e(3) F by (simp add: in_pages_def pages_fit_def)
  have n: "unat (w - ?a + 1) = unat w - unat ?a + 1"
  proof -
    have "unat (w - ?a) = unat w - unat ?a" using w(1) by (simp add: unat_sub word_le_nat_alt)
    moreover have "unat w - unat ?a + 1 < 2 ^ 64" using w(2) fit by simp
    ultimately show ?thesis using unat_add_u64 [of "w - ?a" 1] by simp
  qed
  have w1: "unat (w + 1) = unat w + 1" using unat_add_u64 [of w 1] w(2) fit by simp
  have sub: "nextSubRequest (w + 1) r1 = Some (unat w + 1 < unat (mem_vend r), if unat w + 1 < unat (mem_vend r) then r1\<lparr>mem_vstart := mem_vstart r + (w - ?a + 1), vreg_ptr := vreg_ptr r + (w - ?a + 1)\<rparr> else r1)"
    if "mem_vstart r1 = ?a" "mem_vend r1 = mem_vend r" "vreg_ptr r1 = vreg_ptr r" for r1
    using that w(1) w1 by (auto simp: nextSubRequest_def word_less_nat_alt word_le_nat_alt Let_def)
  have st: "unat ?a + unat (w - ?a + 1) = unat w + 1" unfolding n using w(1) by simp
  let ?n = "w - ?a + 1"
  let ?r1 = "r\<lparr>mem_pstart := mem_pstart r @ [p], mem_pend := mem_pend r @ [p + ?n - 1]\<rparr>"
  have pe: "p + (w - ?a) - p = w - ?a" "p + (w - ?a) = p + ?n - 1" by (simp_all add: algebra_simps)
  have ts: "transfer_step i d t = Some ((set_request i (if unat w + 1 < unat (mem_vend r) then ?r1\<lparr>mem_vstart := ?a + ?n, vreg_ptr := vreg_ptr r + ?n\<rparr> else ?r1) d)
      \<lparr>free_events := free_events d - 1, actions := actions d @ [(RW r, p, ?n, vreg_ptr r)],
       current_state := (if unat w + 1 < unat (mem_vend r) then DMA_STATE_TLBREFILL else DMA_STATE_IDLE)\<rparr>)"
    unfolding transfer_step_def Let_def r(1) e(1) p_def [symmetric] bind.bind_lunit w_def [symmetric] rw pe(1)
    using f sub [of ?r1] unfolding pe(2) by simp
  have step: "nextState timing P now mem (d, t) =
      Some ((set_request i (let r1 = r\<lparr>mem_pstart := mem_pstart r @ [p], mem_pend := mem_pend r @ [p + ?n - 1]\<rparr> in
               if unat ?a + unat ?n < unat (mem_vend r) then r1\<lparr>mem_vstart := mem_vstart r + ?n, vreg_ptr := vreg_ptr r + ?n\<rparr> else r1) d)
        \<lparr>free_events := free_events d - 1, actions := actions d @ [(RW r, p, ?n, vreg_ptr r)],
         current_state := (if unat ?a + unat ?n < unat (mem_vend r) then DMA_STATE_TLBREFILL else DMA_STATE_IDLE), next_state_scheduled := True\<rparr>, t)"
    unfolding st using ne r(2) s ts by (simp add: nextState_def)
  have c1: "unat ?a + unat ?n = unat (mem_vend r) + 1 \<or> unat ?a + unat ?n \<le> unat (mem_vend r) \<and> (unat ?a + unat ?n - unat v) mod 2 ^ ?sh = 0"
    unfolding st using w(3,4) e(4) by auto
  have c2: "0 < ?n" unfolding word_less_nat_alt n by simp
  have c3: "\<forall>i<unat ?n. page_addr ?sh (unat v) pa (unat ?a + i) = unat p + i"
  proof (intro allI impI)
    fix i assume "i < unat ?n"
    then have "unat ?a + i \<le> unat e" using w(1,2) unfolding n by linarith
    then show "page_addr ?sh (unat v) pa (unat ?a + i) = unat p + i" using e5 [rule_format, OF le_add1, of i] unfolding up by simp
  qed
  show ?thesis by (intro exI conjI) (rule step c2 c3 c1)+
qed

text \<open>A request that has been served up to its last bytes.\<close>

definition served :: "dma_request \<Rightarrow> u64 \<Rightarrow> u64 \<Rightarrow> (bool \<times> u64 \<times> u64 \<times> u64) list \<Rightarrow> dma_request" where
  "served r vs vr acts = r\<lparr>issued := True, mem_vstart := vs, vreg_ptr := vr, mem_pstart := mem_pstart r @ map (\<lambda>(_, p, _). p) acts,
     mem_pend := mem_pend r @ map (\<lambda>(_, p, n, _). p + n - 1) acts\<rparr>"

lemma served_more: "served (r\<lparr>issued := True, mem_pstart := mem_pstart r @ [p], mem_pend := mem_pend r @ [p + n - 1], mem_vstart := a, vreg_ptr := b\<rparr>) vs vr acts =
    served r vs vr ((w, p, n, c) # acts)"
  by (simp add: served_def)

lemma page_before:
  fixes x y v :: nat
  assumes "v \<le> x" "x < y" "(y - v) mod 2 ^ sh = 0"
  shows "(x - v) div 2 ^ sh < (y - v) div 2 ^ sh"
proof -
  have "2 ^ sh * ((y - v) div 2 ^ sh) = y - v" using assms(3) by (simp add: mod_0_imp_dvd)
  then show ?thesis using assms(1,2) by (metis diff_less_mono less_mult_imp_div_less mult.commute)
qed

lemma serve:
  assumes "tlb_inv P mem v pa tp tab t" and "in_pages (OS_PAGE_SHIFT P) (unat v) pa (mem_vstart r)" and "in_pages (OS_PAGE_SHIFT P) (unat v) pa (mem_vend r)"
    and "requests d ! i = r" "i < length (requests d)" and "current_state d = DMA_STATE_TLBREFILL" "current_index d = Some i" and "mem_vstart r < mem_vend r"
    and "(unat (mem_vend r) - unat v) div 2 ^ OS_PAGE_SHIFT P < (unat (mem_vstart r) - unat v) div 2 ^ OS_PAGE_SHIFT P + free_events d"
  shows "\<exists>k t' acts y vs vr. dma_steps timing P mem tick k (d, t) = Some ((set_request i (served r vs vr acts) d)\<lparr>free_events := free_events d - length acts,
      actions := actions d @ acts, current_state := DMA_STATE_IDLE, next_state_scheduled := True\<rparr>, t') \<and> tlb_inv P mem v pa tp tab t' \<and>
    acts_cover (OS_PAGE_SHIFT P) (unat v) pa (RW r) (unat (mem_vstart r)) (vreg_ptr r) acts y \<and>
    (y = unat (mem_vend r) + 1 \<and> page_addr (OS_PAGE_SHIFT P) (unat v) pa (unat (mem_vend r)) = page_addr (OS_PAGE_SHIFT P) (unat v) pa (unat (mem_vend r) - 1) + 1 \<or>
     y = unat (mem_vend r) \<and> (y - unat v) mod 2 ^ OS_PAGE_SHIFT P = 0)"
  using assms
proof (induction "unat (mem_vend r) - unat (mem_vstart r)" arbitrary: d t r tick rule: less_induct)
  case less
  let ?sh = "OS_PAGE_SHIFT P" and ?a = "mem_vstart r"
  let ?d1 = "(set_request i (r\<lparr>issued := True\<rparr>) d)\<lparr>current_state := DMA_STATE_TRANSFER, next_state_scheduled := True\<rparr>"
  obtain t1 j where s1: "nextState timing P (tick 0) mem (d, t) = Some (?d1, t1)" "tlb_inv P mem v pa tp tab t1" "find_range (originalRanges t1) ?a = Some j"
    using refill_step_ok [OF less.prems(1,2,4-8), where now = "tick 0"] by blast
  have d1: "requests ?d1 ! i = r\<lparr>issued := True\<rparr>" "i < length (requests ?d1)" "current_state ?d1 = DMA_STATE_TRANSFER" "current_index ?d1 = Some i" "free_events ?d1 = free_events d"
    using less.prems(5,7) by (simp_all add: set_request_def)
  have lt: "unat ?a < unat (mem_vend r)" using less.prems(8) by (simp add: word_less_nat_alt)
  have va: "unat v \<le> unat ?a" using less.prems(2) by (simp add: in_pages_def)
  then have "(unat ?a - unat v) div 2 ^ ?sh \<le> (unat (mem_vend r) - unat v) div 2 ^ ?sh" using lt by (simp add: div_le_mono)
  then have fe: "0 < free_events d" using less.prems(9) by linarith
  have "in_pages ?sh (unat v) pa (mem_vstart (r\<lparr>issued := True\<rparr>))" "mem_vstart (r\<lparr>issued := True\<rparr>) < mem_vend (r\<lparr>issued := True\<rparr>)" "0 < free_events ?d1"
    "find_range (originalRanges t1) (mem_vstart (r\<lparr>issued := True\<rparr>)) = Some j" using less.prems(2,8) fe s1(3) d1(5) by simp_all
  note ts = transfer_step_ok [OF s1(2) this(1) d1(1,2,3,4) this(2,3,4), where now = "tick 1" and timing = timing]
  let ?d2 = "\<lambda>p n. d\<lparr>requests := (requests d)[i := (if unat ?a + unat n < unat (mem_vend r)
      then r\<lparr>issued := True, mem_pstart := mem_pstart r @ [p], mem_pend := mem_pend r @ [p + n - 1], mem_vstart := ?a + n, vreg_ptr := vreg_ptr r + n\<rparr>
      else r\<lparr>issued := True, mem_pstart := mem_pstart r @ [p], mem_pend := mem_pend r @ [p + n - 1]\<rparr>)],
    free_events := free_events d - 1, actions := actions d @ [(RW r, p, n, vreg_ptr r)],
    current_state := (if unat ?a + unat n < unat (mem_vend r) then DMA_STATE_TLBREFILL else DMA_STATE_IDLE), next_state_scheduled := True\<rparr>"
  obtain p n where s2: "nextState timing P (tick 1) mem (?d1, t1) = Some (?d2 p n, t1)"
    and n: "0 < n" "\<forall>i<unat n. page_addr ?sh (unat v) pa (unat ?a + i) = unat p + i"
      "unat ?a + unat n = unat (mem_vend r) + 1 \<or> unat ?a + unat n \<le> unat (mem_vend r) \<and> (unat ?a + unat n - unat v) mod 2 ^ ?sh = 0"
    using ts by (elim exE conjE) (simp add: set_request_def Let_def cong: if_cong)
  have n0: "0 < unat n" using n(1) by (simp add: word_less_nat_alt)
  show ?case
  proof (cases "unat ?a + unat n < unat (mem_vend r)")
    case True
    let ?r = "r\<lparr>issued := True, mem_pstart := mem_pstart r @ [p], mem_pend := mem_pend r @ [p + n - 1], mem_vstart := ?a + n, vreg_ptr := vreg_ptr r + n\<rparr>"
    have "unat (mem_vend r) < 2 ^ LENGTH(64)" by (rule unsigned_less)
    then have u: "unat (?a + n) = unat ?a + unat n" using True by (intro unat_add_u64) simp
    have al: "(unat ?a + unat n - unat v) mod 2 ^ ?sh = 0" using n(3) True by simp
    have ve: "unat (mem_vend r) < unat v + 2 ^ ?sh * length pa" using less.prems(3) by (simp add: in_pages_def)
    have "(unat ?a - unat v) div 2 ^ ?sh < (unat ?a + unat n - unat v) div 2 ^ ?sh" using va n0 al by (intro page_before) simp_all
    then have fr: "(unat (mem_vend ?r) - unat v) div 2 ^ ?sh < (unat (mem_vstart ?r) - unat v) div 2 ^ ?sh + free_events (?d2 p n)"
      using less.prems(9) fe by (simp add: u)
    have m: "unat (mem_vend ?r) - unat (mem_vstart ?r) < unat (mem_vend r) - unat ?a" using True n0 by (simp add: u)
    have h: "in_pages ?sh (unat v) pa (mem_vstart ?r)" "in_pages ?sh (unat v) pa (mem_vend ?r)" "requests (?d2 p n) ! i = ?r" "i < length (requests (?d2 p n))"
      "current_state (?d2 p n) = DMA_STATE_TLBREFILL" "current_index (?d2 p n) = Some i" "mem_vstart ?r < mem_vend ?r"
      using True va ve less.prems(3,5,7) by (simp_all add: in_pages_def u word_less_nat_alt)
    obtain k t' acts y vs vr where k: "dma_steps timing P mem (\<lambda>i. tick (Suc (Suc i))) k (?d2 p n, t1) = Some ((set_request i (served ?r vs vr acts) (?d2 p n))
        \<lparr>free_events := free_events (?d2 p n) - length acts, actions := actions (?d2 p n) @ acts, current_state := DMA_STATE_IDLE, next_state_scheduled := True\<rparr>, t')"
      and k2: "tlb_inv P mem v pa tp tab t'" "acts_cover ?sh (unat v) pa (RW ?r) (unat (mem_vstart ?r)) (vreg_ptr ?r) acts y"
      "y = unat (mem_vend ?r) + 1 \<and> page_addr ?sh (unat v) pa (unat (mem_vend ?r)) = page_addr ?sh (unat v) pa (unat (mem_vend ?r) - 1) + 1 \<or>
       y = unat (mem_vend ?r) \<and> (y - unat v) mod 2 ^ ?sh = 0"
      using less.hyps [OF m s1(2) h fr, where tick = "\<lambda>i. tick (Suc (Suc i))"] by (elim exE conjE) (rule that)
    let ?as = "(RW r, p, n, vreg_ptr r) # acts"
    have eq: "(set_request i (served ?r vs vr acts) (?d2 p n))\<lparr>free_events := free_events (?d2 p n) - length acts, actions := actions (?d2 p n) @ acts,
        current_state := DMA_STATE_IDLE, next_state_scheduled := True\<rparr> = (set_request i (served r vs vr ?as) d)\<lparr>free_events := free_events d - length ?as,
        actions := actions d @ ?as, current_state := DMA_STATE_IDLE, next_state_scheduled := True\<rparr>"
      by (simp add: set_request_def served_def)
    have st: "dma_steps timing P mem tick (Suc (Suc k)) (d, t) = Some ((set_request i (served r vs vr ?as) d)\<lparr>free_events := free_events d - length ?as,
        actions := actions d @ ?as, current_state := DMA_STATE_IDLE, next_state_scheduled := True\<rparr>, t')"
      using s1(1) s2 k unfolding eq by simp
    have c: "acts_cover ?sh (unat v) pa (RW r) (unat ?a) (vreg_ptr r) ?as y" using k2(2) n(1,2) by (simp add: u)
    have y: "y = unat (mem_vend r) + 1 \<and> page_addr ?sh (unat v) pa (unat (mem_vend r)) = page_addr ?sh (unat v) pa (unat (mem_vend r) - 1) + 1 \<or>
       y = unat (mem_vend r) \<and> (y - unat v) mod 2 ^ ?sh = 0" using k2(3) by simp
    show ?thesis by (intro exI conjI) (rule st k2(1) c y)+
  next
    case False
    let ?as = "[(RW r, p, n, vreg_ptr r)]"
    have st: "dma_steps timing P mem tick (Suc (Suc 0)) (d, t) = Some ((set_request i (served r ?a (vreg_ptr r) ?as) d)\<lparr>free_events := free_events d - length ?as,
        actions := actions d @ ?as, current_state := DMA_STATE_IDLE, next_state_scheduled := True\<rparr>, t1)"
      using s1(1) s2 False by (simp add: set_request_def served_def)
    have c: "acts_cover ?sh (unat v) pa (RW r) (unat ?a) (vreg_ptr r) ?as (unat ?a + unat n)" using n(1,2) by simp
    have y: "unat ?a + unat n = unat (mem_vend r) + 1 \<and> page_addr ?sh (unat v) pa (unat (mem_vend r)) = page_addr ?sh (unat v) pa (unat (mem_vend r) - 1) + 1 \<or>
       unat ?a + unat n = unat (mem_vend r) \<and> (unat ?a + unat n - unat v) mod 2 ^ ?sh = 0"
    proof (cases "unat ?a + unat n = unat (mem_vend r) + 1")
      case True
      define m where "m = unat n - 2"
      have e: "unat n = m + 2" "unat (mem_vend r) = unat ?a + (m + 1)" "unat (mem_vend r) - 1 = unat ?a + m" using True lt n0 unfolding m_def by linarith+
      have "page_addr ?sh (unat v) pa (unat ?a + (m + 1)) = unat p + (m + 1)" "page_addr ?sh (unat v) pa (unat ?a + m) = unat p + m"
        by (rule n(2) [rule_format], simp add: e(1))+
      then have "page_addr ?sh (unat v) pa (unat (mem_vend r)) = page_addr ?sh (unat v) pa (unat (mem_vend r) - 1) + 1" unfolding e(3) unfolding e(2) by linarith
      then show ?thesis using True by blast
    next
      case F: False
      then show ?thesis using n(3) False by linarith
    qed
    show ?thesis by (intro exI conjI) (rule st s1(2) c y)+
  qed
qed

subsection \<open>Responses\<close>

fun dma_responses :: "bool \<Rightarrow> (u64 \<times> u64) list \<Rightarrow> dma \<Rightarrow> dma option" where
  "dma_responses suspended [] d = Some d"
| "dma_responses suspended ((a, n) # ps) d = do { d1 \<leftarrow> handle_packet a n suspended d; dma_responses suspended ps d1 }"

text \<open>The port answers an action by packets with addresses in the range of the action, as many bytes as the action has.\<close>

definition answers :: "(bool \<times> u64 \<times> u64 \<times> u64) list \<Rightarrow> (u64 \<times> u64) list \<Rightarrow> bool" where
  "answers acts ps \<longleftrightarrow> (\<forall>(a, m) \<in> set ps. 0 < m \<and> (\<exists>(_, p, n, _) \<in> set acts. unat p \<le> unat a \<and> unat a < unat p + unat n)) \<and>
     (\<Sum>(_, m) \<leftarrow> ps. unat m) = (\<Sum>(_, _, n, _) \<leftarrow> acts. unat n)"

lemma acts_cover_sum: "acts_cover sh v pa rw x vr acts y \<Longrightarrow> y = x + (\<Sum>(_, _, n, _) \<leftarrow> acts. unat n)"
  by (induction acts arbitrary: x vr) fastforce+

definition phys_ranges :: "(bool \<times> u64 \<times> u64 \<times> u64) list \<Rightarrow> (u64 \<times> u64) list" where
  "phys_ranges acts = map (\<lambda>(_, p, n, _). (p, p + n - 1)) acts"

lemma range_of_act:
  fixes p n a :: u64
  assumes F: "pages_fit sh v pa" and n: "0 < n" "\<forall>i<unat n. page_addr sh v pa (x + i) = unat p + i" and x: "v \<le> x" "x + unat n \<le> v + 2 ^ sh * length pa"
  shows "p \<le> a \<and> a \<le> p + n - 1 \<longleftrightarrow> unat p \<le> unat a \<and> unat a < unat p + unat n"
    and "unat p \<le> unat a \<and> unat a < unat p + unat n \<longleftrightarrow> (\<exists>z. x \<le> z \<and> z < x + unat n \<and> unat a = page_addr sh v pa z)"
proof -
  have n0: "0 < unat n" using n(1) by (simp add: word_less_nat_alt)
  let ?z = "x + (unat n - 1)"
  have "(?z - v) div 2 ^ sh < length pa" using x n0 by (intro less_mult_imp_div_less) (simp add: mult.commute)
  then have "page_addr sh v pa ?z < 2 ^ 32" by (intro page_addr_fits [OF F]) simp
  moreover have "page_addr sh v pa ?z = unat p + (unat n - 1)" by (rule n(2) [rule_format]) (use n0 in simp)
  ultimately have lt: "unat p + (unat n - 1) < 2 ^ 32" by simp
  have un: "unat (n - 1) = unat n - 1" using n0 by (simp add: unat_sub word_le_nat_alt Suc_le_eq)
  have "unat (p + (n - 1)) = unat p + (unat n - 1)" using lt unat_add_u64 [of p "n - 1"] unfolding un by simp
  then have "unat (p + n - 1) = unat p + (unat n - 1)" by (simp add: add_diff_eq)
  then show "p \<le> a \<and> a \<le> p + n - 1 \<longleftrightarrow> unat p \<le> unat a \<and> unat a < unat p + unat n" using n0 by (auto simp: word_le_nat_alt)
  show "unat p \<le> unat a \<and> unat a < unat p + unat n \<longleftrightarrow> (\<exists>z. x \<le> z \<and> z < x + unat n \<and> unat a = page_addr sh v pa z)"
  proof
    assume h: "unat p \<le> unat a \<and> unat a < unat p + unat n"
    have "page_addr sh v pa (x + (unat a - unat p)) = unat p + (unat a - unat p)" by (rule n(2) [rule_format]) (use h in linarith)
    then have "unat a = page_addr sh v pa (x + (unat a - unat p))" using h by linarith
    moreover have "x \<le> x + (unat a - unat p)" "x + (unat a - unat p) < x + unat n" using h by linarith+
    ultimately show "\<exists>z. x \<le> z \<and> z < x + unat n \<and> unat a = page_addr sh v pa z" by blast
  next
    assume "\<exists>z. x \<le> z \<and> z < x + unat n \<and> unat a = page_addr sh v pa z"
    then obtain z where z: "x \<le> z" "z < x + unat n" "unat a = page_addr sh v pa z" by blast
    obtain i where "z = x + i" "i < unat n" using z(1,2) le_Suc_ex by force
    then show "unat p \<le> unat a \<and> unat a < unat p + unat n" using n(2) z(3) by simp
  qed
qed

lemma acts_match_none:
  fixes a :: u64
  assumes F: "pages_fit sh v pa" and "acts_cover sh v pa rw x vr acts y" "v \<le> x" "y \<le> v + 2 ^ sh * length pa" "\<forall>z. x \<le> z \<longrightarrow> z < y \<longrightarrow> unat a \<noteq> page_addr sh v pa z"
  shows "filter (\<lambda>(s, e). s \<le> a \<and> a \<le> e) (phys_ranges acts) = []"
  using assms(2-)
proof (induction acts arbitrary: x vr)
  case (Cons act acts)
  obtain d p n w where act: "act = (d, p, n, w)" by (cases act) auto
  have c: "0 < n" "\<forall>i<unat n. page_addr sh v pa (x + i) = unat p + i" "acts_cover sh v pa rw (x + unat n) (vr + n) acts y" using Cons.prems(1) by (simp_all add: act)
  have y: "x + unat n \<le> y" using acts_cover_sum [OF c(3)] by simp
  have "\<not> (p \<le> a \<and> a \<le> p + n - 1)"
    using range_of_act [OF F c(1,2) Cons.prems(2), of a] y Cons.prems(3,4) by (meson less_le_trans order.trans)
  then show ?case using Cons.IH [OF c(3)] Cons.prems(2-4) by (simp add: phys_ranges_def act)
qed (simp add: phys_ranges_def)

lemma acts_match_one:
  fixes a :: u64
  assumes F: "pages_fit sh v pa" and "acts_cover sh v pa rw x vr acts y" "v \<le> x" "y \<le> v + 2 ^ sh * length pa"
    and "inj_on (page_addr sh v pa) {v..<v + 2 ^ sh * length pa}" "x \<le> z" "z < y" "unat a = page_addr sh v pa z"
  shows "length (filter (\<lambda>(s, e). s \<le> a \<and> a \<le> e) (phys_ranges acts)) = 1"
  using assms(2-)
proof (induction acts arbitrary: x vr)
  case (Cons act acts)
  obtain d p n w where act: "act = (d, p, n, w)" by (cases act) auto
  have c: "0 < n" "\<forall>i<unat n. page_addr sh v pa (x + i) = unat p + i" "acts_cover sh v pa rw (x + unat n) (vr + n) acts y" using Cons.prems(1) by (simp_all add: act)
  have y: "x + unat n \<le> y" using acts_cover_sum [OF c(3)] by simp
  have L: "x + unat n \<le> v + 2 ^ sh * length pa" using y Cons.prems(3) by simp
  note ra = range_of_act [OF F c(1,2) Cons.prems(2) L, of a]
  have uniq: "z' = z" if "v \<le> z'" "z' < v + 2 ^ sh * length pa" "unat a = page_addr sh v pa z'" for z'
    using inj_onD [OF Cons.prems(4), of z' z] that Cons.prems(2,3,5-7) by simp
  show ?case
  proof (cases "z < x + unat n")
    case True
    have "p \<le> a \<and> a \<le> p + n - 1" unfolding ra using True Cons.prems(5,7) by blast
    moreover have "filter (\<lambda>(s, e). s \<le> a \<and> a \<le> e) (phys_ranges acts) = []"
    proof (rule acts_match_none [OF F c(3)])
      show "\<forall>z. x + unat n \<le> z \<longrightarrow> z < y \<longrightarrow> unat a \<noteq> page_addr sh v pa z"
      proof (intro allI impI notI)
        fix z' assume h: "x + unat n \<le> z'" "z' < y" "unat a = page_addr sh v pa z'"
        then have "z' = z" using Cons.prems(2,3) by (intro uniq) linarith+
        then show False using h(1) True by simp
      qed
    qed (use Cons.prems(2,3) in auto)
    ultimately show ?thesis by (simp add: phys_ranges_def act)
  next
    case False
    have "\<not> (p \<le> a \<and> a \<le> p + n - 1)" unfolding ra
    proof
      assume "\<exists>z'. x \<le> z' \<and> z' < x + unat n \<and> unat a = page_addr sh v pa z'"
      then obtain z' where h: "x \<le> z'" "z' < x + unat n" "unat a = page_addr sh v pa z'" by blast
      then have "z' = z" using Cons.prems(2) L by (intro uniq) linarith+
      then show False using h(2) False by simp
    qed
    then show ?thesis using Cons.IH [OF c(3)] Cons.prems(2-) False by (simp add: phys_ranges_def act)
  qed
qed simp

lemma handle_one:
  assumes "requests d = [r]" "matches a r = 1" "unat (bytes_completed r) + unat n < unat (bytes_expected r)"
  shows "handle_packet a n suspended d = Some (d\<lparr>requests := [r\<lparr>bytes_completed := bytes_completed r + n\<rparr>]\<rparr>)"
proof -
  have "unat (bytes_expected r) < 2 ^ LENGTH(64)" by (rule unsigned_less)
  then have "unat (bytes_completed r + n) = unat (bytes_completed r) + unat n" using assms(3) by (intro unat_add_u64) simp
  then show ?thesis using assms by (auto simp: handle_packet_def set_request_def word_less_nat_alt Let_def)
qed

lemma handle_last:
  assumes "requests d = [r]" "matches a r = 1" "unat (bytes_completed r) + unat n = unat (bytes_expected r)" "dma_resources d AND dma_resource r \<noteq> 0"
  shows "handle_packet a n suspended d = Some (d\<lparr>requests := [], dma_resources := dma_resources d AND NOT (dma_resource r),
    dma_status := dma_resources d AND NOT (dma_resource r), interrupt := interrupt d \<or> suspended\<rparr>)"
proof -
  have "unat (bytes_expected r) < 2 ^ LENGTH(64)" by (rule unsigned_less)
  then have "unat (bytes_completed r + n) = unat (bytes_expected r)" using assms(3) unat_add_u64 [of "bytes_completed r" n] by simp
  then have "bytes_completed r + n = bytes_expected r" by (simp only: word_unat_eq_iff)
  then show ?thesis using assms by (simp add: handle_packet_def update_status_register_def erase_def Let_def)
qed

lemma responses_partial:
  assumes "requests d = [r]" "\<forall>(a, m) \<in> set ps. matches a r = 1" "unat (bytes_completed r) + (\<Sum>(_, m) \<leftarrow> ps. unat m) < unat (bytes_expected r)"
  shows "\<exists>b. dma_responses suspended ps d = Some (d\<lparr>requests := [r\<lparr>bytes_completed := b\<rparr>]\<rparr>)"
  using assms
proof (induction ps arbitrary: d r)
  case (Cons q ps)
  obtain a m where q: "q = (a, m)" by (cases q)
  have h: "handle_packet a m suspended d = Some (d\<lparr>requests := [r\<lparr>bytes_completed := bytes_completed r + m\<rparr>]\<rparr>)"
    by (rule handle_one) (use Cons.prems in \<open>auto simp: q\<close>)
  have "unat (bytes_expected r) < 2 ^ LENGTH(64)" by (rule unsigned_less)
  then have u: "unat (bytes_completed r + m) = unat (bytes_completed r) + unat m" using Cons.prems(3) by (intro unat_add_u64) (simp add: q)
  have "\<exists>b. dma_responses suspended ps (d\<lparr>requests := [r\<lparr>bytes_completed := bytes_completed r + m\<rparr>]\<rparr>) =
      Some ((d\<lparr>requests := [r\<lparr>bytes_completed := bytes_completed r + m\<rparr>]\<rparr>)\<lparr>requests := [(r\<lparr>bytes_completed := bytes_completed r + m\<rparr>)\<lparr>bytes_completed := b\<rparr>]\<rparr>)"
    by (rule Cons.IH) (use Cons.prems(2,3) u in \<open>auto simp: q matches_def\<close>)
  then show ?case by (simp add: q h)
next
  case Nil
  then show ?case by (auto intro!: exI [of _ "bytes_completed r"])
qed

lemma responses_complete:
  assumes "requests d = [r]" "\<forall>(a, m) \<in> set ps. 0 < m \<and> matches a r = 1" "unat (bytes_completed r) + (\<Sum>(_, m) \<leftarrow> ps. unat m) = unat (bytes_expected r)"
    and "bytes_completed r < bytes_expected r" and "dma_resources d AND dma_resource r \<noteq> 0"
  shows "\<exists>i. dma_responses suspended ps d = Some (d\<lparr>requests := [], dma_resources := dma_resources d AND NOT (dma_resource r),
    dma_status := dma_resources d AND NOT (dma_resource r), interrupt := i\<rparr>)"
  using assms
proof (induction ps arbitrary: d r)
  case (Cons q ps)
  obtain a m where q: "q = (a, m)" by (cases q)
  have m: "matches a r = 1" "0 < m" using Cons.prems(2) by (auto simp: q)
  have pos: "0 < unat m'" if "(a', m') \<in> set ps" for a' m' using Cons.prems(2) that by (auto simp: word_less_nat_alt)
  show ?case
  proof (cases ps)
    case Nil
    then show ?thesis using handle_last [OF Cons.prems(1) m(1) _ Cons.prems(5), of m suspended] Cons.prems(3) by (auto simp: q)
  next
    case (Cons q' ps')
    then have "0 < (\<Sum>(_, m) \<leftarrow> ps. unat m)" using pos by (cases q') auto
    then have lt: "unat (bytes_completed r) + unat m < unat (bytes_expected r)" using Cons.prems(3) by (simp add: q)
    note h = handle_one [OF Cons.prems(1) m(1) lt, of suspended]
    have "unat (bytes_expected r) < 2 ^ LENGTH(64)" by (rule unsigned_less)
    then have u: "unat (bytes_completed r + m) = unat (bytes_completed r) + unat m" using lt by (intro unat_add_u64) simp
    let ?r = "r\<lparr>bytes_completed := bytes_completed r + m\<rparr>"
    have "\<exists>i. dma_responses suspended ps (d\<lparr>requests := [?r]\<rparr>) = Some ((d\<lparr>requests := [?r]\<rparr>)\<lparr>requests := [], dma_resources := dma_resources (d\<lparr>requests := [?r]\<rparr>) AND NOT (dma_resource ?r),
        dma_status := dma_resources (d\<lparr>requests := [?r]\<rparr>) AND NOT (dma_resource ?r), interrupt := i\<rparr>)"
      by (rule Cons.IH) (use Cons.prems(2,3,5) u lt in \<open>auto simp: q matches_def word_less_nat_alt\<close>)
    then show ?thesis by (simp add: q h)
  qed
qed (simp add: word_less_nat_alt)

subsection \<open>A whole transfer\<close>

definition quiet :: "dma \<Rightarrow> bool" where
  "quiet d \<longleftrightarrow> requests d = [] \<and> \<not> next_state_scheduled d \<and> current_state d = DMA_STATE_IDLE \<and> free_events d = maxOutstandingDma"

definition initiate :: "bool \<Rightarrow> bool \<Rightarrow> tlb_params \<Rightarrow> u64 \<Rightarrow> (u64 \<Rightarrow> u32) \<Rightarrow> u64 \<Rightarrow> u64 \<Rightarrow> u64 \<Rightarrow> u8 \<Rightarrow> dma \<times> tlb \<Rightarrow> (dma \<times> tlb) option" where
  "initiate rw = (if rw then initiate_read else initiate_write)"

text \<open>A transfer of \<open>n\<close> bytes that lies in the pages, crosses at most as many pages as there are completion events, and uses a free resource.\<close>

definition transfer_ok :: "nat \<Rightarrow> nat \<Rightarrow> u32 list \<Rightarrow> u64 \<Rightarrow> u64 \<Rightarrow> u8 \<Rightarrow> dma \<Rightarrow> bool" where
  "transfer_ok sh v pa a n res d \<longleftrightarrow> quiet d \<and> 0 < n \<and> v \<le> unat a \<and> unat a + unat n \<le> v + 2 ^ sh * length pa \<and>
     (unat a + unat n - 1 - v) div 2 ^ sh < (unat a - v) div 2 ^ sh + maxOutstandingDma \<and> res \<noteq> 0 \<and> dma_resources d AND res = 0"

definition after_transfer :: "bool \<Rightarrow> u64 \<Rightarrow> u64 \<Rightarrow> u64 \<Rightarrow> u8 \<Rightarrow> u64 \<Rightarrow> u64 \<Rightarrow> (bool \<times> u64 \<times> u64 \<times> u64) list \<Rightarrow> dma \<Rightarrow> dma" where
  "after_transfer rw vreg a n res vs vr acts d = d\<lparr>requests := [served (DMARequest vreg a n rw res) vs vr acts], current_index := Some 0,
     current_state := DMA_STATE_IDLE, next_state_scheduled := True, dma_resources := dma_resources d OR res, dma_status := dma_resources d OR res,
     free_events := maxOutstandingDma - length acts, actions := actions d @ acts\<rparr>"

lemma initiate_ok:
  assumes "quiet d" "res \<noteq> 0" "dma_resources d AND res = 0"
  shows "initiate rw timing P now mem vreg a n res (d, t) = Some (d\<lparr>requests := [DMARequest vreg a n rw res], current_index := Some 0,
    current_state := DMA_STATE_TLBREFILL, next_state_scheduled := True, dma_resources := dma_resources d OR res, dma_status := dma_resources d OR res\<rparr>, t)"
  using assms by (simp add: initiate_def initiate_read_def initiate_write_def quiet_def update_status_register_def nextState_def idle_step_def DMARequest_def Let_def)

lemma transfer_run:
  assumes I: "tlb_inv P mem v pa tp tab t" and ok: "transfer_ok (OS_PAGE_SHIFT P) (unat v) pa a n res d"
  shows "\<exists>d1 k acts y vs vr t'. initiate rw timing P now mem vreg a n res (d, t) = Some (d1, t) \<and>
    dma_steps timing P mem tick k (d1, t) = Some (after_transfer rw vreg a n res vs vr acts d, t') \<and> tlb_inv P mem v pa tp tab t' \<and>
    acts_cover (OS_PAGE_SHIFT P) (unat v) pa rw (unat a) vreg acts y \<and>
    (y = unat a + unat n \<and> 1 < unat n \<and>
       page_addr (OS_PAGE_SHIFT P) (unat v) pa (unat a + unat n - 1) = page_addr (OS_PAGE_SHIFT P) (unat v) pa (unat a + unat n - 2) + 1 \<or>
     y = unat a + unat n - 1 \<and> (unat n = 1 \<or> (y - unat v) mod 2 ^ OS_PAGE_SHIFT P = 0))"
proof -
  let ?sh = "OS_PAGE_SHIFT P"
  let ?r = "DMARequest vreg a n rw res"
  let ?d = "d\<lparr>requests := [?r], current_index := Some 0, current_state := DMA_STATE_TLBREFILL, next_state_scheduled := True, dma_resources := dma_resources d OR res, dma_status := dma_resources d OR res\<rparr>"
  have o: "quiet d" "0 < unat n" "unat v \<le> unat a" "unat a + unat n \<le> unat v + 2 ^ ?sh * length pa" "res \<noteq> 0" "dma_resources d AND res = 0"
    "(unat a + unat n - 1 - unat v) div 2 ^ ?sh < (unat a - unat v) div 2 ^ ?sh + maxOutstandingDma"
    using ok by (simp_all add: transfer_ok_def word_less_nat_alt)
  have lim: "unat a + unat n < 2 ^ 32" using o(4) I by (simp add: tlb_inv_def table_of_def pages_fit_def)
  have "unat (a + n) = unat a + unat n" using lim by (intro unat_add_u64) simp
  then have ve: "unat (mem_vend ?r) = unat a + unat n - 1" using o(2) by (simp add: DMARequest_def unat_sub word_le_nat_alt)
  note st = initiate_ok [OF o(1,5,6), of rw timing P now mem vreg a n t]
  show ?thesis
  proof (cases "unat n = 1")
    case True
    have "\<not> mem_vstart ?r < mem_vend ?r" using ve True by (simp add: word_less_nat_alt DMARequest_def)
    then have "nextState timing P (tick 0) mem (?d, t) = Some (after_transfer rw vreg a n res a vreg [] d, t)"
      using o(1) by (simp add: nextState_def refill_step_def set_request_def after_transfer_def served_def Let_def quiet_def) (simp add: DMARequest_def)
    then have "dma_steps timing P mem tick (Suc 0) (?d, t) = Some (after_transfer rw vreg a n res a vreg [] d, t)" by simp
    moreover have "acts_cover ?sh (unat v) pa rw (unat a) vreg [] (unat a + unat n - 1)" using True by simp
    ultimately show ?thesis using st I True by blast
  next
    case False
    then have n2: "1 < unat n" using o(2) by simp
    have f: "mem_vstart ?r = a" "RW ?r = rw" "vreg_ptr ?r = vreg" by (simp_all add: DMARequest_def)
    have in1: "in_pages ?sh (unat v) pa (mem_vstart ?r)" "in_pages ?sh (unat v) pa (mem_vend ?r)" 
      unfolding in_pages_def ve f using o(2-4) by linarith+
    have in2: "requests ?d ! 0 = ?r" "0 < length (requests ?d)" "current_state ?d = DMA_STATE_TLBREFILL" "current_index ?d = Some 0" by simp_all
    have in3: "mem_vstart ?r < mem_vend ?r" unfolding word_less_nat_alt ve f using n2 by linarith
    have in4: "(unat (mem_vend ?r) - unat v) div 2 ^ ?sh < (unat (mem_vstart ?r) - unat v) div 2 ^ ?sh + free_events ?d" using o(1,7) unfolding ve f by (simp add: quiet_def)
    obtain k t' acts y vs vr where k: "dma_steps timing P mem tick k (?d, t) = Some ((set_request 0 (served ?r vs vr acts) ?d)\<lparr>free_events := free_events ?d - length acts,
        actions := actions ?d @ acts, current_state := DMA_STATE_IDLE, next_state_scheduled := True\<rparr>, t')"
      and k2: "tlb_inv P mem v pa tp tab t'" "acts_cover ?sh (unat v) pa (RW ?r) (unat (mem_vstart ?r)) (vreg_ptr ?r) acts y"
      "y = unat (mem_vend ?r) + 1 \<and> page_addr ?sh (unat v) pa (unat (mem_vend ?r)) = page_addr ?sh (unat v) pa (unat (mem_vend ?r) - 1) + 1 \<or>
       y = unat (mem_vend ?r) \<and> (y - unat v) mod 2 ^ ?sh = 0"
      using serve [OF I in1 in2 in3 in4, where tick = tick and timing = timing] by (elim exE conjE) (rule that)
    have eq: "(set_request 0 (served ?r vs vr acts) ?d)\<lparr>free_events := free_events ?d - length acts, actions := actions ?d @ acts, current_state := DMA_STATE_IDLE,
        next_state_scheduled := True\<rparr> = after_transfer rw vreg a n res vs vr acts d" using o(1) by (simp add: set_request_def after_transfer_def quiet_def)
    have y: "y = unat a + unat n \<and> 1 < unat n \<and> page_addr ?sh (unat v) pa (unat a + unat n - 1) = page_addr ?sh (unat v) pa (unat a + unat n - 2) + 1 \<or>
       y = unat a + unat n - 1 \<and> (unat n = 1 \<or> (y - unat v) mod 2 ^ ?sh = 0)"
      using k2(3) n2 unfolding ve by (auto simp: numeral_2_eq_2)
    show ?thesis using st k [unfolded eq] k2(1) k2(2) [unfolded f] y by (intro exI conjI)
  qed
qed

lemma matches_served: "matches a (served (DMARequest vreg x n rw res) vs vr acts) = length (filter (\<lambda>(s, e). s \<le> a \<and> a \<le> e) (phys_ranges acts))"
proof -
  have "zip (map (\<lambda>(_, p, _). p) acts) (map (\<lambda>(_, p, n, _). p + n - 1) acts) = phys_ranges acts"
    by (induction acts) (auto simp: phys_ranges_def)
  then show ?thesis by (simp add: matches_def served_def DMARequest_def)
qed

lemma answers_match:
  assumes F: "pages_fit sh v pa" and c: "acts_cover sh v pa rw x vr acts y" "v \<le> x" "y \<le> v + 2 ^ sh * length pa"
    and i: "inj_on (page_addr sh v pa) {v..<v + 2 ^ sh * length pa}" and A: "answers acts ps" and p: "(a, m) \<in> set ps"
  shows "0 < m" "length (filter (\<lambda>(s, e). s \<le> a \<and> a \<le> e) (phys_ranges acts)) = 1"
proof -
  have ex: "\<exists>z. x \<le> z \<and> z < y \<and> unat a = page_addr sh v pa z" if "(rw', q, n, w) \<in> set acts" "unat q \<le> unat a \<and> unat a < unat q + unat n" "acts_cover sh v pa rw x vr acts y" "v \<le> x" "y \<le> v + 2 ^ sh * length pa" for rw' q n w x vr
    using that
  proof (induction acts arbitrary: x vr)
    case (Cons act acts)
    obtain d p m w' where act: "act = (d, p, m, w')" by (cases act) auto
    have c: "0 < m" "\<forall>i<unat m. page_addr sh v pa (x + i) = unat p + i" "acts_cover sh v pa rw (x + unat m) (vr + m) acts y" using Cons.prems(3) by (simp_all add: act)
    have y: "x + unat m \<le> y" using acts_cover_sum [OF c(3)] by simp
    show ?case
    proof (cases "(rw', q, n, w) \<in> set acts")
      case True
      obtain z where "x + unat m \<le> z" "z < y" "unat a = page_addr sh v pa z" using Cons.IH [OF True Cons.prems(2) c(3) _ Cons.prems(5)] Cons.prems(4) by auto
      then show ?thesis by (meson add_leD1)
    next
      case False
      then have "q = p" "n = m" using Cons.prems(1) by (auto simp: act)
      then obtain z where "x \<le> z" "z < x + unat m" "unat a = page_addr sh v pa z"
        using range_of_act(2) [OF F c(1,2) Cons.prems(4), of a] y Cons.prems(2,5) by auto
      then show ?thesis using y by (meson less_le_trans)
    qed
  qed simp
  from A p show "0 < m" by (auto simp: answers_def)
  from A p obtain rw' q n w where "(rw', q, n, w) \<in> set acts" "unat q \<le> unat a \<and> unat a < unat q + unat n" by (fastforce simp: answers_def)
  from ex [OF this c] obtain z where "x \<le> z" "z < y" "unat a = page_addr sh v pa z" by blast
  then show "length (filter (\<lambda>(s, e). s \<le> a \<and> a \<le> e) (phys_ranges acts)) = 1" by (rule acts_match_one [OF F c i])
qed

definition pages_disjoint :: "nat \<Rightarrow> u32 list \<Rightarrow> bool" where
  "pages_disjoint sh pa \<longleftrightarrow> (\<forall>j<length pa. \<forall>k<length pa. j \<noteq> k \<longrightarrow>
     unat (pa ! j) + 2 ^ sh \<le> unat (pa ! k) \<or> unat (pa ! k) + 2 ^ sh \<le> unat (pa ! j))"

lemma pages_disjoint_inj:
  assumes "pages_disjoint sh pa"
  shows "inj_on (page_addr sh v pa) {v..<v + 2 ^ sh * length pa}"
proof (rule inj_onI)
  fix x y assume h: "x \<in> {v..<v + 2 ^ sh * length pa}" "y \<in> {v..<v + 2 ^ sh * length pa}" "page_addr sh v pa x = page_addr sh v pa y"
  let ?j = "(x - v) div 2 ^ sh" and ?k = "(y - v) div 2 ^ sh"
  have jk: "?j < length pa" "?k < length pa" using h(1,2) by (auto intro!: less_mult_imp_div_less simp: mult.commute)
  have m: "(x - v) mod 2 ^ sh < 2 ^ sh" "(y - v) mod 2 ^ sh < 2 ^ sh" by simp_all
  have eq: "unat (pa ! ?j) + (x - v) mod 2 ^ sh = unat (pa ! ?k) + (y - v) mod 2 ^ sh" using h(3) by (simp add: page_addr_def)
  have e: "?j = ?k"
  proof (rule ccontr)
    assume "?j \<noteq> ?k"
    then have "unat (pa ! ?j) + 2 ^ sh \<le> unat (pa ! ?k) \<or> unat (pa ! ?k) + 2 ^ sh \<le> unat (pa ! ?j)" using assms jk by (simp add: pages_disjoint_def)
    then show False using eq m by linarith
  qed
  then have "x - v = y - v" using eq by (metis add_left_cancel div_mult_mod_eq)
  then show "x = y" using h(1,2) by auto
qed

lemma waiting_forever:
  assumes "requests d = [r]" "issued r" "current_state d = DMA_STATE_IDLE"
  shows "\<exists>d'. dma_steps timing P mem tick k (d, t) = Some (d', t) \<and> requests d' = [r] \<and> dma_resources d' = dma_resources d"
  using assms
proof (induction k arbitrary: d tick)
  case (Suc k)
  have "nextState timing P (tick 0) mem (d, t) = Some (d\<lparr>current_index := None, next_state_scheduled := True\<rparr>, t)"
    using Suc.prems by (simp add: nextState_def idle_step_def)
  then show ?case using Suc.IH [of "d\<lparr>current_index := None, next_state_scheduled := True\<rparr>" "\<lambda>i. tick (Suc i)"] Suc.prems by simp
qed simp

lemma resource_cleared: "R AND res = 0 \<Longrightarrow> (R OR res) AND NOT res = (R :: u8)"
  by (auto simp: bit_eq_iff bit_simps)

lemma resource_busy: "(R OR res) AND res = (res :: u8)"
  by (auto simp: bit_eq_iff bit_simps)

text \<open>
  C30. A DMA transfer completes: a transfer of at least two bytes from or to the pages of a slice table, whose last byte is not the first byte of a page, is split into actions that
  cover exactly its bytes in order, each at the physical address of its page, whatever the TLB holds; and once the port has answered the actions, in packets
  of any size and order, the request is removed and its resource is free again.
\<close>

theorem dma_transfer_completes:
  assumes "tlb_inv P mem v pa tp tab t" and "pages_disjoint (OS_PAGE_SHIFT P) pa" and "transfer_ok (OS_PAGE_SHIFT P) (unat v) pa a n res d"
    and "1 < n" and "(unat a + unat n - 1 - unat v) mod 2 ^ OS_PAGE_SHIFT P \<noteq> 0"
  shows "\<exists>d1 k acts d2 t'. initiate rw timing P now mem vreg a n res (d, t) = Some (d1, t) \<and> dma_steps timing P mem tick k (d1, t) = Some (d2, t') \<and>
    tlb_inv P mem v pa tp tab t' \<and> actions d2 = actions d @ acts \<and> acts_cover (OS_PAGE_SHIFT P) (unat v) pa rw (unat a) vreg acts (unat a + unat n) \<and>
    (\<forall>ps. answers acts ps \<longrightarrow> (\<exists>d3. dma_responses suspended ps d2 = Some d3 \<and> requests d3 = [] \<and> dma_resources d3 = dma_resources d \<and> dma_status d3 = dma_resources d))"
proof -
  let ?sh = "OS_PAGE_SHIFT P"
  have n2: "1 < unat n" using assms(4) by (simp add: word_less_nat_alt)
  obtain d1 k acts y vs vr t' where r: "initiate rw timing P now mem vreg a n res (d, t) = Some (d1, t)"
    "dma_steps timing P mem tick k (d1, t) = Some (after_transfer rw vreg a n res vs vr acts d, t')" "tlb_inv P mem v pa tp tab t'"
    "acts_cover ?sh (unat v) pa rw (unat a) vreg acts y" "y = unat a + unat n \<and> 1 < unat n \<and> page_addr ?sh (unat v) pa (unat a + unat n - 1) = page_addr ?sh (unat v) pa (unat a + unat n - 2) + 1 \<or>
     y = unat a + unat n - 1 \<and> (unat n = 1 \<or> (y - unat v) mod 2 ^ ?sh = 0)"
    using transfer_run [OF assms(1,3), where rw = rw and timing = timing and now = now and vreg = vreg and tick = tick] by (elim exE conjE) (rule that)
  have y: "y = unat a + unat n" using r(5) assms(5) n2 by auto
  let ?d2 = "after_transfer rw vreg a n res vs vr acts d"
  let ?r = "served (DMARequest vreg a n rw res) vs vr acts"
  have d2: "requests ?d2 = [?r]" "dma_resources ?d2 = dma_resources d OR res" "actions ?d2 = actions d @ acts" by (simp_all add: after_transfer_def)
  have rr: "bytes_completed ?r = 0" "bytes_expected ?r = n" "dma_resource ?r = res" by (simp_all add: served_def DMARequest_def)
  have F: "pages_fit ?sh (unat v) pa" using assms(1) by (simp add: tlb_inv_def table_of_def)
  have o: "unat v \<le> unat a" "unat a + unat n \<le> unat v + 2 ^ ?sh * length pa" "res \<noteq> 0" "dma_resources d AND res = 0" using assms(3) by (simp_all add: transfer_ok_def)
  have "\<exists>d3. dma_responses suspended ps ?d2 = Some d3 \<and> requests d3 = [] \<and> dma_resources d3 = dma_resources d \<and> dma_status d3 = dma_resources d" if A: "answers acts ps" for ps
  proof -
    note am = answers_match [OF F r(4) o(1) _ pages_disjoint_inj [OF assms(2)] A]
    have "\<exists>i. dma_responses suspended ps ?d2 = Some (?d2\<lparr>requests := [], dma_resources := dma_resources ?d2 AND NOT (dma_resource ?r),
        dma_status := dma_resources ?d2 AND NOT (dma_resource ?r), interrupt := i\<rparr>)"
    proof (rule responses_complete [OF d2(1)])
      show "\<forall>(a, m) \<in> set ps. 0 < m \<and> matches a ?r = 1" using am o(2) unfolding y by (auto simp: matches_served)
      show "unat (bytes_completed ?r) + (\<Sum>(_, m) \<leftarrow> ps. unat m) = unat (bytes_expected ?r)" using A acts_cover_sum [OF r(4)] y by (simp add: rr answers_def)
      show "bytes_completed ?r < bytes_expected ?r" using n2 by (simp add: rr word_less_nat_alt)
      show "dma_resources ?d2 AND dma_resource ?r \<noteq> 0" unfolding d2 rr resource_busy by (rule o(3))
    qed
    then show ?thesis unfolding d2 rr resource_cleared [OF o(4)] by auto
  qed
  then show ?thesis using r(1-3) r(4) [unfolded y] d2(3) by blast
qed

lemma acts_cover_bytes: "acts_cover sh v pa rw x vr acts y \<Longrightarrow> x \<le> z \<Longrightarrow> z < y \<Longrightarrow>
    \<exists>(_, p, n, _) \<in> set acts. unat p \<le> page_addr sh v pa z \<and> page_addr sh v pa z < unat p + unat n"
proof (induction acts arbitrary: x vr)
  case (Cons act acts)
  obtain d p n w where act: "act = (d, p, n, w)" by (cases act) auto
  show ?case
  proof (cases "z < x + unat n")
    case True
    then obtain i where "z = x + i" "i < unat n" using Cons.prems(2) le_Suc_ex by force
    then show ?thesis using Cons.prems(1) by (simp add: act)
  next
    case False
    then show ?thesis using Cons.IH [of "x + unat n" "vr + n"] Cons.prems by (simp add: act)
  qed
qed simp

lemma ex_disjoint: "pages_disjoint (OS_PAGE_SHIFT (params_of 2)) ex_pages"
  by (simp add: pages_disjoint_def params_of_def ex_pages_def less_Suc_eq all_conj_distrib)

lemma ex_transfer: "n = 0x20 \<or> n = 0x11 \<Longrightarrow> transfer_ok (OS_PAGE_SHIFT (params_of 2)) (unat (0x4000 :: u32)) ex_pages 0x5FF0 n 1 ethz_DMA"
  by (auto simp: transfer_ok_def quiet_def ethz_DMA_def params_of_def ex_pages_def maxOutstandingDma_def)

theorem dma_transfer_completes_witness:
  "\<exists>d1 k d2 t' d3. initiate True False (params_of 2) 0 (mem_of 0x80000 ex_table) 0 0x5FF0 0x20 1 (ethz_DMA, tlb_of 0x80000 0x4000) = Some (d1, tlb_of 0x80000 0x4000) \<and>
     dma_steps False (params_of 2) (mem_of 0x80000 ex_table) (\<lambda>i. of_nat i) k (d1, tlb_of 0x80000 0x4000) = Some (d2, t') \<and>
     dma_responses False [(0x2000, 0x10), (0x6FF0, 0x10)] d2 = Some d3 \<and> requests d3 = [] \<and> dma_resources d3 = 0"
proof -
  have n: "(1 :: u64) < 0x20" "(unat (0x5FF0 :: u64) + unat (0x20 :: u64) - 1 - unat (0x4000 :: u32)) mod 2 ^ OS_PAGE_SHIFT (params_of 2) \<noteq> 0" by (simp_all add: params_of_def)
  have tr: "transfer_ok (OS_PAGE_SHIFT (params_of 2)) (unat (0x4000 :: u32)) ex_pages 0x5FF0 0x20 1 ethz_DMA" by (rule ex_transfer) simp
  from dma_transfer_completes [OF ex_inv ex_disjoint tr n, where rw = True and timing = False and now = 0 and vreg = 0 and tick = "\<lambda>i. of_nat i" and suspended = False]
  obtain d1 k acts d2 t' where r: "initiate True False (params_of 2) 0 (mem_of 0x80000 ex_table) 0 0x5FF0 0x20 1 (ethz_DMA, tlb_of 0x80000 0x4000) = Some (d1, tlb_of 0x80000 0x4000)"
    "dma_steps False (params_of 2) (mem_of 0x80000 ex_table) (\<lambda>i. of_nat i) k (d1, tlb_of 0x80000 0x4000) = Some (d2, t')"
    "acts_cover (OS_PAGE_SHIFT (params_of 2)) (unat (0x4000 :: u32)) ex_pages True (unat (0x5FF0 :: u64)) 0 acts (unat (0x5FF0 :: u64) + unat (0x20 :: u64))"
    "\<And>ps. answers acts ps \<Longrightarrow> \<exists>d3. dma_responses False ps d2 = Some d3 \<and> requests d3 = [] \<and> dma_resources d3 = dma_resources ethz_DMA" by blast
  have pg: "page_addr (OS_PAGE_SHIFT (params_of 2)) 0x4000 ex_pages 0x6000 = 0x2000" "page_addr (OS_PAGE_SHIFT (params_of 2)) 0x4000 ex_pages 0x5FF0 = 0x6FF0"
    by (simp_all add: page_addr_def params_of_def ex_pages_def)
  have "answers acts [(0x2000, 0x10), (0x6FF0, 0x10)]"
    using acts_cover_bytes [OF r(3), of "0x6000"] acts_cover_bytes [OF r(3), of "0x5FF0"] acts_cover_sum [OF r(3)] by (simp add: answers_def pg)
  from r(4) [OF this] show ?thesis using r(1,2) by (auto simp: ethz_DMA_def)
qed

text \<open>
  C31. A DMA transfer of a single byte, or one whose last byte is the first byte of a page that does not follow the page before it in physical memory, never completes: the last byte is not transferred,
  and although the port answers everything it was asked for, the request stays and its resource is busy for ever.
\<close>

theorem dma_last_byte_lost:
  assumes "tlb_inv P mem v pa tp tab t" and "pages_disjoint (OS_PAGE_SHIFT P) pa" and "transfer_ok (OS_PAGE_SHIFT P) (unat v) pa a n res d"
    and "n = 1 \<or> page_addr (OS_PAGE_SHIFT P) (unat v) pa (unat a + unat n - 1) \<noteq> page_addr (OS_PAGE_SHIFT P) (unat v) pa (unat a + unat n - 2) + 1"
  shows "\<exists>d1 k acts d2 t'. initiate rw timing P now mem vreg a n res (d, t) = Some (d1, t) \<and> dma_steps timing P mem tick k (d1, t) = Some (d2, t') \<and>
    actions d2 = actions d @ acts \<and> acts_cover (OS_PAGE_SHIFT P) (unat v) pa rw (unat a) vreg acts (unat a + unat n - 1) \<and>
    (\<forall>ps. answers acts ps \<longrightarrow> (\<exists>d3. dma_responses suspended ps d2 = Some d3 \<and>
       (\<forall>later j. \<exists>d4. dma_steps timing P mem later j (d3, t') = Some (d4, t') \<and> requests d4 \<noteq> [] \<and> dma_resources d4 AND res = res)))"
proof -
  let ?sh = "OS_PAGE_SHIFT P"
  obtain d1 k acts y vs vr t' where r: "initiate rw timing P now mem vreg a n res (d, t) = Some (d1, t)"
    "dma_steps timing P mem tick k (d1, t) = Some (after_transfer rw vreg a n res vs vr acts d, t')" "tlb_inv P mem v pa tp tab t'"
    "acts_cover ?sh (unat v) pa rw (unat a) vreg acts y"
    "y = unat a + unat n \<and> 1 < unat n \<and> page_addr ?sh (unat v) pa (unat a + unat n - 1) = page_addr ?sh (unat v) pa (unat a + unat n - 2) + 1 \<or>
     y = unat a + unat n - 1 \<and> (unat n = 1 \<or> (y - unat v) mod 2 ^ ?sh = 0)"
    using transfer_run [OF assms(1,3), where rw = rw and timing = timing and now = now and vreg = vreg and tick = tick] by (elim exE conjE) (rule that)
  have y: "y = unat a + unat n - 1" using r(5) assms(4) by auto
  let ?d2 = "after_transfer rw vreg a n res vs vr acts d"
  let ?r = "served (DMARequest vreg a n rw res) vs vr acts"
  have d2: "requests ?d2 = [?r]" "dma_resources ?d2 = dma_resources d OR res" "actions ?d2 = actions d @ acts" "current_state ?d2 = DMA_STATE_IDLE" by (simp_all add: after_transfer_def)
  have rr: "bytes_completed ?r = 0" "bytes_expected ?r = n" "issued ?r" by (simp_all add: served_def DMARequest_def)
  have F: "pages_fit ?sh (unat v) pa" using assms(1) by (simp add: tlb_inv_def table_of_def)
  have o: "unat v \<le> unat a" "unat a + unat n \<le> unat v + 2 ^ ?sh * length pa" "0 < unat n" using assms(3) by (simp_all add: transfer_ok_def word_less_nat_alt)
  have "\<exists>d3. dma_responses suspended ps ?d2 = Some d3 \<and>
       (\<forall>later j. \<exists>d4. dma_steps timing P mem later j (d3, t') = Some (d4, t') \<and> requests d4 \<noteq> [] \<and> dma_resources d4 AND res = res)" if A: "answers acts ps" for ps
  proof -
    note am = answers_match [OF F r(4) o(1) _ pages_disjoint_inj [OF assms(2)] A]
    have m: "\<forall>(a, m) \<in> set ps. matches a ?r = 1" using am o(2) unfolding y by (auto simp: matches_served)
    have s: "unat (bytes_completed ?r) + (\<Sum>(_, m) \<leftarrow> ps. unat m) < unat (bytes_expected ?r)" using A acts_cover_sum [OF r(4)] y o(3) by (simp add: rr answers_def)
    obtain b where b: "dma_responses suspended ps ?d2 = Some (?d2\<lparr>requests := [?r\<lparr>bytes_completed := b\<rparr>]\<rparr>)" using responses_partial [OF d2(1) m s] by blast
    show ?thesis using b waiting_forever [of "?d2\<lparr>requests := [?r\<lparr>bytes_completed := b\<rparr>]\<rparr>" "?r\<lparr>bytes_completed := b\<rparr>"] d2(2,4) rr(3) resource_busy by fastforce
  qed
  then show ?thesis using r(1,2) r(4) [unfolded y] d2(3) by blast
qed

theorem dma_last_byte_lost_witness:
  "\<exists>d1 k d2 t' d3. initiate True False (params_of 2) 0 (mem_of 0x80000 ex_table) 0 0x5FF0 0x11 1 (ethz_DMA, tlb_of 0x80000 0x4000) = Some (d1, tlb_of 0x80000 0x4000) \<and>
     dma_steps False (params_of 2) (mem_of 0x80000 ex_table) (\<lambda>i. of_nat i) k (d1, tlb_of 0x80000 0x4000) = Some (d2, t') \<and>
     dma_responses False [(0x6FF0, 0x10)] d2 = Some d3 \<and> (\<forall>later j. \<exists>d4. dma_steps False (params_of 2) (mem_of 0x80000 ex_table) later j (d3, t') = Some (d4, t') \<and> dma_resources d4 AND 1 = 1)"
proof -
  have n: "(0x11 :: u64) = 1 \<or> page_addr (OS_PAGE_SHIFT (params_of 2)) (unat (0x4000 :: u32)) ex_pages (unat (0x5FF0 :: u64) + unat (0x11 :: u64) - 1) \<noteq>
      page_addr (OS_PAGE_SHIFT (params_of 2)) (unat (0x4000 :: u32)) ex_pages (unat (0x5FF0 :: u64) + unat (0x11 :: u64) - 2) + 1"
    by (simp add: page_addr_def params_of_def ex_pages_def)
  have tr: "transfer_ok (OS_PAGE_SHIFT (params_of 2)) (unat (0x4000 :: u32)) ex_pages 0x5FF0 0x11 1 ethz_DMA" by (rule ex_transfer) simp
  from dma_last_byte_lost [OF ex_inv ex_disjoint tr n, where rw = True and timing = False and now = 0 and vreg = 0 and tick = "\<lambda>i. of_nat i" and suspended = False]
  obtain d1 k acts d2 t' where r: "initiate True False (params_of 2) 0 (mem_of 0x80000 ex_table) 0 0x5FF0 0x11 1 (ethz_DMA, tlb_of 0x80000 0x4000) = Some (d1, tlb_of 0x80000 0x4000)"
    "dma_steps False (params_of 2) (mem_of 0x80000 ex_table) (\<lambda>i. of_nat i) k (d1, tlb_of 0x80000 0x4000) = Some (d2, t')"
    "acts_cover (OS_PAGE_SHIFT (params_of 2)) (unat (0x4000 :: u32)) ex_pages True (unat (0x5FF0 :: u64)) 0 acts (unat (0x5FF0 :: u64) + unat (0x11 :: u64) - 1)"
    "\<And>ps. answers acts ps \<Longrightarrow> \<exists>d3. dma_responses False ps d2 = Some d3 \<and>
       (\<forall>later j. \<exists>d4. dma_steps False (params_of 2) (mem_of 0x80000 ex_table) later j (d3, t') = Some (d4, t') \<and> requests d4 \<noteq> [] \<and> dma_resources d4 AND 1 = 1)" by blast
  have pg: "page_addr (OS_PAGE_SHIFT (params_of 2)) 0x4000 ex_pages 0x5FF0 = 0x6FF0"
    by (simp add: page_addr_def params_of_def ex_pages_def)
  have "answers acts [(0x6FF0, 0x10)]" using acts_cover_bytes [OF r(3), of "0x5FF0"] acts_cover_sum [OF r(3)] by (simp add: answers_def pg)
  from r(4) [OF this] show ?thesis using r(1,2) by blast
qed

subsection \<open>Two requests\<close>

text \<open>The second of two requests is not served once it is marked as issued and the index is not at it.\<close>

lemma second_untouched:
  assumes "requests d = [b, r]" "issued r" "current_index d = None \<or> current_index d = Some 0" "nextState timing P now mem (d, t) = Some (d', t')"
  shows "\<exists>b'. requests d' = [b', r] \<and> (current_index d' = None \<or> current_index d' = Some 0) \<and> dma_resources d' = dma_resources d"
  using assms
  by (auto simp: nextState_def idle_step_def refill_step_def transfer_step_def set_request_def Let_def bind_eq_Some_conv split: dma_state.splits if_splits)

lemma second_untouched_steps:
  assumes "requests d = [b, r]" "issued r" "current_index d = None \<or> current_index d = Some 0" "dma_steps timing P mem tick k (d, t) = Some (d', t')"
  shows "\<exists>b'. requests d' = [b', r] \<and> dma_resources d' = dma_resources d"
  using assms
proof (induction k arbitrary: d b t tick)
  case (Suc k)
  from Suc.prems(4) obtain d1 t1 where n: "nextState timing P (tick 0) mem (d, t) = Some (d1, t1)" "dma_steps timing P mem (\<lambda>i. tick (Suc i)) k (d1, t1) = Some (d', t')"
    by (auto simp: bind_eq_Some_conv)
  from second_untouched [OF Suc.prems(1-3) n(1)] obtain b' where "requests d1 = [b', r]" "current_index d1 = None \<or> current_index d1 = Some 0" "dma_resources d1 = dma_resources d" by blast
  then show ?case using Suc.IH [OF _ Suc.prems(2) _ n(2)] by simp
qed simp

lemma resource_absorb: "R AND m = m \<Longrightarrow> (R OR res) AND m = (m :: u8)"
proof (rule bit_word_eqI)
  fix i assume h: "R AND m = m"
  have "bit (R AND m) i = bit m i" unfolding h ..
  then show "bit ((R OR res) AND m) i = bit m i" by (auto simp: bit_and_iff bit_or_iff)
qed



end
