(* ===== verification/Abstract_Mem.thy ===== *)
theory Abstract_Mem
  imports PIM_TLB PIM_Requests
begin

text \<open>
  The memory behind the ports (\<open>mem/abstract_mem.cc\<close>): bytes, the list of load-locked reservations, the atomic commands of the cube and the statistics.
  The addition of floating point numbers is an argument \<open>fadd\<close> on their bit patterns. \<open>None\<close> is a panic or a failed assertion.
\<close>

unbundle bit_operations_syntax

datatype mem_cmd = SwapReq | ReadReq | WriteReq | InvalidateReq | OtherReq

record mem_packet =
  mp_cmd :: mem_cmd
  mp_addr :: u64
  mp_size :: nat
  mp_data :: "u8 list"
  mp_llsc :: bool
  mp_condswap :: bool
  mp_extra :: u64
  mp_context :: int
  mp_master :: nat
  mp_inhibit :: bool
  mp_hmc :: "hmc_cmd option"

record amem =
  mem_range :: addr_range
  pmem :: "u64 \<Rightarrow> u8"
  lockedAddrList :: "(u64 \<times> int) list"
  wakeups :: "int list"
  numReads :: "nat \<Rightarrow> nat"
  numWrites :: "nat \<Rightarrow> nat"
  numOther :: "nat \<Rightarrow> nat"
  bytesRead :: "nat \<Rightarrow> nat"
  bytesWritten :: "nat \<Rightarrow> nat"
  atomic_inc_count :: nat
  atomic_fadd_count :: nat
  atomic_min_count :: nat

definition mask_addr :: "u64 \<Rightarrow> u64" where
  "mask_addr a = a AND NOT 0xF"

fun set_record :: "u64 \<Rightarrow> int \<Rightarrow> (u64 \<times> int) list \<Rightarrow> (u64 \<times> int) list option" where
  "set_record a c [] = None"
| "set_record a c (r # rs) = (if snd r = c then Some ((a, c) # rs) else map_option (\<lambda>qs. r # qs) (set_record a c rs))"

definition trackLoadLocked :: "mem_packet \<Rightarrow> amem \<Rightarrow> amem" where
  "trackLoadLocked pkt m =
     (let paddr = mask_addr (mp_addr pkt)
      in case set_record paddr (mp_context pkt) (lockedAddrList m) of
           Some rs \<Rightarrow> m\<lparr>lockedAddrList := rs\<rparr>
         | None \<Rightarrow> m\<lparr>lockedAddrList := (paddr, mp_context pkt) # lockedAddrList m\<rparr>)"

definition checkLockedAddrList :: "mem_packet \<Rightarrow> amem \<Rightarrow> bool \<times> mem_packet \<times> amem" where
  "checkLockedAddrList pkt m =
     (let paddr = mask_addr (mp_addr pkt);
          allowStore = (\<not> mp_llsc pkt \<or> (paddr, mp_context pkt) \<in> set (lockedAddrList m));
          pkt1 = (if mp_llsc pkt then pkt\<lparr>mp_extra := if allowStore then 1 else 0\<rparr> else pkt)
      in if allowStore
         then (True, pkt1, m\<lparr>wakeups := wakeups m @ map snd (filter (\<lambda>r. fst r = paddr) (lockedAddrList m)),
                             lockedAddrList := filter (\<lambda>r. fst r \<noteq> paddr) (lockedAddrList m)\<rparr>)
         else (False, pkt1, m))"

definition writeOK :: "mem_packet \<Rightarrow> amem \<Rightarrow> bool \<times> mem_packet \<times> amem" where
  "writeOK pkt m =
     (if lockedAddrList m = [] then (\<not> mp_llsc pkt, if mp_llsc pkt then pkt\<lparr>mp_extra := 0\<rparr> else pkt, m)
      else checkLockedAddrList pkt m)"

subsection \<open>Bytes\<close>

definition read_bytes :: "(u64 \<Rightarrow> u8) \<Rightarrow> u64 \<Rightarrow> nat \<Rightarrow> u8 list" where
  "read_bytes f a n = map (\<lambda>i. f (a + of_nat i)) [0..<n]"

fun write_bytes :: "u64 \<Rightarrow> u8 list \<Rightarrow> (u64 \<Rightarrow> u8) \<Rightarrow> (u64 \<Rightarrow> u8)" where
  "write_bytes a [] f = f"
| "write_bytes a (b # bs) f = write_bytes (a + 1) bs (f(a := b))"

fun word_of_bytes :: "u8 list \<Rightarrow> 'a :: len word" where
  "word_of_bytes [] = 0"
| "word_of_bytes (b # bs) = ucast b OR push_bit 8 (word_of_bytes bs)"

fun bytes_of :: "nat \<Rightarrow> 'a :: len word \<Rightarrow> u8 list" where
  "bytes_of 0 w = []"
| "bytes_of (Suc n) w = ucast w # bytes_of n (drop_bit 8 w)"

definition read32 :: "(u64 \<Rightarrow> u8) \<Rightarrow> u64 \<Rightarrow> u32" where
  "read32 f a = word_of_bytes (read_bytes f a 4)"

definition write32 :: "u64 \<Rightarrow> u32 \<Rightarrow> (u64 \<Rightarrow> u8) \<Rightarrow> (u64 \<Rightarrow> u8)" where
  "write32 a w = write_bytes a (bytes_of 4 w)"

definition read64 :: "(u64 \<Rightarrow> u8) \<Rightarrow> u64 \<Rightarrow> u64" where
  "read64 f a = word_of_bytes (read_bytes f a 8)"

definition write64 :: "u64 \<Rightarrow> u64 \<Rightarrow> (u64 \<Rightarrow> u8) \<Rightarrow> (u64 \<Rightarrow> u8)" where
  "write64 a w = write_bytes a (bytes_of 8 w)"

subsection \<open>Accesses\<close>

definition hmc_command :: "(u32 \<Rightarrow> u32 \<Rightarrow> u32) \<Rightarrow> hmc_cmd \<Rightarrow> u64 \<Rightarrow> nat \<Rightarrow> amem \<Rightarrow> amem option" where
  "hmc_command fadd c a n m =
     (case c of
        HMC_CMD_INC \<Rightarrow>
          let m1 = m\<lparr>atomic_inc_count := atomic_inc_count m + 1\<rparr>
          in if n = 4 then Some (m1\<lparr>pmem := write32 a (read32 (pmem m) a + 1) (pmem m)\<rparr>)
             else if n = 8 then Some (m1\<lparr>pmem := write64 a (read64 (pmem m) a + 1) (pmem m)\<rparr>)
             else None
      | HMC_CMD_FADD v \<Rightarrow>
          Some (m\<lparr>atomic_fadd_count := atomic_fadd_count m + 1, pmem := write32 a (fadd (read32 (pmem m) a) (ucast v)) (pmem m)\<rparr>)
      | HMC_CMD_MIN v \<Rightarrow>
          let m1 = m\<lparr>atomic_min_count := atomic_min_count m + 1\<rparr>
          in if n = 4 then Some (if ucast v < read32 (pmem m) a then m1\<lparr>pmem := write32 a (ucast v) (pmem m)\<rparr> else m1)
             else None)"

definition count_write :: "mem_packet \<Rightarrow> amem \<Rightarrow> amem" where
  "count_write pkt m = m\<lparr>numWrites := (numWrites m)(mp_master pkt := numWrites m (mp_master pkt) + 1),
     bytesWritten := (bytesWritten m)(mp_master pkt := bytesWritten m (mp_master pkt) + mp_size pkt)\<rparr>"

definition swap_access :: "mem_packet \<Rightarrow> amem \<Rightarrow> (mem_packet \<times> amem) option" where
  "swap_access pkt m =
     do { let a = mp_addr pkt;
          let old = read_bytes (pmem m) a (mp_size pkt);
          ow \<leftarrow> (if \<not> mp_condswap pkt then Some True
                 else if mp_size pkt = 8 then Some (bytes_of 8 (mp_extra pkt) = old)
                 else if mp_size pkt = 4 then Some (bytes_of 4 (mp_extra pkt) = old)
                 else None);
          let m1 = (if ow then m\<lparr>pmem := write_bytes a (mp_data pkt) (pmem m)\<rparr> else m);
          Some (pkt\<lparr>mp_data := old\<rparr>, m1\<lparr>numOther := (numOther m1)(mp_master pkt := numOther m1 (mp_master pkt) + 1)\<rparr>) }"

definition read_access :: "mem_packet \<Rightarrow> amem \<Rightarrow> mem_packet \<times> amem" where
  "read_access pkt m =
     (let m1 = (if mp_llsc pkt then trackLoadLocked pkt m else m)
      in (pkt\<lparr>mp_data := read_bytes (pmem m1) (mp_addr pkt) (mp_size pkt)\<rparr>,
          m1\<lparr>numReads := (numReads m1)(mp_master pkt := numReads m1 (mp_master pkt) + 1),
             bytesRead := (bytesRead m1)(mp_master pkt := bytesRead m1 (mp_master pkt) + mp_size pkt)\<rparr>))"

definition write_access :: "(u32 \<Rightarrow> u32 \<Rightarrow> u32) \<Rightarrow> mem_packet \<Rightarrow> amem \<Rightarrow> (mem_packet \<times> amem) option" where
  "write_access fadd pkt m =
     (let (ok, pkt1, m1) = writeOK pkt m
      in if \<not> ok then Some (pkt1, m1)
         else case mp_hmc pkt of
                Some c \<Rightarrow> map_option (\<lambda>m2. (pkt1\<lparr>mp_hmc := None\<rparr>, count_write pkt m2)) (hmc_command fadd c (mp_addr pkt) (mp_size pkt) m1)
              | None \<Rightarrow> Some (pkt1, count_write pkt (m1\<lparr>pmem := write_bytes (mp_addr pkt) (mp_data pkt) (pmem m1)\<rparr>)))"

text \<open>A packet carries as many bytes as its size says.\<close>

definition access :: "(u32 \<Rightarrow> u32 \<Rightarrow> u32) \<Rightarrow> mem_packet \<Rightarrow> amem \<Rightarrow> (mem_packet \<times> amem) option" where
  "access fadd pkt m =
     (if isSubset (AddrRange (mp_addr pkt) (mp_addr pkt + of_nat (mp_size pkt) - 1)) (mem_range m) \<noteq> Some True then None
      else if mp_inhibit pkt then Some (pkt, m)
      else case mp_cmd pkt of
             SwapReq \<Rightarrow> swap_access pkt m
           | ReadReq \<Rightarrow> Some (read_access pkt m)
           | WriteReq \<Rightarrow> write_access fadd pkt m
           | InvalidateReq \<Rightarrow> Some (pkt, m)
           | OtherReq \<Rightarrow> None)"

definition functionalAccess :: "mem_packet \<Rightarrow> amem \<Rightarrow> (mem_packet \<times> amem) option" where
  "functionalAccess pkt m =
     (if isSubset (AddrRange (mp_addr pkt) (mp_addr pkt + of_nat (mp_size pkt) - 1)) (mem_range m) \<noteq> Some True then None
      else case mp_cmd pkt of
             ReadReq \<Rightarrow> Some (pkt\<lparr>mp_data := read_bytes (pmem m) (mp_addr pkt) (mp_size pkt)\<rparr>, m)
           | SwapReq \<Rightarrow> Some (pkt\<lparr>mp_data := read_bytes (pmem m) (mp_addr pkt) (mp_size pkt)\<rparr>, m)
           | WriteReq \<Rightarrow> Some (pkt, m\<lparr>pmem := write_bytes (mp_addr pkt) (mp_data pkt) (pmem m)\<rparr>)
           | _ \<Rightarrow> None)"

fun access_run :: "(u32 \<Rightarrow> u32 \<Rightarrow> u32) \<Rightarrow> mem_packet list \<Rightarrow> amem \<Rightarrow> (mem_packet list \<times> amem) option" where
  "access_run fadd [] m = Some ([], m)"
| "access_run fadd (p # ps) m = do { (r, m1) \<leftarrow> access fadd p m; (rs, m2) \<leftarrow> access_run fadd ps m1; Some (r # rs, m2) }"

subsection \<open>Reservations\<close>

text \<open>Each context holds at most one reservation.\<close>

definition locks_ok :: "amem \<Rightarrow> bool" where
  "locks_ok m \<longleftrightarrow> distinct (map snd (lockedAddrList m))"

definition reserved :: "amem \<Rightarrow> u64 \<Rightarrow> int \<Rightarrow> bool" where
  "reserved m g c \<longleftrightarrow> (g, c) \<in> set (lockedAddrList m)"

lemma set_record_Some: "set_record a c rs = Some qs \<Longrightarrow> map snd qs = map snd rs \<and> set qs \<subseteq> insert (a, c) (set rs) \<and> (a, c) \<in> set qs \<and>
    (\<forall>g d. d \<noteq> c \<longrightarrow> (g, d) \<in> set qs \<longleftrightarrow> (g, d) \<in> set rs)"
proof (induction rs arbitrary: qs)
  case (Cons r rs)
  then show ?case by (cases r) (auto split: if_splits)
qed simp

lemma set_record_None: "set_record a c rs = None \<longleftrightarrow> c \<notin> snd ` set rs"
  by (induction rs) auto

lemma track_ok:
  assumes "locks_ok m"
  shows "locks_ok (trackLoadLocked pkt m)" "reserved (trackLoadLocked pkt m) (mask_addr (mp_addr pkt)) (mp_context pkt)"
    "d \<noteq> mp_context pkt \<Longrightarrow> reserved (trackLoadLocked pkt m) g d \<longleftrightarrow> reserved m g d"
  using assms set_record_Some [of "mask_addr (mp_addr pkt)" "mp_context pkt" "lockedAddrList m"]
    set_record_None [of "mask_addr (mp_addr pkt)" "mp_context pkt" "lockedAddrList m"]
  by (auto simp: trackLoadLocked_def locks_ok_def reserved_def Let_def split: option.splits)

text \<open>A write of this packet goes through: it is unconditional, or its context holds the reservation.\<close>

definition effective :: "amem \<Rightarrow> mem_packet \<Rightarrow> bool" where
  "effective m p \<longleftrightarrow> mp_cmd p = WriteReq \<and> \<not> mp_inhibit p \<and> (mp_llsc p \<longrightarrow> reserved m (mask_addr (mp_addr p)) (mp_context p))"

lemma hmc_command_locks: "hmc_command fadd c a n m = Some m' \<Longrightarrow> lockedAddrList m' = lockedAddrList m \<and> mem_range m' = mem_range m"
  by (auto simp: hmc_command_def Let_def split: hmc_cmd.splits if_splits)

lemma writeOK_locks:
  assumes "writeOK p m = (ok, p', m')"
  shows "ok \<longleftrightarrow> \<not> mp_llsc p \<or> reserved m (mask_addr (mp_addr p)) (mp_context p)"
    and "pmem m' = pmem m" and "mp_llsc p \<Longrightarrow> mp_extra p' = (if ok then 1 else 0)"
    and "lockedAddrList m' = (if ok then filter (\<lambda>r. fst r \<noteq> mask_addr (mp_addr p)) (lockedAddrList m) else lockedAddrList m)"
  using assms by (auto simp: writeOK_def checkLockedAddrList_def reserved_def Let_def split: if_splits)

lemma write_access_locks:
  assumes "write_access fadd p m = Some (r, m')"
  shows "lockedAddrList m' = (if \<not> mp_llsc p \<or> reserved m (mask_addr (mp_addr p)) (mp_context p)
      then filter (\<lambda>q. fst q \<noteq> mask_addr (mp_addr p)) (lockedAddrList m) else lockedAddrList m)"
    and "mp_llsc p \<Longrightarrow> mp_extra r = (if reserved m (mask_addr (mp_addr p)) (mp_context p) then 1 else 0)"
    and "\<not> (\<not> mp_llsc p \<or> reserved m (mask_addr (mp_addr p)) (mp_context p)) \<Longrightarrow> pmem m' = pmem m"
proof -
  obtain ok p1 m1 where w: "writeOK p m = (ok, p1, m1)" by (metis prod_cases3)
  note wl = writeOK_locks [OF w]
  show "lockedAddrList m' = (if \<not> mp_llsc p \<or> reserved m (mask_addr (mp_addr p)) (mp_context p)
      then filter (\<lambda>q. fst q \<noteq> mask_addr (mp_addr p)) (lockedAddrList m) else lockedAddrList m)"
    using assms wl(1,4) by (auto simp: write_access_def w count_write_def dest!: hmc_command_locks split: if_splits option.splits)
  show "mp_extra r = (if reserved m (mask_addr (mp_addr p)) (mp_context p) then 1 else 0)" if "mp_llsc p"
    using assms wl(1) wl(3) [OF that] that by (auto simp: write_access_def w split: if_splits option.splits)
  show "pmem m' = pmem m" if "\<not> (\<not> mp_llsc p \<or> reserved m (mask_addr (mp_addr p)) (mp_context p))"
    using assms wl(1,2) that by (auto simp: write_access_def w)
qed

lemma swap_locks: "swap_access p m = Some (r, m') \<Longrightarrow> lockedAddrList m' = lockedAddrList m"
  by (auto simp: swap_access_def Let_def bind_eq_Some_conv split: if_splits)

lemma read_access_locks: "read_access p m = (r, m') \<Longrightarrow> lockedAddrList m' = lockedAddrList (if mp_llsc p then trackLoadLocked p m else m) \<and> pmem m' = pmem m"
  by (auto simp: read_access_def Let_def trackLoadLocked_def split: option.splits)

lemma access_locks_ok:
  assumes "locks_ok m" "access fadd p m = Some (r, m')"
  shows "locks_ok m'"
proof (cases "mp_cmd p")
  case ReadReq
  then show ?thesis using assms track_ok(1) [OF assms(1), of p] read_access_locks [of p m r m']
    by (auto simp: access_def locks_ok_def split: if_splits)
next
  case WriteReq
  then show ?thesis using assms write_access_locks(1) [of fadd p m r m']
    by (auto simp: access_def locks_ok_def distinct_map inj_on_def split: if_splits)
qed (use assms in \<open>auto simp: access_def locks_ok_def split: if_splits dest!: swap_locks\<close>)

text \<open>A reservation lasts until a write to its granule goes through or its context locks another address.\<close>

lemma reserved_step:
  assumes "locks_ok m" "access fadd p m = Some (r, m')" "\<not> (mp_cmd p = ReadReq \<and> mp_llsc p \<and> mp_context p = c)"
  shows "reserved m' g c \<longleftrightarrow> reserved m g c \<and> \<not> (effective m p \<and> mask_addr (mp_addr p) = g)"
proof (cases "mp_cmd p")
  case ReadReq
  then show ?thesis using assms track_ok(3) [OF assms(1), of c p g] read_access_locks [of p m r m']
    by (auto simp: access_def reserved_def effective_def split: if_splits)
next
  case WriteReq
  then show ?thesis using assms(2) write_access_locks(1) [of fadd p m r m']
    by (auto simp: access_def reserved_def effective_def split: if_splits)
qed (use assms in \<open>auto simp: access_def reserved_def effective_def split: if_splits dest!: swap_locks\<close>)

subsection \<open>Granules\<close>

lemma mask_drop: "mask_addr a = push_bit 4 (drop_bit 4 a)"
proof (rule bit_word_eqI)
  fix i assume i: "i < LENGTH(64)"
  have m: "(0xF :: u64) = mask 4" by (simp add: mask_eq_exp_minus_1)
  show "bit (mask_addr a) i = bit (push_bit 4 (drop_bit 4 a)) i"
    unfolding mask_addr_def m using i by (auto simp: bit_and_iff bit_not_iff bit_mask_iff bit_push_bit_iff bit_drop_bit_eq not_less)
qed

lemma unat_drop4: "unat (drop_bit 4 a :: u64) = unat a div 16"
proof -
  have "unat (drop_bit 4 a) = unat a div 2 ^ 4" by (metis drop_bit_eq_div unat_drop_bit_eq)
  then show ?thesis by simp
qed

lemma mask_eq: "mask_addr a = mask_addr b \<longleftrightarrow> unat a div 16 = unat b div 16"
proof
  assume "unat a div 16 = unat b div 16"
  then have "unat (drop_bit 4 a) = unat (drop_bit 4 b)" by (simp add: unat_drop4)
  then have "drop_bit 4 a = drop_bit 4 b" by (simp only: word_unat_eq_iff)
  then show "mask_addr a = mask_addr b" by (simp add: mask_drop)
next
  assume "mask_addr a = mask_addr b"
  then have "drop_bit 4 (mask_addr a) = drop_bit 4 (mask_addr b)" by simp
  moreover have "drop_bit 4 (mask_addr x) = drop_bit 4 x" for x
    unfolding mask_drop by (rule bit_word_eqI) (auto simp: bit_drop_bit_eq bit_push_bit_iff dest: bit_imp_le_length)
  ultimately have "drop_bit 4 a = drop_bit 4 b" by simp
  then show "unat a div 16 = unat b div 16" using unat_drop4 [of a] unat_drop4 [of b] by simp
qed

lemma mask_within:
  assumes "unat a mod 16 + i < 16"
  shows "mask_addr (a + of_nat i) = mask_addr a"
proof -
  have "unat a < 2 ^ LENGTH(64)" by (rule unsigned_less)
  then have "unat a div 16 * 16 + 16 \<le> 2 ^ 64" by (simp add: less_eq_div_iff_mult_less_eq)
  then have "unat a + i < 2 ^ 64" using assms div_mult_mod_eq [of "unat a" 16] by linarith
  then have "unat (of_nat (unat a + i) :: u64) = unat a + i" by (rule unat_of_nat_u64)
  then have "unat (a + of_nat i) = unat a + i" by simp
  moreover have "(unat a + i) div 16 = unat a div 16"
  proof -
    have "unat a + i = 16 * (unat a div 16) + (unat a mod 16 + i)" by simp
    then have "(unat a + i) div 16 = (16 * (unat a div 16) + (unat a mod 16 + i)) div 16" by (rule arg_cong)
    also have "\<dots> = unat a div 16 + (unat a mod 16 + i) div 16" by (rule div_mult_self4) simp
    also have "(unat a mod 16 + i) div 16 = 0" by (rule div_less) (rule assms)
    finally show ?thesis by simp
  qed
  ultimately show ?thesis unfolding mask_eq by (rule trans [OF arg_cong])
qed

lemma write_bytes_other: "\<forall>i<length bs. x \<noteq> a + of_nat i \<Longrightarrow> write_bytes a bs f x = f x"
proof (induction bs arbitrary: a f)
  case (Cons b bs)
  have "x \<noteq> a" using Cons.prems [rule_format, of 0] by simp
  moreover have "x \<noteq> a + 1 + of_nat i" if "i < length bs" for i using Cons.prems [rule_format, of "Suc i"] that by (simp add: add.assoc)
  ultimately have "write_bytes (a + 1) bs (f(a := b)) x = (f(a := b)) x" by (intro Cons.IH) blast
  also have "\<dots> = f x" using \<open>x \<noteq> a\<close> by simp
  finally show ?case by simp
qed simp

lemma length_bytes_of: "length (bytes_of n w) = n"
  by (induction n arbitrary: w) auto

text \<open>A write that stays in the granule of its first byte.\<close>

definition granule_local :: "mem_packet \<Rightarrow> bool" where
  "granule_local p \<longleftrightarrow> length (mp_data p) = mp_size p \<and> unat (mp_addr p) mod 16 + (case mp_hmc p of Some (HMC_CMD_FADD _) \<Rightarrow> 4 | _ \<Rightarrow> mp_size p) \<le> 16"

lemma write_bytes_granule:
  assumes "unat a mod 16 + length bs \<le> 16" "mask_addr x \<noteq> mask_addr a"
  shows "write_bytes a bs f x = f x"
proof (rule write_bytes_other, intro allI impI)
  fix i assume "i < length bs"
  then have "mask_addr (a + of_nat i) = mask_addr a" using assms(1) by (intro mask_within) simp
  then show "x \<noteq> a + of_nat i" using assms(2) by auto
qed

lemma hmc_command_granule:
  assumes "hmc_command fadd c a n m = Some m'" "unat a mod 16 + (case c of HMC_CMD_FADD _ \<Rightarrow> 4 | _ \<Rightarrow> n) \<le> 16" "mask_addr x \<noteq> mask_addr a"
  shows "pmem m' x = pmem m x"
  using assms by (auto simp: hmc_command_def write32_def write64_def Let_def write_bytes_granule length_bytes_of split: hmc_cmd.splits if_splits)

lemma write_access_granule:
  assumes "write_access fadd p m = Some (r, m')" "granule_local p" "mask_addr x \<noteq> mask_addr (mp_addr p)"
  shows "pmem m' x = pmem m x"
proof -
  obtain ok p1 m1 where w: "writeOK p m = (ok, p1, m1)" by (metis prod_cases3)
  have p1: "pmem m1 = pmem m" by (rule writeOK_locks(2) [OF w])
  show ?thesis
  proof (cases "mp_hmc p")
    case (Some c)
    have "pmem m2 x = pmem m1 x" if "hmc_command fadd c (mp_addr p) (mp_size p) m1 = Some m2" for m2
      by (rule hmc_command_granule [OF that _ assms(3)]) (use assms(2) Some in \<open>auto simp: granule_local_def split: hmc_cmd.splits\<close>)
    then show ?thesis using assms(1) Some p1 by (auto simp: write_access_def w count_write_def split: if_splits)
  next
    case None
    then show ?thesis using assms p1 write_bytes_granule [OF _ assms(3), of "mp_data p" "pmem m"]
      by (auto simp: write_access_def w count_write_def granule_local_def split: if_splits)
  qed
qed

lemma access_granule:
  assumes "access fadd p m = Some (r, m')" "granule_local p" "mp_cmd p \<noteq> SwapReq" "\<not> (effective m p \<and> mask_addr (mp_addr p) = mask_addr x)"
  shows "pmem m' x = pmem m x"
proof (cases "mp_cmd p")
  case ReadReq
  then show ?thesis using assms read_access_locks [of p m r m'] by (auto simp: access_def split: if_splits)
next
  case WriteReq
  show ?thesis
  proof (cases "effective m p \<or> mp_inhibit p")
    case True
    then show ?thesis using assms WriteReq write_access_granule [OF _ assms(2), of fadd m r m' x] by (auto simp: access_def effective_def split: if_splits)
  next
    case False
    then have "\<not> (\<not> mp_llsc p \<or> reserved m (mask_addr (mp_addr p)) (mp_context p))" using WriteReq by (auto simp: effective_def)
    then show ?thesis using assms(1) WriteReq False write_access_locks(3) [of fadd p m r m'] by (auto simp: access_def split: if_splits)
  qed
qed (use assms in \<open>auto simp: access_def split: if_splits\<close>)

text \<open>Whether a write to the granule goes through during a run.\<close>

fun stored :: "(u32 \<Rightarrow> u32 \<Rightarrow> u32) \<Rightarrow> u64 \<Rightarrow> mem_packet list \<Rightarrow> amem \<Rightarrow> bool" where
  "stored fadd g [] m = False"
| "stored fadd g (p # ps) m = (effective m p \<and> mask_addr (mp_addr p) = g \<or> (case access fadd p m of Some (r, m1) \<Rightarrow> stored fadd g ps m1 | None \<Rightarrow> False))"

lemma run_reserved:
  assumes "locks_ok m" "access_run fadd ps m = Some (rs, m')" "\<forall>p \<in> set ps. \<not> (mp_cmd p = ReadReq \<and> mp_llsc p \<and> mp_context p = c)"
  shows "locks_ok m'" "reserved m' g c \<longleftrightarrow> reserved m g c \<and> \<not> stored fadd g ps m"
proof -
  have "locks_ok m' \<and> (reserved m' g c \<longleftrightarrow> reserved m g c \<and> \<not> stored fadd g ps m)"
    using assms
  proof (induction ps arbitrary: m rs)
    case (Cons p ps)
    from Cons.prems(2) obtain r m1 qs where a: "access fadd p m = Some (r, m1)" "access_run fadd ps m1 = Some (qs, m')" by (auto simp: bind_eq_Some_conv)
    then show ?case using Cons.IH [OF access_locks_ok [OF Cons.prems(1) a(1)] a(2)] reserved_step [OF Cons.prems(1) a(1), of c g] Cons.prems(3) by auto
  qed simp
  then show "locks_ok m'" "reserved m' g c \<longleftrightarrow> reserved m g c \<and> \<not> stored fadd g ps m" by blast+
qed

lemma run_unchanged:
  assumes "access_run fadd ps m = Some (rs, m')" "\<forall>p \<in> set ps. mp_cmd p \<noteq> SwapReq \<and> granule_local p" "\<not> stored fadd (mask_addr x) ps m"
  shows "pmem m' x = pmem m x"
  using assms
proof (induction ps arbitrary: m rs)
  case (Cons p ps)
  from Cons.prems(1) obtain r m1 qs where a: "access fadd p m = Some (r, m1)" "access_run fadd ps m1 = Some (qs, m')" by (auto simp: bind_eq_Some_conv)
  have "pmem m' x = pmem m1 x" using Cons.IH [OF a(2)] Cons.prems(2,3) a(1) by simp
  moreover have "pmem m1 x = pmem m x" by (rule access_granule [OF a(1)]) (use Cons.prems(2,3) in auto)
  ultimately show ?case by simp
qed simp


definition ex_mem :: amem where
  "ex_mem = \<lparr>mem_range = AddrRange 0 0xFFFF, pmem = (\<lambda>_. 0), lockedAddrList = [], wakeups = [], numReads = (\<lambda>_. 0), numWrites = (\<lambda>_. 0), numOther = (\<lambda>_. 0),
     bytesRead = (\<lambda>_. 0), bytesWritten = (\<lambda>_. 0), atomic_inc_count = 0, atomic_fadd_count = 0, atomic_min_count = 0\<rparr>"

definition mk_packet :: "mem_cmd \<Rightarrow> u64 \<Rightarrow> u8 list \<Rightarrow> bool \<Rightarrow> int \<Rightarrow> mem_packet" where
  "mk_packet cmd a ds llsc c = \<lparr>mp_cmd = cmd, mp_addr = a, mp_size = length ds, mp_data = ds, mp_llsc = llsc, mp_condswap = False, mp_extra = 7, mp_context = c, mp_master = 0,
     mp_inhibit = False, mp_hmc = None\<rparr>"

lemmas ex_access = access_def read_access_def write_access_def swap_access_def writeOK_def checkLockedAddrList_def trackLoadLocked_def ex_mem_def mk_packet_def
  isSubset_def contains_def interleaved_def AddrRange_def mask_addr_def count_write_def effective_def reserved_def


text \<open>
  C34. The exceptions: a swap to a locked address, and a write that begins in the granule before it, change the locked bytes and leave the reservation, so that the store-conditional
  succeeds although the bytes are not those the load-locked saw.
\<close>

theorem llsc_gaps:
  assumes "reserved m (mask_addr a) c" and "isSubset (AddrRange a a) (mem_range m) = Some True" and "b \<noteq> pmem m a"
    and "mask_addr a \<noteq> mask_addr (a - 1)" and "isSubset (AddrRange (a - 1) a) (mem_range m) = Some True"
  shows "\<forall>p \<in> {mk_packet SwapReq a [b] False d, mk_packet WriteReq (a - 1) [e, b] False d}.
    \<exists>r m1 q m2. access fadd p m = Some (r, m1) \<and> pmem m1 a \<noteq> pmem m a \<and> access fadd (mk_packet WriteReq a [f] True c) m1 = Some (q, m2) \<and> mp_extra q = 1"
proof -
  have sc: "\<exists>q m2. access fadd (mk_packet WriteReq a [f] True c) m1 = Some (q, m2) \<and> mp_extra q = 1" if "reserved m1 (mask_addr a) c" "mem_range m1 = mem_range m" for m1
    using that assms(2) by (auto simp: access_def write_access_def writeOK_def checkLockedAddrList_def reserved_def mk_packet_def Let_def)
  have r: "reserved m' (mask_addr a) c" if "lockedAddrList m' = lockedAddrList m \<or> lockedAddrList m' = filter (\<lambda>r. fst r \<noteq> mask_addr (a - 1)) (lockedAddrList m)" for m'
    using that assms(1,4) by (auto simp: reserved_def)
  have "\<exists>r m1. access fadd (mk_packet SwapReq a [b] False d) m = Some (r, m1) \<and> pmem m1 a = b \<and> reserved m1 (mask_addr a) c \<and> mem_range m1 = mem_range m"
    using assms(2) r by (simp add: access_def swap_access_def mk_packet_def Let_def)
  moreover have "\<exists>r m1. access fadd (mk_packet WriteReq (a - 1) [e, b] False d) m = Some (r, m1) \<and> pmem m1 a = b \<and> reserved m1 (mask_addr a) c \<and> mem_range m1 = mem_range m"
    using assms(5) r by (auto simp: access_def write_access_def writeOK_def checkLockedAddrList_def count_write_def mk_packet_def Let_def)
  ultimately show ?thesis using sc assms(3) by (metis (no_types, lifting) insert_iff singletonD)
qed

theorem llsc_gaps_witness:
  "\<exists>m. reserved m 0x20 1 \<and> (\<forall>p \<in> {mk_packet SwapReq 0x20 [5] False 2, mk_packet WriteReq 0x1F [4, 5] False 2}.
    \<exists>r m1 q m2. access (\<lambda>x y. x) p m = Some (r, m1) \<and> pmem m1 0x20 \<noteq> pmem m 0x20 \<and> access (\<lambda>x y. x) (mk_packet WriteReq 0x20 [9] True 1) m1 = Some (q, m2) \<and> mp_extra q = 1)"
  using llsc_gaps [of "ex_mem\<lparr>lockedAddrList := [(0x20, 1)]\<rparr>" "0x20" 1 5 2 4 "\<lambda>x y. x" 9]
  by (intro exI [of _ "ex_mem\<lparr>lockedAddrList := [(0x20, 1)]\<rparr>"]) (simp add: reserved_def mask_addr_def ex_mem_def isSubset_def interleaved_def AddrRange_def)

end
