(* ===== verification/PIM_Handshake.thy ===== *)
theory PIM_Handshake
  imports PIM_Requests
begin

text \<open>
  The handshake between the host (\<open>HOST/api/pim_api.cc\<close>) and the resident code of the PIM (\<open>PIM/resident/resident.c\<close>, \<open>utils.h\<close>): the
  host gives a command and wakes the PIM up, the PIM executes it and waits until the host takes it back. The two run
  interleaved, one access to a shared register at a time; the interrupt lines and the sleeping state of the PIM processor are those of gem5
  (\<open>arch/arm/interrupts.hh\<close>, \<open>cpu/base.hh\<close>). The offloaded kernel is an argument \<open>K\<close>, a function on the data registers: a kernel that returns.
\<close>

subsection \<open>The processor of the PIM\<close>

datatype int_type = INT_RST | INT_ABT | INT_IRQ | INT_FIQ | INT_SEV | INT_VIRT_IRQ | INT_VIRT_FIQ

record cpu =
  interrupts :: "int_type \<Rightarrow> bool"
  suspended :: bool

definition int_post :: "int_type \<Rightarrow> cpu \<Rightarrow> cpu" where
  "int_post t c = c\<lparr>interrupts := (interrupts c)(t := True)\<rparr>"

definition int_clear :: "int_type \<Rightarrow> cpu \<Rightarrow> cpu" where
  "int_clear t c = c\<lparr>interrupts := (interrupts c)(t := False)\<rparr>"

definition wakeup :: "cpu \<Rightarrow> cpu" where
  "wakeup c = (if \<not> suspended c then c else c\<lparr>suspended := False\<rparr>)"

definition postInterrupt :: "int_type \<Rightarrow> cpu \<Rightarrow> cpu" where
  "postInterrupt t c = wakeup (int_post t c)"

definition clearInterrupt :: "int_type \<Rightarrow> cpu \<Rightarrow> cpu" where
  "clearInterrupt t c = int_clear t c"

text \<open>Without a hypervisor, whose bits are zero on this processor, only the physical lines count.\<close>

definition checkWfiWake :: "cpu \<Rightarrow> bool" where
  "checkWfiWake c \<longleftrightarrow> list_ex (interrupts c) [INT_RST, INT_ABT, INT_IRQ, INT_FIQ, INT_SEV]"

definition wfi :: "cpu \<Rightarrow> cpu" where
  "wfi c = clearInterrupt INT_ABT (if checkWfiWake c then c else c\<lparr>suspended := True\<rparr>)"

subsection \<open>Registers\<close>

definition PIM_COMMAND_NOP :: u8 where "PIM_COMMAND_NOP = 0x4E"
definition PIM_COMMAND_HALT :: u8 where "PIM_COMMAND_HALT = 0x48"
definition PIM_COMMAND_DEMO :: u8 where "PIM_COMMAND_DEMO = 0x44"
definition PIM_COMMAND_RUN_KERNEL :: u8 where "PIM_COMMAND_RUN_KERNEL = 0x4B"
definition PIM_STATUS_SLEEP :: u8 where "PIM_STATUS_SLEEP = 0x53"
definition PIM_STATUS_BUSY :: u8 where "PIM_STATUS_BUSY = 0x42"
definition PIM_STATUS_DONE :: u8 where "PIM_STATUS_DONE = 0x44"
definition PIM_ERROR_NONE :: u8 where "PIM_ERROR_NONE = 0"
definition PIM_ERROR_FAIL :: u8 where "PIM_ERROR_FAIL = 1"

lemmas command_values = PIM_COMMAND_NOP_def PIM_COMMAND_HALT_def PIM_COMMAND_DEMO_def PIM_COMMAND_RUN_KERNEL_def
  PIM_STATUS_SLEEP_def PIM_STATUS_BUSY_def PIM_STATUS_DONE_def

record pim_data_regs =
  vreg_bytes :: "nat \<Rightarrow> u8"
  sreg_words :: "nat \<Rightarrow> u32"

text \<open>Where the two programs are: in the host, \<open>start_computation\<close> and \<open>wait_for_completion\<close>; in the PIM, \<open>c_entry\<close> with the functions it calls.\<close>

datatype host_pc = H_Ready | H_Poll_Sleep u8 | H_Give u8 | H_Wake | H_Poll_Done | H_Nop

datatype pim_pc = P_Init_Status | P_Init_Command | P_Init_Data | P_Wfi | P_Woken | P_Busy | P_Execute | P_Done | P_Wait | P_Clear | P_Sleep | P_Failed

datatype host_event = Wrote_vreg "nat \<Rightarrow> u8" | Wrote_sreg nat u32 | Gave u8

record hs =
  status_reg :: u8
  command_reg :: u8
  error_reg :: u8
  data_regs :: pim_data_regs
  pim_cpu :: cpu
  hpc :: host_pc
  ppc :: pim_pc
  hlog :: "host_event list"

subsection \<open>The resident code\<close>

definition initialize_data :: "nat \<Rightarrow> nat \<Rightarrow> pim_data_regs \<Rightarrow> pim_data_regs" where
  "initialize_data vn sn d = d\<lparr>vreg_bytes := (\<lambda>i. if i < vn then 0 else vreg_bytes d i), sreg_words := (\<lambda>i. if i < sn then 0 else sreg_words d i)\<rparr>"

definition execute_demo :: "nat \<Rightarrow> pim_data_regs \<Rightarrow> pim_data_regs" where
  "execute_demo vn d = d\<lparr>vreg_bytes := (\<lambda>i. if i < vn then vreg_bytes d i + 1 else vreg_bytes d i)\<rparr>"

text \<open>\<open>None\<close> is \<open>pim_error\<close>.\<close>

definition execute_command :: "(pim_data_regs \<Rightarrow> pim_data_regs) \<Rightarrow> nat \<Rightarrow> u8 \<Rightarrow> pim_data_regs \<Rightarrow> pim_data_regs option" where
  "execute_command K vn c d =
     (if c = PIM_COMMAND_NOP then None
      else if c = PIM_COMMAND_DEMO then Some (execute_demo vn d)
      else if c = PIM_COMMAND_RUN_KERNEL then Some (K d)
      else None)"

definition pim_error :: "hs \<Rightarrow> hs" where
  "pim_error s = s\<lparr>error_reg := PIM_ERROR_FAIL, ppc := P_Failed\<rparr>"

definition new_command_received :: "hs \<Rightarrow> hs" where
  "new_command_received s = (if command_reg s \<noteq> PIM_COMMAND_NOP then s\<lparr>ppc := P_Busy\<rparr> else pim_error s)"

definition command_done_wait :: "hs \<Rightarrow> hs" where
  "command_done_wait s = (if command_reg s \<noteq> PIM_COMMAND_NOP then s else s\<lparr>ppc := P_Clear\<rparr>)"

text \<open>One step of the PIM; \<open>None\<close> while the processor is suspended and after an error, which ends the simulation.\<close>

definition pim_step :: "(pim_data_regs \<Rightarrow> pim_data_regs) \<Rightarrow> nat \<Rightarrow> nat \<Rightarrow> hs \<Rightarrow> hs option" where
  "pim_step K vn sn s =
     (if suspended (pim_cpu s) then None
      else case ppc s of
        P_Init_Status \<Rightarrow> Some (s\<lparr>status_reg := PIM_STATUS_SLEEP, ppc := P_Init_Command\<rparr>)
      | P_Init_Command \<Rightarrow> Some (s\<lparr>command_reg := PIM_COMMAND_NOP, ppc := P_Init_Data\<rparr>)
      | P_Init_Data \<Rightarrow> Some (s\<lparr>error_reg := PIM_ERROR_NONE, data_regs := initialize_data vn sn (data_regs s), ppc := P_Wfi\<rparr>)
      | P_Wfi \<Rightarrow> Some (s\<lparr>pim_cpu := wfi (pim_cpu s), ppc := P_Woken\<rparr>)
      | P_Woken \<Rightarrow> Some (new_command_received s)
      | P_Busy \<Rightarrow> Some (s\<lparr>status_reg := PIM_STATUS_BUSY, ppc := P_Execute\<rparr>)
      | P_Execute \<Rightarrow>
          (case execute_command K vn (command_reg s) (data_regs s) of
             Some d \<Rightarrow> Some (s\<lparr>data_regs := d, ppc := P_Done\<rparr>)
           | None \<Rightarrow> Some (pim_error s))
      | P_Done \<Rightarrow> Some (s\<lparr>status_reg := PIM_STATUS_DONE, ppc := P_Wait\<rparr>)
      | P_Wait \<Rightarrow> Some (command_done_wait s)
      | P_Clear \<Rightarrow> Some (s\<lparr>pim_cpu := clearInterrupt INT_IRQ (pim_cpu s), ppc := P_Sleep\<rparr>)
      | P_Sleep \<Rightarrow> Some (s\<lparr>status_reg := PIM_STATUS_SLEEP, ppc := P_Wfi\<rparr>)
      | P_Failed \<Rightarrow> None)"

subsection \<open>The host\<close>

definition check_status :: "hs \<Rightarrow> u8" where
  "check_status s = status_reg s"

definition give_command :: "u8 \<Rightarrow> hs \<Rightarrow> hs" where
  "give_command c s = s\<lparr>command_reg := c\<rparr>"

text \<open>A write to the interrupt register: the memory of the PIM posts the interrupt and clears it at once.\<close>

definition wake_up :: "hs \<Rightarrow> hs" where
  "wake_up s = s\<lparr>pim_cpu := clearInterrupt INT_IRQ (postInterrupt INT_IRQ (pim_cpu s))\<rparr>"

definition write_vreg :: "nat \<Rightarrow> (nat \<Rightarrow> u8) \<Rightarrow> pim_data_regs \<Rightarrow> pim_data_regs" where
  "write_vreg vn v d = d\<lparr>vreg_bytes := (\<lambda>i. if i < vn then v i else vreg_bytes d i)\<rparr>"

definition write_sreg :: "nat \<Rightarrow> u32 \<Rightarrow> pim_data_regs \<Rightarrow> pim_data_regs" where
  "write_sreg i x d = d\<lparr>sreg_words := (sreg_words d)(i := x)\<rparr>"

text \<open>The steps of the host, which uses the commands of the interface, and of the PIM.\<close>

inductive hs_step :: "(pim_data_regs \<Rightarrow> pim_data_regs) \<Rightarrow> nat \<Rightarrow> nat \<Rightarrow> hs \<Rightarrow> hs \<Rightarrow> bool" for K vn sn where
  h_vreg: "hpc s = H_Ready \<Longrightarrow> hs_step K vn sn s (s\<lparr>data_regs := write_vreg vn v (data_regs s), hlog := hlog s @ [Wrote_vreg v]\<rparr>)"
| h_sreg: "hpc s = H_Ready \<Longrightarrow> hs_step K vn sn s (s\<lparr>data_regs := write_sreg i x (data_regs s), hlog := hlog s @ [Wrote_sreg i x]\<rparr>)"
| h_start: "hpc s = H_Ready \<Longrightarrow> c \<in> {PIM_COMMAND_DEMO, PIM_COMMAND_RUN_KERNEL} \<Longrightarrow> hs_step K vn sn s (s\<lparr>hpc := H_Poll_Sleep c\<rparr>)"
| h_sleep: "hpc s = H_Poll_Sleep c \<Longrightarrow> hs_step K vn sn s (s\<lparr>hpc := if check_status s \<noteq> PIM_STATUS_SLEEP then H_Poll_Sleep c else H_Give c\<rparr>)"
| h_give: "hpc s = H_Give c \<Longrightarrow> hs_step K vn sn s ((give_command c s)\<lparr>hpc := H_Wake, hlog := hlog s @ [Gave c]\<rparr>)"
| h_wake: "hpc s = H_Wake \<Longrightarrow> hs_step K vn sn s ((wake_up s)\<lparr>hpc := H_Poll_Done\<rparr>)"
| h_done: "hpc s = H_Poll_Done \<Longrightarrow> hs_step K vn sn s (s\<lparr>hpc := if check_status s \<noteq> PIM_STATUS_DONE then H_Poll_Done else H_Nop\<rparr>)"
| h_nop: "hpc s = H_Nop \<Longrightarrow> hs_step K vn sn s ((give_command PIM_COMMAND_NOP s)\<lparr>hpc := H_Ready\<rparr>)"
| p_step: "pim_step K vn sn s = Some t \<Longrightarrow> hs_step K vn sn s t"

inductive_cases hs_stepE: "hs_step K vn sn s t"

text \<open>Before the resident code runs the registers hold whatever the memory holds.\<close>

definition power_on :: "u8 \<Rightarrow> u8 \<Rightarrow> pim_data_regs \<Rightarrow> hs" where
  "power_on st c d = \<lparr>status_reg = st, command_reg = c, error_reg = 0, data_regs = d, pim_cpu = \<lparr>interrupts = (\<lambda>_. False), suspended = False\<rparr>,
     hpc = H_Ready, ppc = P_Init_Status, hlog = []\<rparr>"

definition initialized :: "pim_data_regs \<Rightarrow> hs" where
  "initialized d = (power_on PIM_STATUS_SLEEP PIM_COMMAND_NOP d)\<lparr>ppc := P_Wfi\<rparr>"

subsection \<open>The invariant\<close>

fun replay_event :: "(pim_data_regs \<Rightarrow> pim_data_regs) \<Rightarrow> nat \<Rightarrow> host_event \<Rightarrow> pim_data_regs \<Rightarrow> pim_data_regs" where
  "replay_event K vn (Wrote_vreg v) d = write_vreg vn v d"
| "replay_event K vn (Wrote_sreg i x) d = write_sreg i x d"
| "replay_event K vn (Gave c) d = (if c = PIM_COMMAND_DEMO then execute_demo vn d else K d)"

definition replay :: "(pim_data_regs \<Rightarrow> pim_data_regs) \<Rightarrow> nat \<Rightarrow> pim_data_regs \<Rightarrow> host_event list \<Rightarrow> pim_data_regs" where
  "replay K vn d es = fold (replay_event K vn) es d"

lemma replay_snoc [simp]: "replay K vn d (es @ [e]) = replay_event K vn e (replay K vn d es)"
  by (simp add: replay_def)

definition user_command :: "u8 \<Rightarrow> bool" where
  "user_command c \<longleftrightarrow> c = PIM_COMMAND_DEMO \<or> c = PIM_COMMAND_RUN_KERNEL"

definition asleep :: "hs \<Rightarrow> bool" where
  "asleep s \<longleftrightarrow> ppc s = P_Wfi \<and> \<not> suspended (pim_cpu s) \<or> ppc s = P_Woken \<and> suspended (pim_cpu s)"

text \<open>The command given last is not executed yet, or it is.\<close>

definition to_run :: "(pim_data_regs \<Rightarrow> pim_data_regs) \<Rightarrow> nat \<Rightarrow> pim_data_regs \<Rightarrow> hs \<Rightarrow> bool" where
  "to_run K vn d s \<longleftrightarrow> (\<exists>es. hlog s = es @ [Gave (command_reg s)] \<and> user_command (command_reg s) \<and> data_regs s = replay K vn d es)"

definition has_run :: "(pim_data_regs \<Rightarrow> pim_data_regs) \<Rightarrow> nat \<Rightarrow> pim_data_regs \<Rightarrow> hs \<Rightarrow> bool" where
  "has_run K vn d s \<longleftrightarrow> user_command (command_reg s) \<and> data_regs s = replay K vn d (hlog s)"

definition resting :: "hs \<Rightarrow> bool" where
  "resting s \<longleftrightarrow> ppc s \<in> {P_Wait, P_Clear, P_Sleep} \<and> \<not> suspended (pim_cpu s) \<and> status_reg s = PIM_STATUS_DONE \<or> asleep s \<and> status_reg s = PIM_STATUS_SLEEP"

definition hs_inv :: "(pim_data_regs \<Rightarrow> pim_data_regs) \<Rightarrow> nat \<Rightarrow> pim_data_regs \<Rightarrow> hs \<Rightarrow> bool" where
  "hs_inv K vn d s \<longleftrightarrow> (\<forall>t. \<not> interrupts (pim_cpu s) t) \<and>
     (case hpc s of
        H_Ready \<Rightarrow> command_reg s = PIM_COMMAND_NOP \<and> data_regs s = replay K vn d (hlog s) \<and> resting s
      | H_Poll_Sleep c \<Rightarrow> user_command c \<and> command_reg s = PIM_COMMAND_NOP \<and> data_regs s = replay K vn d (hlog s) \<and> resting s
      | H_Give c \<Rightarrow> user_command c \<and> command_reg s = PIM_COMMAND_NOP \<and> data_regs s = replay K vn d (hlog s) \<and> asleep s \<and> status_reg s = PIM_STATUS_SLEEP
      | H_Wake \<Rightarrow> to_run K vn d s \<and> asleep s \<and> status_reg s = PIM_STATUS_SLEEP
      | H_Poll_Done \<Rightarrow>
          to_run K vn d s \<and> (asleep s \<or> ppc s \<in> {P_Woken, P_Busy} \<and> \<not> suspended (pim_cpu s)) \<and> status_reg s = PIM_STATUS_SLEEP \<or>
          \<not> suspended (pim_cpu s) \<and>
            (ppc s = P_Execute \<and> to_run K vn d s \<and> status_reg s = PIM_STATUS_BUSY \<or>
             ppc s = P_Done \<and> has_run K vn d s \<and> status_reg s = PIM_STATUS_BUSY \<or>
             ppc s = P_Wait \<and> has_run K vn d s \<and> status_reg s = PIM_STATUS_DONE)
      | H_Nop \<Rightarrow> ppc s = P_Wait \<and> \<not> suspended (pim_cpu s) \<and> has_run K vn d s \<and> status_reg s = PIM_STATUS_DONE)"

lemmas hs_defs = hs_inv_def asleep_def resting_def to_run_def has_run_def user_command_def command_values check_status_def give_command_def

lemma wake_irq: "\<forall>t. \<not> interrupts (pim_cpu s) t \<Longrightarrow> \<not> interrupts (pim_cpu (wake_up s)) t \<and> \<not> suspended (pim_cpu (wake_up s))"
  by (auto simp: wake_up_def clearInterrupt_def int_clear_def postInterrupt_def int_post_def wakeup_def)

lemma wake_up_regs [simp]: "status_reg (wake_up s) = status_reg s" "command_reg (wake_up s) = command_reg s" "data_regs (wake_up s) = data_regs s"
  "hlog (wake_up s) = hlog s" "ppc (wake_up s) = ppc s" "hpc (wake_up s) = hpc s"
  by (simp_all add: wake_up_def)

lemma wfi_quiet: "\<forall>t. \<not> interrupts c t \<Longrightarrow> suspended (wfi c) \<and> \<not> interrupts (wfi c) t"
  by (auto simp: wfi_def checkWfiWake_def clearInterrupt_def int_clear_def)

lemma clear_quiet: "\<forall>t. \<not> interrupts c t \<Longrightarrow> suspended (clearInterrupt u c) = suspended c \<and> \<not> interrupts (clearInterrupt u c) t"
  by (auto simp: clearInterrupt_def int_clear_def)

lemma inv_init: "hs_inv K vn d (initialized d)"
  by (simp add: hs_defs initialized_def power_on_def replay_def)

lemma inv_pim_step:
  assumes I: "hs_inv K vn d s" and P: "pim_step K vn sn s = Some t"
  shows "hs_inv K vn d t"
proof -
  have q: "\<forall>u. \<not> interrupts (pim_cpu s) u" and a: "\<not> suspended (pim_cpu s)"
    using assms by (auto simp: hs_inv_def pim_step_def split: if_splits)
  note w = wfi_quiet [OF q] clear_quiet [OF q]
  show ?thesis using I P a w
    by (cases "hpc s"; cases "ppc s")
      (auto simp: pim_step_def hs_defs new_command_received_def command_done_wait_def execute_command_def)
qed

lemma inv_step: "hs_step K vn sn s t \<Longrightarrow> hs_inv K vn d s \<Longrightarrow> hs_inv K vn d t"
proof (induction rule: hs_step.induct)
  case (h_wake s)
  then have q: "\<forall>u. \<not> interrupts (pim_cpu s) u" by (simp add: hs_inv_def)
  show ?case using h_wake wake_irq [OF q] by (auto simp: hs_inv_def asleep_def to_run_def)
next
  case (p_step s t)
  then show ?case by (blast intro: inv_pim_step)
qed (auto simp: hs_inv_def asleep_def resting_def to_run_def has_run_def user_command_def command_values check_status_def give_command_def)

lemma inv_reachable: "(hs_step K vn sn)\<^sup>*\<^sup>* (initialized d) s \<Longrightarrow> hs_inv K vn d s"
  by (induction rule: rtranclp_induct) (auto intro: inv_init inv_step)


text \<open>Some steps of the PIM alone.\<close>

fun pim_steps :: "(pim_data_regs \<Rightarrow> pim_data_regs) \<Rightarrow> nat \<Rightarrow> nat \<Rightarrow> nat \<Rightarrow> hs \<Rightarrow> hs option" where
  "pim_steps K vn sn 0 s = Some s"
| "pim_steps K vn sn (Suc k) s = do { t \<leftarrow> pim_step K vn sn s; pim_steps K vn sn k t }"

lemma pim_steps_reach: "pim_steps K vn sn k s = Some t \<Longrightarrow> (hs_step K vn sn)\<^sup>*\<^sup>* s t"
  by (induction k arbitrary: s) (auto simp: bind_eq_Some_conv intro: converse_rtranclp_into_rtranclp hs_step.p_step)

definition lost_wakeup :: "hs \<Rightarrow> bool" where
  "lost_wakeup s \<longleftrightarrow> hpc s = H_Poll_Done \<and> asleep s \<and> status_reg s \<noteq> PIM_STATUS_DONE \<and> (\<forall>t. \<not> interrupts (pim_cpu s) t)"

lemma lost_step: "hs_step K vn sn s t \<Longrightarrow> lost_wakeup s \<Longrightarrow> lost_wakeup t"
proof (induction rule: hs_step.induct)
  case (p_step s t)
  then show ?case using wfi_quiet [of "pim_cpu s"] by (auto simp: lost_wakeup_def asleep_def pim_step_def split: if_splits)
qed (auto simp: lost_wakeup_def asleep_def check_status_def)

lemma lost_forever: "(hs_step K vn sn)\<^sup>*\<^sup>* s t \<Longrightarrow> lost_wakeup s \<Longrightarrow> lost_wakeup t"
  by (induction rule: rtranclp_induct) (auto intro: lost_step)

definition finishes :: "(pim_data_regs \<Rightarrow> pim_data_regs) \<Rightarrow> nat \<Rightarrow> nat \<Rightarrow> nat \<Rightarrow> hs \<Rightarrow> bool" where
  "finishes K vn sn k s \<longleftrightarrow> (\<exists>t. pim_steps K vn sn k s = Some t \<and> hpc t = hpc s \<and> status_reg t = PIM_STATUS_DONE \<and> hlog t = hlog s)"

lemma finishes_Suc: "pim_step K vn sn s = Some t \<Longrightarrow> hpc t = hpc s \<Longrightarrow> hlog t = hlog s \<Longrightarrow> finishes K vn sn k t \<Longrightarrow> finishes K vn sn (Suc k) s"
  by (auto simp: finishes_def)

lemma finishes_from:
  assumes "\<not> suspended (pim_cpu s)"
  shows "status_reg s = PIM_STATUS_DONE \<Longrightarrow> finishes K vn sn 0 s"
    and "ppc s = P_Done \<Longrightarrow> finishes K vn sn 1 s"
    and "ppc s = P_Execute \<Longrightarrow> user_command (command_reg s) \<Longrightarrow> finishes K vn sn 2 s"
    and "ppc s = P_Busy \<Longrightarrow> user_command (command_reg s) \<Longrightarrow> finishes K vn sn 3 s"
    and "ppc s = P_Woken \<Longrightarrow> user_command (command_reg s) \<Longrightarrow> finishes K vn sn 4 s"
proof -
  show "status_reg s = PIM_STATUS_DONE \<Longrightarrow> finishes K vn sn 0 s" by (simp add: finishes_def)
  have d: "finishes K vn sn (Suc 0) s" if "ppc s = P_Done" "\<not> suspended (pim_cpu s)" for s
    using that by (intro finishes_Suc [of K vn sn s "s\<lparr>status_reg := PIM_STATUS_DONE, ppc := P_Wait\<rparr>"]) (simp_all add: pim_step_def finishes_def)
  then show "ppc s = P_Done \<Longrightarrow> finishes K vn sn 1 s" using assms by simp
  have e: "finishes K vn sn (Suc (Suc 0)) s" if "ppc s = P_Execute" "user_command (command_reg s)" "\<not> suspended (pim_cpu s)" for s
    by (rule finishes_Suc [of K vn sn s "s\<lparr>data_regs := replay_event K vn (Gave (command_reg s)) (data_regs s), ppc := P_Done\<rparr>"])
      (use that d in \<open>auto simp: pim_step_def execute_command_def user_command_def command_values\<close>)
  then show "ppc s = P_Execute \<Longrightarrow> user_command (command_reg s) \<Longrightarrow> finishes K vn sn 2 s" using assms by (simp add: numeral_2_eq_2)
  have b: "finishes K vn sn (Suc (Suc (Suc 0))) s" if "ppc s = P_Busy" "user_command (command_reg s)" "\<not> suspended (pim_cpu s)" for s
    by (rule finishes_Suc [of K vn sn s "s\<lparr>status_reg := PIM_STATUS_BUSY, ppc := P_Execute\<rparr>"]) (use that e in \<open>simp_all add: pim_step_def\<close>)
  then show "ppc s = P_Busy \<Longrightarrow> user_command (command_reg s) \<Longrightarrow> finishes K vn sn 3 s" using assms by (simp add: numeral_3_eq_3)
  have "finishes K vn sn (Suc (Suc (Suc (Suc 0)))) s" if "ppc s = P_Woken" "user_command (command_reg s)" "\<not> suspended (pim_cpu s)" for s
    by (rule finishes_Suc [of K vn sn s "s\<lparr>ppc := P_Busy\<rparr>"]) (use that b in \<open>auto simp: pim_step_def new_command_received_def user_command_def command_values\<close>)
  then show "ppc s = P_Woken \<Longrightarrow> user_command (command_reg s) \<Longrightarrow> finishes K vn sn 4 s" using assms by (simp add: numeral_eq_Suc)
qed

lemma completes:
  assumes I: "hs_inv K vn d s" and h: "hpc s = H_Poll_Done" and n: "\<not> asleep s"
  shows "\<exists>k\<le>4. finishes K vn sn k s"
proof -
  have a: "\<not> suspended (pim_cpu s)" using I h n by (auto simp: hs_inv_def)
  have "ppc s = P_Woken \<and> user_command (command_reg s) \<or> ppc s = P_Busy \<and> user_command (command_reg s) \<or> ppc s = P_Execute \<and> user_command (command_reg s) \<or>
      ppc s = P_Done \<or> status_reg s = PIM_STATUS_DONE"
    using I h n by (auto simp: hs_inv_def to_run_def)
  then have "finishes K vn sn 4 s \<or> finishes K vn sn 3 s \<or> finishes K vn sn 2 s \<or> finishes K vn sn 1 s \<or> finishes K vn sn 0 s"
    using finishes_from [OF a] by blast
  then show ?thesis by (elim disjE) (rule exI, erule conjI [rotated], simp)+
qed

text \<open>
  C36. A host that waits for the completion of a command either gets it, after at most four further steps of the PIM, or its wake-up was lost, because it came before the PIM executed
  \<open>wfi\<close>, and then it waits for ever.
\<close>

theorem handshake_completes_or_lost:
  assumes "(hs_step K vn sn)\<^sup>*\<^sup>* (initialized d) s" and "hpc s = H_Poll_Done"
  shows "if asleep s then \<forall>t. (hs_step K vn sn)\<^sup>*\<^sup>* s t \<longrightarrow> hpc t = H_Poll_Done
    else \<exists>k\<le>4. \<exists>t u. pim_steps K vn sn k s = Some t \<and> (hs_step K vn sn)\<^sup>*\<^sup>* t u \<and> hpc u = H_Ready \<and> data_regs u = replay K vn d (hlog s)"
proof (cases "asleep s")
  case True
  note I = inv_reachable [OF assms(1)]
  have "lost_wakeup s" using I assms(2) True by (auto simp: hs_inv_def lost_wakeup_def asleep_def command_values)
  then show ?thesis using True lost_forever unfolding lost_wakeup_def by (metis (full_types))
next
  case False
  note I = inv_reachable [OF assms(1)]
  obtain k t where t: "k \<le> 4" "pim_steps K vn sn k s = Some t" "hpc t = H_Poll_Done" "status_reg t = PIM_STATUS_DONE" "hlog t = hlog s"
    using completes [OF I assms(2) False, of sn] assms(2) by (auto simp: finishes_def)
  let ?u = "t\<lparr>hpc := H_Nop\<rparr>" and ?w = "(give_command PIM_COMMAND_NOP (t\<lparr>hpc := H_Nop\<rparr>))\<lparr>hpc := H_Ready\<rparr>"
  have "hs_step K vn sn t ?u" using hs_step.h_done [OF t(3), of K vn sn] t(4) by (simp add: check_status_def)
  moreover have "hs_step K vn sn ?u ?w" by (rule hs_step.h_nop) simp
  ultimately have r: "(hs_step K vn sn)\<^sup>*\<^sup>* t ?w" by (meson converse_rtranclp_into_rtranclp rtranclp.rtrancl_refl)
  have "hs_inv K vn d ?w" using inv_reachable [OF rtranclp_trans [OF assms(1) rtranclp_trans [OF pim_steps_reach [OF t(2)] r]]] .
  then have "data_regs ?w = replay K vn d (hlog s)" using t(5) by (simp add: hs_inv_def give_command_def)
  moreover have "hpc ?w = H_Ready" by simp
  ultimately have "\<exists>k\<le>4. \<exists>t u. pim_steps K vn sn k s = Some t \<and> (hs_step K vn sn)\<^sup>*\<^sup>* t u \<and> hpc u = H_Ready \<and> data_regs u = replay K vn d (hlog s)"
    using t(1,2) r by blast
  then show ?thesis using False by simp
qed

text \<open>The host runs from a state with the given status to the wait for completion, without a step of the PIM.\<close>

lemma host_starts:
  assumes "hpc s = H_Ready" "status_reg s = PIM_STATUS_SLEEP" "user_command c"
  shows "(hs_step K vn sn)\<^sup>*\<^sup>* s ((wake_up s)\<lparr>command_reg := c, hpc := H_Poll_Done, hlog := hlog s @ [Gave c]\<rparr>)"
proof -
  let ?s1 = "s\<lparr>hpc := H_Poll_Sleep c\<rparr>" and ?s2 = "s\<lparr>hpc := H_Give c\<rparr>" and ?s3 = "s\<lparr>command_reg := c, hpc := H_Wake, hlog := hlog s @ [Gave c]\<rparr>"
  have "hs_step K vn sn s ?s1" using hs_step.h_start [OF assms(1)] assms(3) by (simp add: user_command_def)
  moreover have "hs_step K vn sn ?s1 ?s2" using hs_step.h_sleep [of ?s1 c K vn sn] assms(2) by (simp add: check_status_def)
  moreover have "hs_step K vn sn ?s2 ?s3" using hs_step.h_give [of ?s2 c K vn sn] by (simp add: give_command_def)
  moreover have "hs_step K vn sn ?s3 ((wake_up s)\<lparr>command_reg := c, hpc := H_Poll_Done, hlog := hlog s @ [Gave c]\<rparr>)"
  proof -
    have "(wake_up ?s3)\<lparr>hpc := H_Poll_Done\<rparr> = (wake_up s)\<lparr>command_reg := c, hpc := H_Poll_Done, hlog := hlog s @ [Gave c]\<rparr>"
      by (cases s) (simp add: wake_up_def)
    then show ?thesis using hs_step.h_wake [of ?s3 K vn sn] by simp
  qed
  ultimately show ?thesis by (meson converse_rtranclp_into_rtranclp rtranclp.rtrancl_refl)
qed

text \<open>
  C37. The two races of the handshake: a host that gives its command between the PIM's write of \<open>PIM_STATUS_SLEEP\<close> and its \<open>wfi\<close> waits for ever, and so does one that gives its command while the
  resident code still initializes its registers, whose second write erases the command.
\<close>

theorem handshake_races:
  "(\<exists>s. (hs_step K vn sn)\<^sup>*\<^sup>* (initialized d) s \<and> command_reg s = PIM_COMMAND_RUN_KERNEL \<and> (\<forall>t. (hs_step K vn sn)\<^sup>*\<^sup>* s t \<longrightarrow> hpc t = H_Poll_Done)) \<and>
   (\<exists>s. (hs_step K vn sn)\<^sup>*\<^sup>* (power_on st c d) s \<and> command_reg s = PIM_COMMAND_NOP \<and> (\<forall>t. (hs_step K vn sn)\<^sup>*\<^sup>* s t \<longrightarrow> hpc t = H_Poll_Done))"
proof
  have fin: "\<forall>t. (hs_step K vn sn)\<^sup>*\<^sup>* s t \<longrightarrow> hpc t = H_Poll_Done" if "lost_wakeup s" for s
    using lost_forever [OF _ that] unfolding lost_wakeup_def by blast
  have k: "user_command PIM_COMMAND_RUN_KERNEL" by (simp add: user_command_def)
  let ?s = "(wake_up (initialized d))\<lparr>command_reg := PIM_COMMAND_RUN_KERNEL, hpc := H_Poll_Done, hlog := hlog (initialized d) @ [Gave PIM_COMMAND_RUN_KERNEL]\<rparr>"
  have "(hs_step K vn sn)\<^sup>*\<^sup>* (initialized d) ?s" by (rule host_starts) (simp_all add: initialized_def power_on_def k)
  moreover have "lost_wakeup ?s"
    by (simp add: lost_wakeup_def asleep_def initialized_def power_on_def command_values wake_up_def clearInterrupt_def int_clear_def postInterrupt_def int_post_def wakeup_def)
  moreover have "command_reg ?s = PIM_COMMAND_RUN_KERNEL" by simp
  ultimately show "\<exists>s. (hs_step K vn sn)\<^sup>*\<^sup>* (initialized d) s \<and> command_reg s = PIM_COMMAND_RUN_KERNEL \<and> (\<forall>t. (hs_step K vn sn)\<^sup>*\<^sup>* s t \<longrightarrow> hpc t = H_Poll_Done)"
    using fin by blast
  let ?p0 = "power_on st c d"
  let ?p1 = "?p0\<lparr>status_reg := PIM_STATUS_SLEEP, ppc := P_Init_Command\<rparr>"
  let ?p2 = "(wake_up ?p1)\<lparr>command_reg := PIM_COMMAND_RUN_KERNEL, hpc := H_Poll_Done, hlog := hlog ?p1 @ [Gave PIM_COMMAND_RUN_KERNEL]\<rparr>"
  let ?p3 = "?p2\<lparr>command_reg := PIM_COMMAND_NOP, error_reg := PIM_ERROR_NONE, data_regs := initialize_data vn sn (data_regs ?p2), ppc := P_Wfi\<rparr>"
  have quiet: "\<not> suspended (pim_cpu (wake_up ?p1))" "\<not> interrupts (pim_cpu (wake_up ?p1)) i" for i using wake_irq [of ?p1] by (simp_all add: power_on_def)
  have "pim_steps K vn sn 1 ?p0 = Some ?p1" by (simp add: pim_step_def power_on_def)
  then have "(hs_step K vn sn)\<^sup>*\<^sup>* ?p0 ?p1" by (rule pim_steps_reach)
  moreover have "(hs_step K vn sn)\<^sup>*\<^sup>* ?p1 ?p2" by (rule host_starts) (simp_all add: power_on_def k)
  moreover have "pim_steps K vn sn 2 ?p2 = Some ?p3" using quiet by (simp add: pim_step_def numeral_2_eq_2)
  then have "(hs_step K vn sn)\<^sup>*\<^sup>* ?p2 ?p3" by (rule pim_steps_reach)
  ultimately have "(hs_step K vn sn)\<^sup>*\<^sup>* ?p0 ?p3" by (meson rtranclp_trans)
  moreover have "lost_wakeup ?p3" using quiet by (simp add: lost_wakeup_def asleep_def command_values)
  ultimately show "\<exists>s. (hs_step K vn sn)\<^sup>*\<^sup>* ?p0 s \<and> command_reg s = PIM_COMMAND_NOP \<and> (\<forall>t. (hs_step K vn sn)\<^sup>*\<^sup>* s t \<longrightarrow> hpc t = H_Poll_Done)"
    using fin by (intro exI [of _ ?p3]) simp
qed

subsection \<open>A run\<close>

definition ex_data :: pim_data_regs where
  "ex_data = \<lparr>vreg_bytes = (\<lambda>_. 7), sreg_words = (\<lambda>_. 0)\<rparr>"

text \<open>The PIM sleeps before the host gives the command, which then runs.\<close>

lemma ex_run:
  "\<exists>s. (hs_step id 4 1)\<^sup>*\<^sup>* (initialized ex_data) s \<and> hpc s = H_Poll_Done \<and> \<not> asleep s \<and> hlog s = [Gave PIM_COMMAND_DEMO]"
proof -
  let ?s0 = "initialized ex_data"
  let ?s1 = "?s0\<lparr>pim_cpu := wfi (pim_cpu ?s0), ppc := P_Woken\<rparr>"
  let ?s2 = "(wake_up ?s1)\<lparr>command_reg := PIM_COMMAND_DEMO, hpc := H_Poll_Done, hlog := hlog ?s1 @ [Gave PIM_COMMAND_DEMO]\<rparr>"
  have "pim_steps id 4 1 1 ?s0 = Some ?s1" by (simp add: pim_step_def initialized_def power_on_def)
  then have "(hs_step id 4 1)\<^sup>*\<^sup>* ?s0 ?s1" by (rule pim_steps_reach)
  moreover have "(hs_step id 4 1)\<^sup>*\<^sup>* ?s1 ?s2" by (rule host_starts) (simp_all add: initialized_def power_on_def user_command_def)
  ultimately have "(hs_step id 4 1)\<^sup>*\<^sup>* ?s0 ?s2" by (rule rtranclp_trans)
  moreover have "\<not> asleep ?s2" using wake_irq [of ?s1] wfi_quiet [of "pim_cpu ?s0"] by (simp add: asleep_def initialized_def power_on_def)
  ultimately show ?thesis by (intro exI [of _ ?s2]) (simp add: initialized_def power_on_def)
qed

theorem handshake_completes_or_lost_witness:
  "\<exists>s u. (hs_step id 4 1)\<^sup>*\<^sup>* (initialized ex_data) s \<and> hpc s = H_Poll_Done \<and> (hs_step id 4 1)\<^sup>*\<^sup>* s u \<and> hpc u = H_Ready \<and> vreg_bytes (data_regs u) 3 = 8"
proof -
  obtain s where s: "(hs_step id 4 1)\<^sup>*\<^sup>* (initialized ex_data) s" "hpc s = H_Poll_Done" "\<not> asleep s" "hlog s = [Gave PIM_COMMAND_DEMO]" using ex_run by blast
  obtain k t u where u: "pim_steps id 4 1 k s = Some t" "(hs_step id 4 1)\<^sup>*\<^sup>* t u" "hpc u = H_Ready" "data_regs u = replay id 4 ex_data (hlog s)"
    using handshake_completes_or_lost [OF s(1,2)] s(3) by auto
  have "vreg_bytes (data_regs u) 3 = 8" using u(4) s(4) by (simp add: replay_def execute_demo_def ex_data_def)
  then show ?thesis using s(1,2) u(2,3) rtranclp_trans [OF pim_steps_reach [OF u(1)] u(2)] by blast
qed


theorem handshake_races_witness:
  "(\<exists>s. (hs_step id 2 1)\<^sup>*\<^sup>* (initialized ex_data) s \<and> command_reg s = PIM_COMMAND_RUN_KERNEL \<and> (\<forall>t. (hs_step id 2 1)\<^sup>*\<^sup>* s t \<longrightarrow> hpc t = H_Poll_Done)) \<and>
   (\<exists>s. (hs_step id 2 1)\<^sup>*\<^sup>* (power_on 0 0 ex_data) s \<and> command_reg s = PIM_COMMAND_NOP \<and> (\<forall>t. (hs_step id 2 1)\<^sup>*\<^sup>* s t \<longrightarrow> hpc t = H_Poll_Done))"
  by (rule handshake_races)

end
