(* ===== verification/Cache_Flush.thy ===== *)
theory Cache_Flush
  imports Abstract_Mem "HOL-Library.Multiset"
begin

text \<open>
  The caches of the host and the flush that the driver asks for before the PIM runs (\<open>mem/cache/cache_impl.hh\<close>, \<open>ethz_flush_range\<close>, on the set-associative tags
  \<open>mem/cache/tags/base_set_assoc.hh\<close>, \<open>lru.cc\<close>, \<open>random_repl.cc\<close>): a second-level cache and the data caches of the processors in front of the memory. A functional write of a cache updates the
  copies on its way and reaches the memory (\<open>functionalAccess\<close>, \<open>Packet::checkFunctional\<close>). The queues of the caches are empty: the flush
  looks at blocks only. \<open>None\<close> is a panic or a loop that does not end.
\<close>

unbundle bit_operations_syntax

subsection \<open>Blocks and sets\<close>

record blk =
  tag :: u64
  status :: u32
  blk_data :: "u8 list"

definition isValid :: "blk \<Rightarrow> bool" where "isValid b \<longleftrightarrow> status b AND 0x01 \<noteq> 0"
definition isDirty :: "blk \<Rightarrow> bool" where "isDirty b \<longleftrightarrow> status b AND 0x08 \<noteq> 0"
definition isSecure :: "blk \<Rightarrow> bool" where "isSecure b \<longleftrightarrow> status b AND 0x40 \<noteq> 0"

definition blk_invalidate :: "blk \<Rightarrow> blk" where
  "blk_invalidate b = b\<lparr>status := 0\<rparr>"

definition blk_match :: "u64 \<Rightarrow> bool \<Rightarrow> blk \<Rightarrow> bool" where
  "blk_match t sec b \<longleftrightarrow> tag b = t \<and> isValid b \<and> isSecure b = sec"

text \<open>A set lists its blocks, the most recently used one first; the result is the way.\<close>

fun findBlk :: "u64 \<Rightarrow> bool \<Rightarrow> blk list \<Rightarrow> nat option" where
  "findBlk t sec [] = None"
| "findBlk t sec (b # bs) = (if blk_match t sec b then Some 0 else map_option Suc (findBlk t sec bs))"

fun head_loop :: "blk \<Rightarrow> nat \<Rightarrow> blk list \<Rightarrow> blk list" where
  "head_loop nxt k [] = []"
| "head_loop nxt 0 (b # bs) = nxt # bs"
| "head_loop nxt (Suc k) (b # bs) = nxt # head_loop b k bs"

definition moveToHead :: "nat \<Rightarrow> blk list \<Rightarrow> blk list" where
  "moveToHead i bs = head_loop (bs ! i) i bs"

text \<open>The loop to the tail is the same one from the other end.\<close>

definition moveToTail :: "nat \<Rightarrow> blk list \<Rightarrow> blk list" where
  "moveToTail i bs = rev (head_loop (bs ! i) (length bs - 1 - i) (rev bs))"

datatype repl = LRU | RandomRepl | FALRU

record cache =
  policy :: repl
  setShift :: nat
  tagShift :: nat
  setMask :: u64
  csets :: "nat \<Rightarrow> blk list"

definition floorLog2 :: "u32 \<Rightarrow> nat" where
  "floorLog2 x =
     (let (y, x) = (if x AND 0xFFFF0000 \<noteq> 0 then (16, drop_bit 16 x) else (0, x));
          (y, x) = (if x AND 0x0000FF00 \<noteq> 0 then (y + 8, drop_bit 8 x) else (y, x));
          (y, x) = (if x AND 0x000000F0 \<noteq> 0 then (y + 4, drop_bit 4 x) else (y, x));
          (y, x) = (if x AND 0x0000000C \<noteq> 0 then (y + 2, drop_bit 2 x) else (y, x))
      in if x AND 0x00000002 \<noteq> 0 then y + 1 else y)"

definition isPowerOf2 :: "u32 \<Rightarrow> bool" where
  "isPowerOf2 n \<longleftrightarrow> n \<noteq> 0 \<and> n AND NOT (n - 1) = n"

text \<open>The size, the size of a block and the associativity; \<open>dat\<close> is what the new storage holds.\<close>

definition BaseSetAssoc :: "repl \<Rightarrow> u32 \<Rightarrow> u32 \<Rightarrow> u32 \<Rightarrow> (nat \<Rightarrow> nat \<Rightarrow> u8 list) \<Rightarrow> cache option" where
  "BaseSetAssoc pol sz blkSize assoc dat =
     (let numSets = sz div (blkSize * assoc)
      in if blkSize < 4 \<or> \<not> isPowerOf2 blkSize \<or> \<not> isPowerOf2 numSets \<or> assoc = 0 then None
         else Some \<lparr>policy = pol, setShift = floorLog2 blkSize, tagShift = floorLog2 blkSize + floorLog2 numSets, setMask = ucast (numSets - 1),
                csets = (\<lambda>i. map (\<lambda>j. \<lparr>tag = of_nat j, status = 0, blk_data = dat i j\<rparr>) [0..<unat assoc])\<rparr>)"

definition extractTag :: "cache \<Rightarrow> u64 \<Rightarrow> u64" where
  "extractTag c a = drop_bit (tagShift c) a"

definition extractSet :: "cache \<Rightarrow> u64 \<Rightarrow> nat" where
  "extractSet c a = unat (drop_bit (setShift c) a AND setMask c)"

definition blockAlign :: "cache \<Rightarrow> u64 \<Rightarrow> u64" where
  "blockAlign c a = a AND NOT (mask (setShift c))"

definition findBlock :: "cache \<Rightarrow> u64 \<Rightarrow> bool \<Rightarrow> nat option" where
  "findBlock c a sec = findBlk (extractTag c a) sec (csets c (extractSet c a))"

definition set_blks :: "nat \<Rightarrow> blk list \<Rightarrow> cache \<Rightarrow> cache" where
  "set_blks s bs c = c\<lparr>csets := (csets c)(s := bs)\<rparr>"

definition accessBlock :: "u64 \<Rightarrow> bool \<Rightarrow> cache \<Rightarrow> nat option \<times> cache" where
  "accessBlock a sec c =
     (case findBlock c a sec of
        None \<Rightarrow> (None, c)
      | Some i \<Rightarrow> if policy c = LRU then (Some 0, set_blks (extractSet c a) (moveToHead i (csets c (extractSet c a))) c) else (Some i, c))"

definition cache_invalidate :: "nat \<Rightarrow> nat \<Rightarrow> cache \<Rightarrow> cache" where
  "cache_invalidate s i c =
     (let bs = csets c s
      in if policy c = LRU then set_blks s ((moveToTail i bs)[length bs - 1 := blk_invalidate (bs ! i)]) c
         else set_blks s (bs[i := blk_invalidate (bs ! i)]) c)"

subsection \<open>Functional writes\<close>

text \<open>The part of a write of the bytes \<open>d\<close> at \<open>a\<close> that falls into a block at or before \<open>a\<close>.\<close>

definition checkFunctional_write :: "u64 \<Rightarrow> u8 list \<Rightarrow> u64 \<Rightarrow> u8 list \<Rightarrow> u8 list" where
  "checkFunctional_write a d val_start bs =
     (let offset = unat (a - val_start); n = min (length d) (length bs - offset)
      in if length bs \<le> offset then bs else take offset bs @ take n d @ drop (offset + n) bs)"

definition functionalAccess_write :: "u64 \<Rightarrow> u8 list \<Rightarrow> cache \<Rightarrow> cache" where
  "functionalAccess_write a d c =
     (case findBlock c a False of
        None \<Rightarrow> c
      | Some i \<Rightarrow>
          let s = extractSet c a; bs = csets c s
          in set_blks s (bs[i := (bs ! i)\<lparr>blk_data := checkFunctional_write a d (blockAlign c a) (blk_data (bs ! i))\<rparr>]) c)"

datatype cache_id = L2 | L1 nat

record host =
  l2 :: "cache option"
  l1 :: "cache list"
  dram :: "u64 \<Rightarrow> u8"

text \<open>From the second level the write goes to the memory, from a first level to the other first-level caches, the second level and the memory.\<close>

definition sendFunctional :: "cache_id \<Rightarrow> u64 \<Rightarrow> u8 list \<Rightarrow> host \<Rightarrow> host" where
  "sendFunctional k a d h =
     (case k of
        L2 \<Rightarrow> h\<lparr>dram := write_bytes a d (dram h)\<rparr>
      | L1 i \<Rightarrow> h\<lparr>l1 := map (\<lambda>j. if j = i then l1 h ! j else functionalAccess_write a d (l1 h ! j)) [0..<length (l1 h)],
                 l2 := map_option (functionalAccess_write a d) (l2 h), dram := write_bytes a d (dram h)\<rparr>)"

subsection \<open>The flush\<close>

fun get_cache :: "cache_id \<Rightarrow> host \<Rightarrow> cache option" where
  "get_cache L2 h = l2 h"
| "get_cache (L1 i) h = (if i < length (l1 h) then Some (l1 h ! i) else None)"

fun put_cache :: "cache_id \<Rightarrow> cache \<Rightarrow> host \<Rightarrow> host" where
  "put_cache L2 c h = h\<lparr>l2 := Some c\<rparr>"
| "put_cache (L1 i) c h = h\<lparr>l1 := (l1 h)[i := c]\<rparr>"

definition flush_block :: "cache_id \<Rightarrow> u64 \<Rightarrow> cache \<Rightarrow> host \<Rightarrow> host" where
  "flush_block k a c h =
     (let (r, c1) = (case accessBlock a True c of (Some i, c1) \<Rightarrow> (Some i, c1) | (None, c1) \<Rightarrow> accessBlock a False c1)
      in case r of
           None \<Rightarrow> h
         | Some i \<Rightarrow>
             let b = csets c1 (extractSet c a) ! i;
                 h1 = (if isDirty b then sendFunctional k a (blk_data b) h else h)
             in put_cache k (cache_invalidate (extractSet c a) i c1) h1)"

partial_function (option) flush_loop :: "cache_id \<Rightarrow> u64 \<Rightarrow> u64 \<Rightarrow> host \<Rightarrow> host option" where
  "flush_loop k a e h =
     (if a \<le> e then
        do { c \<leftarrow> get_cache k h;
             flush_loop k (a + 2 ^ setShift c) e (flush_block k a c h) }
      else Some h)"

definition ethz_flush_range :: "cache_id \<Rightarrow> u64 \<Rightarrow> u64 \<Rightarrow> host \<Rightarrow> host option" where
  "ethz_flush_range k s e h =
     do { c \<leftarrow> get_cache k h;
          if policy c = FALRU then None else flush_loop k (s div 2 ^ setShift c * 2 ^ setShift c) e h }"

text \<open>The second-level cache, where there is one, is flushed first.\<close>

definition system_caches :: "host \<Rightarrow> cache_id list" where
  "system_caches h = (if l2 h = None then [] else [L2]) @ map L1 [0..<length (l1 h)]"

fun flush_each :: "cache_id list \<Rightarrow> u64 \<Rightarrow> u64 \<Rightarrow> host \<Rightarrow> host option" where
  "flush_each [] s e h = Some h"
| "flush_each (k # ks) s e h = do { h1 \<leftarrow> ethz_flush_range k s e h; flush_each ks s e h1 }"

definition ask_host_to_flush :: "u64 \<Rightarrow> u64 \<Rightarrow> host \<Rightarrow> host option" where
  "ask_host_to_flush s e h = flush_each (system_caches h) s e h"

subsection \<open>Sets\<close>

text \<open>The valid blocks of a set have different tags, are not secure and have the size of a block.\<close>

definition set_ok :: "nat \<Rightarrow> blk list \<Rightarrow> bool" where
  "set_ok n bs \<longleftrightarrow> distinct (map tag (filter isValid bs)) \<and> (\<forall>b \<in> set bs. isValid b \<longrightarrow> \<not> isSecure b \<and> length (blk_data b) = 2 ^ n)"

definition blk_in :: "u64 \<Rightarrow> blk list \<Rightarrow> blk option" where
  "blk_in t bs = find (\<lambda>b. isValid b \<and> tag b = t) bs"

lemma find_append: "find P (xs @ ys) = (case find P xs of None \<Rightarrow> find P ys | Some x \<Rightarrow> Some x)"
  by (induction xs) auto

lemma set_ok_mset: "mset xs = mset ys \<Longrightarrow> set_ok n xs \<longleftrightarrow> set_ok n ys"
proof -
  assume m: "mset xs = mset ys"
  then have "mset (map tag (filter isValid xs)) = mset (map tag (filter isValid ys))" by (simp add: mset_filter)
  then have "distinct (map tag (filter isValid xs)) = distinct (map tag (filter isValid ys))" by (rule mset_eq_imp_distinct_iff)
  then show ?thesis using mset_eq_setD [OF m] by (simp add: set_ok_def)
qed

lemma blk_in_iff:
  assumes "set_ok n bs"
  shows "blk_in t bs = Some b \<longleftrightarrow> b \<in> set bs \<and> isValid b \<and> tag b = t"
proof
  assume "blk_in t bs = Some b"
  then show "b \<in> set bs \<and> isValid b \<and> tag b = t" by (auto simp: blk_in_def find_Some_iff)
next
  assume r: "b \<in> set bs \<and> isValid b \<and> tag b = t"
  then obtain b' where b': "blk_in t bs = Some b'" by (cases "blk_in t bs") (auto simp: blk_in_def find_None_iff)
  then have "b' \<in> set bs \<and> isValid b' \<and> tag b' = t" by (auto simp: blk_in_def find_Some_iff)
  moreover have "inj_on tag (set (filter isValid bs))" using assms by (simp add: set_ok_def distinct_map)
  ultimately have "b' = b" using r by (auto dest: inj_onD)
  then show "blk_in t bs = Some b" using b' by simp
qed

lemma blk_in_mset: "set_ok n xs \<Longrightarrow> mset xs = mset ys \<Longrightarrow> blk_in t xs = blk_in t ys"
proof -
  assume o: "set_ok n xs" and m: "mset xs = mset ys"
  have o': "set_ok n ys" using o set_ok_mset [OF m] by simp
  have "blk_in t xs = Some b \<longleftrightarrow> blk_in t ys = Some b" for b using blk_in_iff [OF o] blk_in_iff [OF o'] mset_eq_setD [OF m] by simp
  then show ?thesis by (metis option.exhaust)
qed

lemma findBlk_Some: "findBlk t sec bs = Some i \<Longrightarrow> i < length bs \<and> blk_match t sec (bs ! i)"
  by (induction bs arbitrary: i) (auto split: if_splits)

lemma findBlk_None: "findBlk t sec bs = None \<longleftrightarrow> (\<forall>b \<in> set bs. \<not> blk_match t sec b)"
  by (induction bs) auto

lemma find_secure: "set_ok n bs \<Longrightarrow> findBlk t True bs = None"
  by (auto simp: findBlk_None blk_match_def set_ok_def)

lemma find_nonsecure:
  assumes "set_ok n bs"
  shows "findBlk t False bs = None \<Longrightarrow> blk_in t bs = None"
    and "findBlk t False bs = Some i \<Longrightarrow> i < length bs \<and> blk_in t bs = Some (bs ! i) \<and> isValid (bs ! i) \<and> tag (bs ! i) = t"
proof -
  show "blk_in t bs = None" if "findBlk t False bs = None"
    using that assms by (auto simp: findBlk_None blk_match_def set_ok_def blk_in_def find_None_iff)
  show "i < length bs \<and> blk_in t bs = Some (bs ! i) \<and> isValid (bs ! i) \<and> tag (bs ! i) = t" if "findBlk t False bs = Some i"
    using findBlk_Some [OF that] blk_in_iff [OF assms, of t "bs ! i"] by (auto simp: blk_match_def)
qed

lemma head_loop_moves: "k < length bs \<Longrightarrow> head_loop x k bs = x # erase k bs"
proof (induction x k bs rule: head_loop.induct)
  case (3 nxt k b bs)
  then show ?case by (simp add: erase_def)
qed (simp_all add: erase_def)

lemma erase_mset: "i < length bs \<Longrightarrow> add_mset (bs ! i) (mset (erase i bs)) = mset bs"
  by (subst (3) id_take_nth_drop [of i bs]) (simp_all add: erase_def)

lemma moveToHead_mset: "i < length bs \<Longrightarrow> mset (moveToHead i bs) = mset bs \<and> moveToHead i bs ! 0 = bs ! i \<and> length (moveToHead i bs) = length bs"
  by (simp add: moveToHead_def head_loop_moves erase_mset) (simp add: erase_def)

lemma moveToTail_eq:
  assumes "i < length bs"
  shows "moveToTail i bs = erase i bs @ [bs ! i]"
proof -
  have "rev (erase (length bs - 1 - i) (rev bs)) = erase i bs"
    using assms by (simp add: erase_def rev_drop rev_take Suc_diff_Suc)
  then show ?thesis using assms by (simp add: moveToTail_def head_loop_moves)
qed

lemma drop_block:
  assumes O: "set_ok n bs" and b: "b \<in> set bs" "isValid b" and m: "mset cs = add_mset (blk_invalidate b) (mset bs - {#b#})"
  shows "set_ok n cs" "blk_in t cs = (if t = tag b then None else blk_in t bs)"
proof -
  obtain xs ys where s: "bs = xs @ b # ys" using b(1) by (auto simp: in_set_conv_decomp)
  let ?l = "blk_invalidate b # xs @ ys"
  have m': "mset ?l = mset cs" using m s by simp
  have iv: "\<not> isValid (blk_invalidate b)" by (simp add: isValid_def blk_invalidate_def)
  have l: "set_ok n ?l" using O iv b(2) by (auto simp: set_ok_def s)
  show o: "set_ok n cs" using l set_ok_mset [OF m'] by simp
  have "blk_in t ?l = (if t = tag b then None else blk_in t bs)"
  proof (cases "t = tag b")
    case True
    have "\<forall>c \<in> set (xs @ ys). isValid c \<longrightarrow> tag c \<noteq> tag b" using O b(2) by (auto simp: set_ok_def s image_iff)
    then show ?thesis using True iv by (auto simp: blk_in_def find_None_iff)
  next
    case False
    then show ?thesis using iv by (simp add: blk_in_def s find_append split: option.splits)
  qed
  then show "blk_in t cs = (if t = tag b then None else blk_in t bs)" using blk_in_mset [OF l m'] by simp
qed

lemma update_block:
  assumes O: "set_ok n bs" and i: "i < length bs" "isValid (bs ! i)" and l: "length d = 2 ^ n"
  shows "set_ok n (bs[i := (bs ! i)\<lparr>blk_data := d\<rparr>])"
    "blk_in t (bs[i := (bs ! i)\<lparr>blk_data := d\<rparr>]) = (if t = tag (bs ! i) then Some ((bs ! i)\<lparr>blk_data := d\<rparr>) else blk_in t bs)"
proof -
  let ?b = "(bs ! i)\<lparr>blk_data := d\<rparr>" let ?cs = "bs[i := ?b]"
  have v: "isValid ?b = isValid (bs ! i)" "isSecure ?b = isSecure (bs ! i)" by (simp_all add: isValid_def isSecure_def)
  have s: "bs = take i bs @ bs ! i # drop (Suc i) bs" "?cs = take i bs @ ?b # drop (Suc i) bs"
    using i(1) by (simp_all add: id_take_nth_drop upd_conv_take_nth_drop)
  define xs ys b where "xs = take i bs" and "ys = drop (Suc i) bs" and "b = bs ! i"
  have bs: "bs = xs @ b # ys" "?cs = xs @ b\<lparr>blk_data := d\<rparr> # ys" using s by (simp_all add: xs_def ys_def b_def)
  have vb: "isValid b" "isValid (b\<lparr>blk_data := d\<rparr>)" "isSecure (b\<lparr>blk_data := d\<rparr>) = isSecure b" using i(2) v by (simp_all add: b_def)
  have o: "set_ok n (xs @ b\<lparr>blk_data := d\<rparr> # ys)" using O vb l unfolding bs(1) by (auto simp: set_ok_def)
  then show "set_ok n ?cs" unfolding bs(2) .
  have "blk_in t (xs @ b\<lparr>blk_data := d\<rparr> # ys) = (if t = tag b then Some (b\<lparr>blk_data := d\<rparr>) else blk_in t (xs @ b # ys))"
  proof (cases "t = tag b")
    case True
    then show ?thesis using blk_in_iff [OF o, of t "b\<lparr>blk_data := d\<rparr>"] vb by simp
  next
    case False
    then show ?thesis by (simp add: blk_in_def find_append split: option.splits)
  qed
  then show "blk_in t ?cs = (if t = tag (bs ! i) then Some ?b else blk_in t bs)" unfolding bs(2) unfolding b_def [symmetric] bs(1) [symmetric] .
qed

subsection \<open>Caches\<close>

definition cache_ok :: "nat \<Rightarrow> cache \<Rightarrow> bool" where
  "cache_ok n c \<longleftrightarrow> setShift c = n \<and> policy c \<noteq> FALRU \<and> (\<exists>k. n + k < 64 \<and> tagShift c = n + k \<and> setMask c = mask k) \<and> (\<forall>s. set_ok n (csets c s))"

definition blk_at :: "cache \<Rightarrow> u64 \<Rightarrow> blk option" where
  "blk_at c a = blk_in (extractTag c a) (csets c (extractSet c a))"

definition same_blk :: "nat \<Rightarrow> u64 \<Rightarrow> u64 \<Rightarrow> bool" where
  "same_blk n x a \<longleftrightarrow> drop_bit n x = drop_bit n a"

lemma floorLog2_power:
  assumes "n < 32"
  shows "floorLog2 (2 ^ n) = n"
proof -
  have "\<forall>n \<in> set [0..<32]. floorLog2 (2 ^ n) = n" by (simp add: upt_rec floorLog2_def drop_bit_eq_div)
  then show ?thesis using assms by simp
qed

text \<open>A new cache is empty.\<close>

lemma BaseSetAssoc_ok:
  assumes "BaseSetAssoc pol sz (2 ^ n) assoc dat = Some c" and "sz div (2 ^ n * assoc) = 2 ^ k" and "n < 32" and "k < 32" and "pol \<noteq> FALRU"
  shows "cache_ok n c"
proof -
  have "(ucast (2 ^ k - 1 :: u32) :: u64) = mask k"
  proof (rule bit_word_eqI)
    fix i assume "i < LENGTH(64)"
    then show "bit (ucast (2 ^ k - 1 :: u32) :: u64) i \<longleftrightarrow> bit (mask k :: u64) i"
      using assms(4) by (auto simp: bit_ucast_iff bit_mask_iff simp flip: mask_eq_exp_minus_1)
  qed
  then show ?thesis using assms
    by (auto simp: cache_ok_def BaseSetAssoc_def floorLog2_power set_ok_def isValid_def filter_map o_def Let_def split: if_splits)
qed

lemma same_set_tag:
  assumes "cache_ok n c"
  shows "extractSet c x = extractSet c a \<and> extractTag c x = extractTag c a \<longleftrightarrow> same_blk n x a"
proof -
  obtain k where k: "setShift c = n" "tagShift c = n + k" "setMask c = mask k" using assms by (auto simp: cache_ok_def)
  have "extractSet c y = unat (take_bit k (drop_bit n y))" "extractTag c y = drop_bit k (drop_bit n y)" for y
    by (simp_all add: extractSet_def extractTag_def k take_bit_eq_mask add.commute)
  moreover have "u = v \<longleftrightarrow> take_bit k u = take_bit k v \<and> drop_bit k u = drop_bit k v" for u v :: u64 by (metis bits_ident)
  ultimately show ?thesis unfolding same_blk_def by (metis word_unat_eq_iff)
qed

lemma same_blk_offset:
  assumes "take_bit n a = 0" and "n < 64"
  shows "same_blk n x a \<longleftrightarrow> unat (x - a) < 2 ^ n" and "same_blk n x a \<Longrightarrow> x - a = take_bit n x"
proof -
  have a: "a = push_bit n (drop_bit n a)" using bits_ident [of n a] assms(1) by simp
  show e: "x - a = take_bit n x" if "same_blk n x a"
  proof -
    have "push_bit n (drop_bit n x) = a" using that a by (simp add: same_blk_def)
    then have "a + take_bit n x = x" using bits_ident [of n x] by simp
    then show ?thesis by (metis add_diff_cancel_left')
  qed
  have "same_blk n x a" if l: "unat (x - a) < 2 ^ n"
  proof -
    define y where "y = x - a"
    have ad: "2 ^ n dvd unat a" using assms(1) by (metis take_bit_eq_0_iff take_bit_word_beyond_length_eq unsigned_0 unsigned_take_bit_eq)
    then obtain q where q: "unat a = 2 ^ n * q" by (elim dvdE)
    have lt: "2 ^ n * q < 2 ^ n * 2 ^ (64 - n)" using q unsigned_less [of a, where ?'a = nat] assms(2) by (simp flip: power_add)
    then have "q < 2 ^ (64 - n)" by simp
    then have "2 ^ n * (q + 1) \<le> 2 ^ n * 2 ^ (64 - n)" by (simp only: mult_le_mono2 Suc_eq_plus1 [symmetric] Suc_leI)
    then have b: "2 ^ n * q + 2 ^ n \<le> 2 ^ 64" using assms(2) by (simp flip: power_add)
    have "unat a + unat y < 2 ^ 64" using b l unfolding q y_def by linarith
    then have "unat x = 2 ^ n * q + unat y" using unat_add_u64 [of a y] by (simp add: y_def q)
    then have "unat x div 2 ^ n = q" "unat a div 2 ^ n = q" using l by (simp_all add: q y_def)
    then have "unat (drop_bit n x) = unat (drop_bit n a)" by (simp add: unat_drop_bit_eq flip: drop_bit_eq_div)
    then show ?thesis by (simp only: same_blk_def word_unat_eq_iff)
  qed
  moreover have "unat (x - a) < 2 ^ n" if "same_blk n x a" using e [OF that] by (simp add: unsigned_take_bit_eq)
  ultimately show "same_blk n x a \<longleftrightarrow> unat (x - a) < 2 ^ n" by blast
qed

lemma write_bytes_at: "length d \<le> 2 ^ 64 \<Longrightarrow> write_bytes a d f x = (if unat (x - a) < length d then d ! unat (x - a) else f x)"
proof (induction d arbitrary: a f)
  case (Cons b d)
  have l: "length d < 2 ^ 64" using Cons.prems by simp
  show ?case
  proof (cases "x = a")
    case True
    have "unat (a - (a + 1)) = 2 ^ 64 - 1" by (simp add: unsigned_minus_1_eq_mask mask_eq_exp_minus_1)
    then have "write_bytes (a + 1) d (f(a := b)) a = (f(a := b)) a" using Cons.IH [of "a + 1" "f(a := b)"] True l by (simp del: fun_upd_apply)
    then show ?thesis using True by simp
  next
    case False
    then have "unat (x - a) = Suc (unat (x - (a + 1)))" using unat_minus_one [of "x - a"] unat_gt_0 [of "x - a"] by (simp add: algebra_simps)
    moreover have "write_bytes (a + 1) d (f(a := b)) x = (if unat (x - (a + 1)) < length d then d ! unat (x - (a + 1)) else (f(a := b)) x)"
      using l by (intro Cons.IH) simp
    ultimately show ?thesis using False by simp
  qed
qed simp

lemma blk_at_put:
  assumes "cache_ok n c" and "set_ok n bs" and "\<And>t. blk_in t bs = (if t = extractTag c a then r else blk_in t (csets c (extractSet c a)))"
  shows "cache_ok n (set_blks (extractSet c a) bs c)" "blk_at (set_blks (extractSet c a) bs c) x = (if same_blk n x a then r else blk_at c x)"
proof -
  show "cache_ok n (set_blks (extractSet c a) bs c)" using assms(1,2) by (auto simp: cache_ok_def set_blks_def)
  show "blk_at (set_blks (extractSet c a) bs c) x = (if same_blk n x a then r else blk_at c x)"
    using same_set_tag [OF assms(1), of x a] assms(3) by (auto simp: blk_at_def set_blks_def extractSet_def extractTag_def)
qed

lemma blk_at_same: "cache_ok n c \<Longrightarrow> same_blk n x a \<Longrightarrow> blk_at c x = blk_at c a"
  using same_set_tag [of n c x a] by (simp add: blk_at_def)

lemma blockAlign_aligned: "setShift c = n \<Longrightarrow> take_bit n a = 0 \<Longrightarrow> blockAlign c a = a"
proof (rule bit_word_eqI)
  fix i assume "setShift c = n" "take_bit n a = 0"
  moreover from this have "\<not> (i < n \<and> bit a i)" using bit_take_bit_iff [of n a i] by simp
  ultimately show "bit (blockAlign c a) i \<longleftrightarrow> bit a i" if "i < LENGTH(64)" using that by (auto simp: blockAlign_def bit_simps)
qed

lemma functional_write_at:
  assumes C: "cache_ok n c" and a: "take_bit n a = 0" and d: "length d = 2 ^ n"
  shows "cache_ok n (functionalAccess_write a d c)"
    "blk_at (functionalAccess_write a d c) x = (if same_blk n x a then map_option (\<lambda>b. b\<lparr>blk_data := d\<rparr>) (blk_at c x) else blk_at c x)"
proof -
  let ?s = "extractSet c a" and ?t = "extractTag c a"
  have O: "set_ok n (csets c ?s)" and n: "setShift c = n" using C by (simp_all add: cache_ok_def)
  have "cache_ok n (functionalAccess_write a d c) \<and>
    blk_at (functionalAccess_write a d c) x = (if same_blk n x a then map_option (\<lambda>b. b\<lparr>blk_data := d\<rparr>) (blk_at c x) else blk_at c x)"
  proof (cases "findBlk ?t False (csets c ?s)")
    case None
    have "blk_at c x = None" if "same_blk n x a" using blk_at_same [OF C that] find_nonsecure(1) [OF O None] by (simp add: blk_at_def)
    then show ?thesis using C None by (simp add: functionalAccess_write_def findBlock_def)
  next
    case (Some i)
    let ?b = "csets c ?s ! i"
    note i = find_nonsecure(2) [OF O Some]
    have "length (blk_data ?b) = 2 ^ n" using O i by (auto simp: set_ok_def)
    then have e: "checkFunctional_write a d (blockAlign c a) (blk_data ?b) = d" using d by (simp add: checkFunctional_write_def blockAlign_aligned [OF n a] Let_def)
    have f: "functionalAccess_write a d c = set_blks ?s ((csets c ?s)[i := ?b\<lparr>blk_data := d\<rparr>]) c"
      by (simp add: functionalAccess_write_def findBlock_def Some Let_def e)
    have u: "set_ok n ((csets c ?s)[i := ?b\<lparr>blk_data := d\<rparr>])"
      "blk_in t ((csets c ?s)[i := ?b\<lparr>blk_data := d\<rparr>]) = (if t = ?t then Some (?b\<lparr>blk_data := d\<rparr>) else blk_in t (csets c ?s))" for t
      using update_block [OF O _ _ d, of i] i by auto
    have "blk_at c x = Some ?b" if "same_blk n x a" using blk_at_same [OF C that] i by (simp add: blk_at_def)
    then show ?thesis unfolding f using blk_at_put [OF C u(1) u(2)] by simp
  qed
  then show "cache_ok n (functionalAccess_write a d c)"
    "blk_at (functionalAccess_write a d c) x = (if same_blk n x a then map_option (\<lambda>b. b\<lparr>blk_data := d\<rparr>) (blk_at c x) else blk_at c x)" by simp_all
qed

lemma set_blks_simps [simp]: "policy (set_blks s bs c) = policy c" "csets (set_blks s bs c) s = bs" "set_blks s bs' (set_blks s bs c) = set_blks s bs' c"
  by (simp_all add: set_blks_def)

lemma invalidate_mset:
  assumes "i < length bs"
  shows "mset ((moveToTail i bs)[length bs - 1 := b']) = add_mset b' (mset bs - {#bs ! i#})" "mset (bs[i := b']) = add_mset b' (mset bs - {#bs ! i#})"
proof -
  have "length (erase i bs) = length bs - 1" using assms by (simp add: erase_def)
  then have "(moveToTail i bs)[length bs - 1 := b'] = erase i bs @ [b']" by (simp add: moveToTail_eq [OF assms] list_update_append)
  then show "mset ((moveToTail i bs)[length bs - 1 := b']) = add_mset b' (mset bs - {#bs ! i#})" by (simp flip: erase_mset [OF assms])
  show "mset (bs[i := b']) = add_mset b' (mset bs - {#bs ! i#})" using assms by (rule mset_update)
qed

lemma flush_block_at:
  assumes C: "cache_ok n c"
  shows "\<exists>c'. cache_ok n c' \<and> (\<forall>x. blk_at c' x = (if same_blk n x a then None else blk_at c x)) \<and>
    flush_block k a c h = (case blk_at c a of None \<Rightarrow> h | Some b \<Rightarrow> put_cache k c' (if isDirty b then sendFunctional k a (blk_data b) h else h))"
proof -
  let ?s = "extractSet c a" and ?t = "extractTag c a"
  let ?bs = "csets c ?s"
  have O: "set_ok n ?bs" using C by (simp add: cache_ok_def)
  have T: "findBlock c a True = None" unfolding findBlock_def by (rule find_secure [OF O])
  show ?thesis
  proof (cases "findBlk ?t False ?bs")
    case None
    have z: "blk_at c a = None" using find_nonsecure(1) [OF O None] by (simp add: blk_at_def)
    then have "flush_block k a c h = h" using T None by (simp add: flush_block_def accessBlock_def findBlock_def)
    moreover have "blk_at c x = (if same_blk n x a then None else blk_at c x)" for x using blk_at_same [OF C, of x a] z by simp
    ultimately show ?thesis using C z by (intro exI [of _ c]) simp
  next
    case (Some i)
    let ?b = "?bs ! i"
    note i = find_nonsecure(2) [OF O Some]
    have b: "blk_at c a = Some ?b" using i by (simp add: blk_at_def)
    define bs1 where "bs1 = (if policy c = LRU then moveToHead i ?bs else ?bs)"
    define i1 where "i1 = (if policy c = LRU then 0 else i)"
    have p: "?bs \<noteq> []" using i by auto
    then have m1: "mset bs1 = mset ?bs" "bs1 ! i1 = ?b" "i1 < length bs1" using i moveToHead_mset [of i ?bs] by (auto simp: bs1_def i1_def)
    have acc: "accessBlock a False c = (Some i1, set_blks ?s bs1 c)"
      using Some by (simp add: accessBlock_def findBlock_def bs1_def i1_def) (simp add: set_blks_def)
    define cs where "cs = (if policy c = LRU then (moveToTail i1 bs1)[length bs1 - 1 := blk_invalidate (bs1 ! i1)] else bs1[i1 := blk_invalidate (bs1 ! i1)])"
    have inv: "cache_invalidate ?s i1 (set_blks ?s bs1 c) = set_blks ?s cs c" by (simp add: cache_invalidate_def cs_def Let_def)
    have "mset cs = add_mset (blk_invalidate ?b) (mset ?bs - {#?b#})" using invalidate_mset [OF m1(3)] m1 by (simp add: cs_def)
    note dr = drop_block [OF O _ _ this]
    have r: "set_ok n cs" "blk_in t cs = (if t = ?t then None else blk_in t ?bs)" for t using dr i by simp_all
    have "flush_block k a c h = put_cache k (set_blks ?s cs c) (if isDirty ?b then sendFunctional k a (blk_data ?b) h else h)"
      using T acc m1(2) inv by (simp add: flush_block_def accessBlock_def [of a True] Let_def)
    then show ?thesis using blk_at_put [OF C r] b by (intro exI [of _ "set_blks ?s cs c"]) simp
  qed
qed

subsection \<open>What the host and the memory hold for an address\<close>

text \<open>A copy is dirty or not and has a value; for an address a state has the copies of the first level, the copy of the second level and the byte in memory.\<close>

type_synonym copy = "(bool \<times> u8) option"
type_synonym copies = "copy list \<times> copy \<times> u8"

definition copy_at :: "nat \<Rightarrow> cache \<Rightarrow> u64 \<Rightarrow> copy" where
  "copy_at n c x = map_option (\<lambda>b. (isDirty b, blk_data b ! unat (take_bit n x))) (blk_at c x)"

definition copies_at :: "nat \<Rightarrow> host \<Rightarrow> u64 \<Rightarrow> copies" where
  "copies_at n h x = (map (\<lambda>c. copy_at n c x) (l1 h), Option.bind (l2 h) (\<lambda>c. copy_at n c x), dram h x)"

fun dirty_copy :: "copy \<Rightarrow> bool" where
  "dirty_copy None \<longleftrightarrow> False"
| "dirty_copy (Some (d, v)) \<longleftrightarrow> d"

text \<open>The value of an address: a dirty copy of the first level, else of the second, else the byte in memory.\<close>

fun copies_value :: "copies \<Rightarrow> u8" where
  "copies_value (ms, q, m) = (case find dirty_copy (ms @ [q]) of Some (Some (d, v)) \<Rightarrow> v | _ \<Rightarrow> m)"

fun copies_ok :: "copies \<Rightarrow> bool" where
  "copies_ok (ms, q, m) \<longleftrightarrow> (\<forall>d v. Some (d, v) \<in> set ms \<longrightarrow> v = copies_value (ms, q, m)) \<and>
     (\<forall>d v. q = Some (d, v) \<longrightarrow> \<not> list_ex dirty_copy ms \<longrightarrow> v = copies_value (ms, q, m))"

definition host_value :: "nat \<Rightarrow> host \<Rightarrow> u64 \<Rightarrow> u8" where
  "host_value n h x = copies_value (copies_at n h x)"

definition caches_ok :: "nat \<Rightarrow> host \<Rightarrow> bool" where
  "caches_ok n h \<longleftrightarrow> n < 64 \<and> (\<forall>c \<in> set (l1 h) \<union> set_option (l2 h). cache_ok n c)"

definition coherent :: "nat \<Rightarrow> host \<Rightarrow> bool" where
  "coherent n h \<longleftrightarrow> caches_ok n h \<and> (\<forall>x. copies_ok (copies_at n h x))"

definition upd_copy :: "u8 \<Rightarrow> copy \<Rightarrow> copy" where
  "upd_copy v = map_option (\<lambda>(d, w). (d, v))"

text \<open>The flush of a block as seen at one of its addresses.\<close>

fun flush_copy :: "cache_id \<Rightarrow> copies \<Rightarrow> copies" where
  "flush_copy L2 (ms, q, m) = (ms, None, case q of Some (True, v) \<Rightarrow> v | _ \<Rightarrow> m)"
| "flush_copy (L1 i) (ms, q, m) =
     (case ms ! i of Some (True, v) \<Rightarrow> ((map (upd_copy v) ms)[i := None], upd_copy v q, v) | _ \<Rightarrow> (ms[i := None], q, m))"

lemma value_dirty: "copies_ok (ms, q, m) \<Longrightarrow> Some (True, v) \<in> set ms \<Longrightarrow> copies_value (ms, q, m) = v"
  by (metis copies_ok.simps)

lemma value_clean: "\<not> list_ex dirty_copy ms \<Longrightarrow> copies_value (ms, q, m) = (case q of Some (True, v) \<Rightarrow> v | _ \<Rightarrow> m)"
proof -
  assume "\<not> list_ex dirty_copy ms"
  then have "find dirty_copy ms = None" by (simp add: find_None_iff list_ex_iff)
  then show ?thesis by (auto simp: find_append split: option.splits)
qed

lemma value_upd:
  assumes "\<forall>r \<in> set ms. \<forall>d w. r = Some (d, w) \<longrightarrow> w = v" and "\<forall>d w. q = Some (d, w) \<longrightarrow> w = v"
  shows "copies_value (ms, q, v) = v"
proof (cases "find dirty_copy (ms @ [q])")
  case (Some r)
  then have "r \<in> set ms \<or> r = q" "dirty_copy r" by (auto simp: find_Some_iff nth_append split: if_splits)
  then show ?thesis using assms Some by (cases r) (auto split: prod.splits)
qed simp

lemma flush_copy_ok:
  assumes O: "copies_ok (ms, q, m)" and k: "case k of L2 \<Rightarrow> True | L1 i \<Rightarrow> i < length ms"
  shows "copies_ok (flush_copy k (ms, q, m)) \<and> copies_value (flush_copy k (ms, q, m)) = copies_value (ms, q, m)"
proof (cases k)
  case L2
  let ?m = "case q of Some (True, v) \<Rightarrow> v | _ \<Rightarrow> m"
  have e: "copies_value (ms, None, ?m) = copies_value (ms, q, m)"
  proof (cases "list_ex dirty_copy ms")
    case True
    then obtain y where y: "find dirty_copy ms = Some y" by (cases "find dirty_copy ms") (auto simp: find_None_iff list_ex_iff)
    then have "dirty_copy y" by (auto simp: find_Some_iff)
    then show ?thesis using y by (cases y) (auto simp: find_append)
  qed (simp add: value_clean del: copies_value.simps)
  then show ?thesis using O L2 by (simp del: copies_value.simps)
next
  case (L1 i)
  then have i: "i < length ms" using k by simp
  show ?thesis
  proof (cases "\<exists>v. ms ! i = Some (True, v)")
    case True
    then obtain v where v: "ms ! i = Some (True, v)" by blast
    let ?ms = "(map (upd_copy v) ms)[i := None]"
    have val: "copies_value (ms, q, m) = v" using value_dirty [OF O] v i nth_mem by metis
    have a: "\<forall>r \<in> set ?ms. \<forall>d w. r = Some (d, w) \<longrightarrow> w = v"
    proof
      fix r assume "r \<in> set ?ms"
      then have "r \<in> insert None (upd_copy v ` set ms)" using set_update_subset_insert [of "map (upd_copy v) ms" i None] by auto
      then show "\<forall>d w. r = Some (d, w) \<longrightarrow> w = v" by (auto simp: upd_copy_def map_option_case split: option.splits)
    qed
    have b: "\<forall>d w. upd_copy v q = Some (d, w) \<longrightarrow> w = v" by (auto simp: upd_copy_def)
    have new: "copies_value (?ms, upd_copy v q, v) = v" by (rule value_upd [OF a b])
    have f: "flush_copy k (ms, q, m) = (?ms, upd_copy v q, v)" using L1 v by simp
    show ?thesis unfolding f copies_ok.simps new val using a b by blast
  next
    case False
    then have f: "flush_copy k (ms, q, m) = (ms[i := None], q, m)" using L1 by (auto split: option.splits bool.splits)
    have nd: "\<not> dirty_copy (ms ! i)" using False by (cases "ms ! i") auto
    have s: "ms = take i ms @ ms ! i # drop (Suc i) ms" "ms[i := None] = take i ms @ None # drop (Suc i) ms"
      using i by (simp_all add: id_take_nth_drop upd_conv_take_nth_drop)
    have "find dirty_copy (xs @ None # ys) = find dirty_copy (xs @ ms ! i # ys)" "list_ex dirty_copy (xs @ None # ys) = list_ex dirty_copy (xs @ ms ! i # ys)" for xs ys
      using nd by (simp_all add: find_append split: option.splits)
    then have fl: "find dirty_copy (ms[i := None]) = find dirty_copy ms" "list_ex dirty_copy (ms[i := None]) = list_ex dirty_copy ms" using s by metis+
    then have e: "copies_value (ms[i := None], q, m) = copies_value (ms, q, m)" by (simp add: find_append)
    have "\<forall>d v. Some (d, v) \<in> set (ms[i := None]) \<longrightarrow> Some (d, v) \<in> set ms" using set_update_subset_insert [of ms i None] by auto
    then show ?thesis using O unfolding f copies_ok.simps e fl(2) by blast
  qed
qed

text \<open>A functional write of a whole block.\<close>

lemma copy_at_write:
  assumes "cache_ok n c" and "take_bit n a = 0" and "length d = 2 ^ n"
  shows "copy_at n (functionalAccess_write a d c) x = (if same_blk n x a then upd_copy (d ! unat (take_bit n x)) (copy_at n c x) else copy_at n c x)"
  by (auto simp: copy_at_def functional_write_at [OF assms] upd_copy_def option.map_comp o_def isDirty_def)

definition put_ok :: "cache_id \<Rightarrow> host \<Rightarrow> bool" where
  "put_ok k h \<longleftrightarrow> (case k of L2 \<Rightarrow> l2 h \<noteq> None | L1 i \<Rightarrow> i < length (l1 h))"

text \<open>The shape of the hierarchy.\<close>

definition same_shape :: "host \<Rightarrow> host \<Rightarrow> bool" where
  "same_shape h g \<longleftrightarrow> length (l1 h) = length (l1 g) \<and> (l2 h = None \<longleftrightarrow> l2 g = None)"

lemma flush_block_copies:
  assumes C: "caches_ok n h" and g: "get_cache k h = Some c" and a: "take_bit n a = 0"
  shows "caches_ok n (flush_block k a c h)" "same_shape (flush_block k a c h) h"
    "copies_at n (flush_block k a c h) x = (if same_blk n x a then flush_copy k (copies_at n h x) else copies_at n h x)"
proof -
  have cn: "cache_ok n c" "n < 64" using C g by (cases k; auto simp: caches_ok_def split: if_splits)+
  obtain c' where c': "cache_ok n c'" "\<And>x. blk_at c' x = (if same_blk n x a then None else blk_at c x)"
    "flush_block k a c h = (case blk_at c a of None \<Rightarrow> h | Some b \<Rightarrow> put_cache k c' (if isDirty b then sendFunctional k a (blk_data b) h else h))"
    using flush_block_at [OF cn(1)] by blast
  have cc: "copy_at n c' x = (if same_blk n x a then None else copy_at n c x)" for x by (simp add: copy_at_def c'(2))
  have "caches_ok n (flush_block k a c h) \<and> same_shape (flush_block k a c h) h \<and>
    copies_at n (flush_block k a c h) x = (if same_blk n x a then flush_copy k (copies_at n h x) else copies_at n h x)"
  proof (cases "blk_at c a")
    case None
    have n: "copy_at n c x = None" if "same_blk n x a" using blk_at_same [OF cn(1) that] None by (simp add: copy_at_def)
    have "flush_copy k (copies_at n h x) = copies_at n h x" if s: "same_blk n x a"
    proof (cases k)
      case (L1 i)
      then have i: "i < length (l1 h)" "l1 h ! i = c" using g by (auto split: if_splits)
      then have "map (\<lambda>c. copy_at n c x) (l1 h) ! i = None" using n [OF s] by simp
      then show ?thesis using L1 by (simp add: copies_at_def) (metis list_update_id)
    qed (use g n [OF s] in \<open>simp add: copies_at_def\<close>)
    then show ?thesis using None c'(3) C by (simp add: same_shape_def)
  next
    case (Some b)
    have ls: "length (blk_data b) = 2 ^ n"
      using Some cn(1) blk_in_iff [of n "csets c (extractSet c a)" "extractTag c a" b] by (auto simp: blk_at_def cache_ok_def set_ok_def)
    have cx: "copy_at n c x = Some (isDirty b, blk_data b ! unat (take_bit n x))" if "same_blk n x a"
      using blk_at_same [OF cn(1) that] Some by (simp add: copy_at_def)
    have wr: "write_bytes a (blk_data b) (dram h) x = (if same_blk n x a then blk_data b ! unat (take_bit n x) else dram h x)"
    proof -
      have "(2 :: nat) ^ n \<le> 2 ^ 64" using cn(2) by (intro power_increasing) simp_all
      then show ?thesis using write_bytes_at [of "blk_data b" a "dram h" x] ls same_blk_offset [OF a cn(2), of x] by simp
    qed
    let ?g = "if isDirty b then sendFunctional k a (blk_data b) h else h"
    have f: "flush_block k a c h = put_cache k c' ?g" using c'(3) Some by simp
    show ?thesis
    proof (cases k)
      case L2
      then show ?thesis unfolding f using C c'(1) g cc cx wr
        by (auto simp: caches_ok_def same_shape_def sendFunctional_def copies_at_def)
    next
      case (L1 i)
      then have i: "i < length (l1 h)" "l1 h ! i = c" using g by (auto split: if_splits)
      note f' = f [unfolded L1]
      have ok: "cache_ok n e" if "e \<in> set (l1 h) \<or> l2 h = Some e" for e using C that by (auto simp: caches_ok_def)
      have ok1: "cache_ok n (l1 h ! j)" if "j < length (l1 h)" for j using ok that by simp
      note fw = functional_write_at(1) [OF ok a ls] functional_write_at(1) [OF ok1 a ls] copy_at_write [OF ok a ls] copy_at_write [OF ok1 a ls]
      have l2c: "Option.bind (map_option (functionalAccess_write a (blk_data b)) (l2 h)) (\<lambda>c. copy_at n c x) =
        (if same_blk n x a then upd_copy (blk_data b ! unat (take_bit n x)) else id) (Option.bind (l2 h) (\<lambda>c. copy_at n c x))"
        using fw(3) by (cases "l2 h") (auto simp: upd_copy_def)
      have "caches_ok n (flush_block k a c h)" unfolding L1 f' using C c'(1) fw(1,2) ok1 i
        by (auto simp: caches_ok_def sendFunctional_def in_set_conv_nth nth_list_update split: if_splits)
      moreover have "same_shape (flush_block k a c h) h" unfolding L1 f' by (simp add: same_shape_def sendFunctional_def)
      moreover have "copies_at n (flush_block k a c h) x = (if same_blk n x a then flush_copy k (copies_at n h x) else copies_at n h x)"
        unfolding L1 f' copies_at_def using i cc cx wr fw(3,4) l2c
        by (auto simp: sendFunctional_def nth_list_update intro!: nth_equalityI split: option.splits bool.splits)
      ultimately show ?thesis by blast
    qed
  qed
  then show "caches_ok n (flush_block k a c h)" "same_shape (flush_block k a c h) h"
    "copies_at n (flush_block k a c h) x = (if same_blk n x a then flush_copy k (copies_at n h x) else copies_at n h x)" by simp_all
qed

subsection \<open>The whole flush\<close>

definition nocopy :: "nat \<Rightarrow> cache_id \<Rightarrow> host \<Rightarrow> u64 \<Rightarrow> bool" where
  "nocopy n k h x \<longleftrightarrow> (case k of L2 \<Rightarrow> fst (snd (copies_at n h x)) = None | L1 i \<Rightarrow> i < length (l1 h) \<longrightarrow> fst (copies_at n h x) ! i = None)"

lemma flush_copy_copies:
  assumes "flush_copy k (ms, q, m) = (ms', q', m')"
  shows "length ms' = length ms" "q = None \<or> k = L2 \<Longrightarrow> q' = None" "i < length ms \<Longrightarrow> ms ! i = None \<or> k = L1 i \<Longrightarrow> ms' ! i = None"
proof -
  have "length ms' = length ms \<and> (q = None \<or> k = L2 \<longrightarrow> q' = None) \<and> (i < length ms \<longrightarrow> ms ! i = None \<or> k = L1 i \<longrightarrow> ms' ! i = None)"
  proof (cases k)
    case (L1 j)
    show ?thesis
    proof (cases "\<exists>v. ms ! j = Some (True, v)")
      case True
      then obtain v where "ms ! j = Some (True, v)" by blast
      then have "ms' = (map (upd_copy v) ms)[j := None]" "q' = upd_copy v q" using assms L1 by auto
      then show ?thesis using L1 by (cases "i = j") (auto simp: upd_copy_def)
    next
      case False
      then have "flush_copy k (ms, q, m) = (ms[j := None], q, m)" using L1 by (auto split: option.splits bool.splits)
      then show ?thesis using assms L1 by (cases "i = j") auto
    qed
  qed (use assms in auto)
  then show "length ms' = length ms" "q = None \<or> k = L2 \<Longrightarrow> q' = None" "i < length ms \<Longrightarrow> ms ! i = None \<or> k = L1 i \<Longrightarrow> ms' ! i = None" by blast+
qed

lemma flush_copy_none:
  assumes "copies_at n h x = flush_copy k (copies_at n h' x)" and "nocopy n j h' x \<or> j = k" and l: "length (l1 h') = length (l1 h)"
  shows "nocopy n j h x"
proof -
  obtain ms q m ms' q' m' where e: "copies_at n h' x = (ms, q, m)" "copies_at n h x = (ms', q', m')" by (meson prod_cases3)
  have lm: "length ms = length (l1 h)" using e(1) l by (auto simp: copies_at_def)
  have "flush_copy k (ms, q, m) = (ms', q', m')" using assms(1) e by simp
  note f = flush_copy_copies [OF this]
  show ?thesis using assms(2) unfolding nocopy_def e l by (cases j) (use f lm in auto)
qed

lemma flush_block_step:
  assumes H: "coherent n h" and g: "get_cache k h = Some c" and a: "take_bit n a = 0"
  shows "coherent n (flush_block k a c h)" "same_shape (flush_block k a c h) h" "host_value n (flush_block k a c h) x = host_value n h x"
    "same_blk n x a \<Longrightarrow> nocopy n k (flush_block k a c h) x" "nocopy n j h x \<Longrightarrow> nocopy n j (flush_block k a c h) x"
proof -
  let ?g = "flush_block k a c h"
  have C: "caches_ok n h" and V: "copies_ok (copies_at n h x)" for x using H by (simp_all add: coherent_def)
  note f = flush_block_copies [OF C g a]
  have k: "case k of L2 \<Rightarrow> True | L1 i \<Rightarrow> i < length (fst (copies_at n h x))" for x using g by (cases k) (auto simp: copies_at_def split: if_splits)
  have fc: "copies_ok (flush_copy k (copies_at n h x)) \<and> copies_value (flush_copy k (copies_at n h x)) = copies_value (copies_at n h x)" for x
    using flush_copy_ok [of "fst (copies_at n h x)" "fst (snd (copies_at n h x))" "snd (snd (copies_at n h x))" k] V [of x] k [of x] by simp
  show "coherent n ?g" using f(1,3) fc V by (simp add: coherent_def)
  show "same_shape ?g h" by (rule f(2))
  show "host_value n ?g x = host_value n h x" using f(3) fc by (simp add: host_value_def)
  have l: "length (l1 h) = length (l1 ?g)" using f(2) by (simp add: same_shape_def)
  show "nocopy n k ?g x" if "same_blk n x a" using f(3) [of x] that by (intro flush_copy_none [OF _ _ l, of _ x k]) simp_all
  show "nocopy n j ?g x" if "nocopy n j h x"
  proof (cases "same_blk n x a")
    case True
    then show ?thesis using f(3) [of x] that by (intro flush_copy_none [OF _ _ l, of _ x k]) simp_all
  next
    case False
    then show ?thesis using f(3) [of x] that l by (simp add: nocopy_def split: cache_id.splits)
  qed
qed

text \<open>The first address of the block of an address.\<close>

definition base_of :: "nat \<Rightarrow> u64 \<Rightarrow> nat" where
  "base_of n x = 2 ^ n * (unat x div 2 ^ n)"

definition flushed_to :: "nat \<Rightarrow> (cache_id \<Rightarrow> u64 \<Rightarrow> bool) \<Rightarrow> host \<Rightarrow> host \<Rightarrow> bool" where
  "flushed_to n S h g \<longleftrightarrow> coherent n g \<and> same_shape g h \<and> (\<forall>x. host_value n g x = host_value n h x) \<and>
     (\<forall>j x. nocopy n j h x \<or> S j x \<longrightarrow> nocopy n j g x)"

lemma flushed_to_trans:
  assumes "flushed_to n S h g" and "flushed_to n T g r"
  shows "flushed_to n (\<lambda>j x. S j x \<or> T j x) h r"
  using assms by (auto simp: flushed_to_def same_shape_def)

lemma same_blk_base: "take_bit n a = 0 \<Longrightarrow> same_blk n x a \<longleftrightarrow> base_of n x = unat a"
proof -
  assume "take_bit n a = 0"
  then have "unat a mod 2 ^ n = 0" by (metis take_bit_eq_mod unsigned_0 unsigned_take_bit_eq)
  then have "base_of n a = unat a" by (simp add: base_of_def mult.commute minus_mod_eq_mult_div [symmetric])
  moreover have "same_blk n x a \<longleftrightarrow> unat x div 2 ^ n = unat a div 2 ^ n"
    unfolding same_blk_def word_unat_eq_iff by (simp add: unat_drop_bit_eq flip: drop_bit_eq_div)
  moreover have "unat x div 2 ^ n = unat a div 2 ^ n \<longleftrightarrow> base_of n x = base_of n a" by (simp add: base_of_def)
  ultimately show ?thesis by simp
qed

lemma get_cache_shape: "same_shape g h \<Longrightarrow> get_cache k h \<noteq> None \<Longrightarrow> get_cache k g \<noteq> None"
  by (cases k) (auto simp: same_shape_def split: if_splits)

lemma flush_loop_ok:
  assumes "coherent n h" and "get_cache k h \<noteq> None" and "take_bit n a = 0" and e: "unat e + 2 ^ n < 2 ^ 64"
  shows "\<exists>g. flush_loop k a e h = Some g \<and> flushed_to n (\<lambda>j x. j = k \<and> unat a \<le> base_of n x \<and> base_of n x \<le> unat e) h g"
  using assms(1-3)
proof (induction "unat e + 1 - unat a" arbitrary: a h rule: less_induct)
  case less
  note H = less.prems(1) and A = less.prems(3)
  obtain c where c: "get_cache k h = Some c" using less.prems(2) by auto
  have n: "setShift c = n" using H c by (cases k) (auto simp: coherent_def caches_ok_def cache_ok_def split: if_splits)
  have n64: "n < 64" using H by (simp add: coherent_def caches_ok_def)
  show ?case
  proof (cases "a \<le> e")
    case False
    then have "unat e < unat a" by (simp add: word_le_nat_alt)
    then show ?thesis using False H by (subst flush_loop.simps) (auto simp: flushed_to_def same_shape_def)
  next
    case True
    let ?g = "flush_block k a c h"
    note st = flush_block_step [OF H c A]
    have ae: "unat a \<le> unat e" using True by (simp add: word_le_nat_alt)
    have "(2 :: nat) ^ n < 2 ^ 64" using n64 by (rule power_strict_increasing) simp
    then have p: "unat (2 ^ n :: u64) = 2 ^ n" using unat_of_nat_u64 [of "2 ^ n"] by simp
    have a2: "unat (a + 2 ^ n) = unat a + 2 ^ n" using unat_add_u64 [of a "2 ^ n"] ae e by (simp add: p)
    have "unat (take_bit n (a + 2 ^ n)) = unat (take_bit n a)" unfolding unsigned_take_bit_eq a2 by (simp add: take_bit_eq_mod)
    then have al: "take_bit n (a + 2 ^ n) = 0" using A by (simp add: unat_eq_zero)
    have "unat e + 1 - unat (a + 2 ^ n) < unat e + 1 - unat a" using ae by (simp add: a2 diff_less_mono2)
    moreover have "get_cache k ?g \<noteq> None" by (rule get_cache_shape [OF st(2) less.prems(2)])
    ultimately obtain g where g: "flush_loop k (a + 2 ^ n) e ?g = Some g"
      "flushed_to n (\<lambda>j x. j = k \<and> unat (a + 2 ^ n) \<le> base_of n x \<and> base_of n x \<le> unat e) ?g g"
      using less.hyps [of "a + 2 ^ n" ?g] st(1) al by blast
    have "flushed_to n (\<lambda>j x. j = k \<and> same_blk n x a) h ?g" using st by (auto simp: flushed_to_def)
    then have f: "flushed_to n (\<lambda>j x. (j = k \<and> same_blk n x a) \<or> (j = k \<and> unat (a + 2 ^ n) \<le> base_of n x \<and> base_of n x \<le> unat e)) h g"
      using g(2) by (rule flushed_to_trans)
    have "same_blk n x a \<or> unat (a + 2 ^ n) \<le> base_of n x" if "unat a \<le> base_of n x" for x
    proof -
      have "2 ^ n dvd unat a" using A by (metis take_bit_eq_0_iff unsigned_0 unsigned_take_bit_eq)
      then obtain q where q: "unat a = 2 ^ n * q" by (elim dvdE)
      let ?p = "unat x div 2 ^ n"
      have "2 ^ n * q \<le> 2 ^ n * ?p" using that unfolding q base_of_def .
      then have "q \<le> ?p" by simp
      then consider "?p = q" | "q + 1 \<le> ?p" by linarith
      then show ?thesis
      proof cases
        case 1
        then show ?thesis using same_blk_base [OF A, of x] by (simp add: base_of_def q)
      next
        case 2
        then have "2 ^ n * (q + 1) \<le> 2 ^ n * ?p" by (rule mult_le_mono2)
        then show ?thesis unfolding a2 q base_of_def by simp
      qed
    qed
    then have "flushed_to n (\<lambda>j x. j = k \<and> unat a \<le> base_of n x \<and> base_of n x \<le> unat e) h g" using f unfolding flushed_to_def by blast
    moreover have "flush_loop k a e h = Some g" using True c n g(1) by (subst flush_loop.simps) simp
    ultimately show ?thesis by blast
  qed
qed

lemma block_start:
  assumes "n < 64"
  shows "take_bit n (s div 2 ^ n * 2 ^ n :: u64) = 0" "unat (s div 2 ^ n * 2 ^ n :: u64) = base_of n s"
proof -
  have e: "s div 2 ^ n * 2 ^ n = push_bit n (drop_bit n s)" by (simp add: push_bit_eq_mult drop_bit_eq_div)
  have "unat s = 2 ^ n * (unat s div 2 ^ n) + unat s mod 2 ^ n" by simp
  then have "base_of n s \<le> unat s" unfolding base_of_def by linarith
  moreover have "unat s < 2 ^ 64" using unsigned_less [of s, where ?'a = nat] by simp
  ultimately have "2 ^ n * (unat s div 2 ^ n) < 2 ^ 64" unfolding base_of_def by (rule le_less_trans)
  moreover have "s div 2 ^ n * 2 ^ n = of_nat (2 ^ n * (unat s div 2 ^ n))"
    unfolding e by (simp add: push_bit_eq_mult mult.commute unat_drop_bit_eq [symmetric] drop_bit_eq_div [symmetric])
  ultimately show u: "unat (s div 2 ^ n * 2 ^ n :: u64) = base_of n s" by (simp only: unat_of_nat_u64 base_of_def)
  have "unat (take_bit n (s div 2 ^ n * 2 ^ n)) = 0" unfolding unsigned_take_bit_eq u by (simp add: base_of_def take_bit_eq_mod)
  then show "take_bit n (s div 2 ^ n * 2 ^ n :: u64) = 0" by (simp only: unat_eq_zero)
qed

lemma flush_range_ok:
  assumes H: "coherent n h" and k: "get_cache k h \<noteq> None" and e: "unat e + 2 ^ n < 2 ^ 64"
  shows "\<exists>g. ethz_flush_range k s e h = Some g \<and> flushed_to n (\<lambda>j x. j = k \<and> base_of n s \<le> base_of n x \<and> base_of n x \<le> unat e) h g"
proof -
  obtain c where c: "get_cache k h = Some c" using k by auto
  have n: "setShift c = n" "policy c \<noteq> FALRU" "n < 64" using H c by (cases k; auto simp: coherent_def caches_ok_def cache_ok_def split: if_splits)+
  then show ?thesis using flush_loop_ok [OF H k block_start(1) [OF n(3), of s] e] c by (simp add: ethz_flush_range_def block_start(2))
qed

lemma flush_each_ok:
  assumes "coherent n h" and "\<forall>k \<in> set ks. get_cache k h \<noteq> None" and e: "unat e + 2 ^ n < 2 ^ 64"
  shows "\<exists>g. flush_each ks s e h = Some g \<and> flushed_to n (\<lambda>j x. j \<in> set ks \<and> base_of n s \<le> base_of n x \<and> base_of n x \<le> unat e) h g"
  using assms(1,2)
proof (induction ks arbitrary: h)
  case Nil
  then show ?case by (simp add: flushed_to_def same_shape_def)
next
  case (Cons k ks)
  obtain g where g: "ethz_flush_range k s e h = Some g" "flushed_to n (\<lambda>j x. j = k \<and> base_of n s \<le> base_of n x \<and> base_of n x \<le> unat e) h g"
    using flush_range_ok [OF Cons.prems(1) _ e, of k s] Cons.prems(2) by (auto simp del: not_None_eq)
  have "coherent n g" "\<forall>k \<in> set ks. get_cache k g \<noteq> None" using g(2) Cons.prems(2) get_cache_shape [of g h] by (auto simp: flushed_to_def simp del: not_None_eq)
  then obtain r where r: "flush_each ks s e g = Some r" "flushed_to n (\<lambda>j x. j \<in> set ks \<and> base_of n s \<le> base_of n x \<and> base_of n x \<le> unat e) g r"
    using Cons.IH by blast
  have "flushed_to n (\<lambda>j x. j \<in> set (k # ks) \<and> base_of n s \<le> base_of n x \<and> base_of n x \<le> unat e) h r"
    using flushed_to_trans [OF g(2) r(2)] unfolding flushed_to_def by auto
  then show ?case using g(1) r(1) by simp
qed

lemma nocopy_value:
  assumes "\<forall>k \<in> set (system_caches h). nocopy n k h x"
  shows "host_value n h x = dram h x" "\<forall>c \<in> set (l1 h) \<union> set_option (l2 h). copy_at n c x = None"
proof -
  have a: "copy_at n (l1 h ! i) x = None" if "i < length (l1 h)" for i
  proof -
    have "L1 i \<in> set (system_caches h)" using that by (simp add: system_caches_def)
    then have "nocopy n (L1 i) h x" using assms by blast
    then show ?thesis using that by (simp add: nocopy_def copies_at_def)
  qed
  have b: "Option.bind (l2 h) (\<lambda>c. copy_at n c x) = None" using assms by (cases "l2 h") (auto simp: system_caches_def nocopy_def copies_at_def)
  show "\<forall>c \<in> set (l1 h) \<union> set_option (l2 h). copy_at n c x = None" using a b by (auto simp: in_set_conv_nth)
  then have "\<not> list_ex dirty_copy (map (\<lambda>c. copy_at n c x) (l1 h))" by (auto simp: list_ex_iff)
  from value_clean [OF this] show "host_value n h x = dram h x" by (simp add: host_value_def copies_at_def b)
qed

lemma base_of_mono: "x \<le> y \<Longrightarrow> base_of n x \<le> base_of n y"
  by (simp add: base_of_def word_le_nat_alt div_le_mono)

lemma base_of_le: "base_of n x \<le> unat x"
  by (simp add: base_of_def)

text \<open>
  C38. The flush that the driver asks for before it hands its pages to the PIM does what the PIM relies on: for coherent host caches it returns, no cache holds an address of the range any more, the memory holds there
  the value that the host saw, and the host sees the same value at every address as before.
\<close>

theorem cache_flush_coherent:
  assumes "coherent n h" and "unat e + 2 ^ n < 2 ^ 64"
  shows "\<exists>g. ask_host_to_flush s e h = Some g \<and> coherent n g \<and> (\<forall>x. host_value n g x = host_value n h x) \<and>
    (\<forall>x. s \<le> x \<longrightarrow> x \<le> e \<longrightarrow> (\<forall>c \<in> set (l1 g) \<union> set_option (l2 g). copy_at n c x = None) \<and> dram g x = host_value n h x)"
proof -
  have "\<forall>k \<in> set (system_caches h). get_cache k h \<noteq> None" by (auto simp: system_caches_def split: if_splits)
  then obtain g where g: "ask_host_to_flush s e h = Some g" and
    F: "flushed_to n (\<lambda>j x. j \<in> set (system_caches h) \<and> base_of n s \<le> base_of n x \<and> base_of n x \<le> unat e) h g"
    using flush_each_ok [OF assms(1) _ assms(2)] unfolding ask_host_to_flush_def by blast
  have sc: "system_caches g = system_caches h" using F by (simp add: flushed_to_def same_shape_def system_caches_def)
  have v: "host_value n g x = host_value n h x" for x using F by (simp add: flushed_to_def)
  have "\<forall>k \<in> set (system_caches g). nocopy n k g x" if "s \<le> x" "x \<le> e" for x
  proof -
    have "base_of n x \<le> unat e" using base_of_le [of n x] that(2) by (simp add: word_le_nat_alt)
    then show ?thesis using F base_of_mono [OF that(1), of n] by (simp add: flushed_to_def sc)
  qed
  then show ?thesis using g v F nocopy_value [of g n] by (auto simp: flushed_to_def)
qed

subsection \<open>A flush\<close>

text \<open>Two first-level caches, of which one holds a dirty block, and a second level with an older dirty copy of it.\<close>

definition ex_empty :: "repl \<Rightarrow> cache" where
  "ex_empty pol = the (BaseSetAssoc pol 8 4 1 (\<lambda>i j. [0, 0, 0, 0]))"

lemma ex_empty_eq: "BaseSetAssoc pol 8 4 1 (\<lambda>i j. [0, 0, 0, 0]) = Some (ex_empty pol)"
  "ex_empty pol = \<lparr>policy = pol, setShift = 2, tagShift = 3, setMask = 1, csets = (\<lambda>i. [\<lparr>tag = 0, status = 0, blk_data = [0, 0, 0, 0]\<rparr>])\<rparr>"
  using floorLog2_power [of 2] floorLog2_power [of 1] by (simp_all add: ex_empty_def BaseSetAssoc_def isPowerOf2_def)

definition ex_cache :: "repl \<Rightarrow> u32 \<Rightarrow> u8 list \<Rightarrow> cache" where
  "ex_cache pol st d = set_blks 0 [\<lparr>tag = 2, status = st, blk_data = d\<rparr>] (ex_empty pol)"

definition ex_host :: host where
  "ex_host = \<lparr>l2 = Some (ex_cache RandomRepl 0x0F [9, 9, 9, 9]), l1 = [ex_cache LRU 0x0F [1, 2, 3, 4], ex_empty LRU], dram = (\<lambda>x. 7)\<rparr>"

lemma empty_cache: "cache_ok 2 (ex_empty pol)" if "pol \<noteq> FALRU"
  using BaseSetAssoc_ok [of pol 8 2 1 "\<lambda>i j. [0, 0, 0, 0]" "ex_empty pol" 1] ex_empty_eq(1) that by simp

lemma empty_blk: "blk_at (ex_empty pol) x = None"
  by (simp add: blk_at_def ex_empty_eq(2) blk_in_def isValid_def)

lemma ex_cache_at:
  assumes "pol \<noteq> FALRU" "length d = 4"
  shows "cache_ok 2 (ex_cache pol 0x0F d)" "blk_at (ex_cache pol 0x0F d) x = (if same_blk 2 x 0x10 then Some \<lparr>tag = 2, status = 0x0F, blk_data = d\<rparr> else None)"
proof -
  let ?c = "ex_empty pol" and ?bs = "[\<lparr>tag = 2, status = 0x0F, blk_data = d\<rparr>]"
  have s: "extractSet ?c 0x10 = 0" "extractTag ?c 0x10 = 2" by (simp_all add: extractSet_def extractTag_def ex_empty_eq(2) drop_bit_eq_div)
  have o: "set_ok 2 ?bs" using assms(2) by (simp add: set_ok_def isSecure_def)
  have b: "blk_in t ?bs = (if t = extractTag ?c 0x10 then Some \<lparr>tag = 2, status = 0x0F, blk_data = d\<rparr> else blk_in t (csets ?c (extractSet ?c 0x10)))" for t
    unfolding s(2) by (simp add: blk_in_def isValid_def ex_empty_eq(2))
  note p = blk_at_put [OF empty_cache [OF assms(1)] o b]
  show "cache_ok 2 (ex_cache pol 0x0F d)" using p(1) by (simp add: ex_cache_def s)
  show "blk_at (ex_cache pol 0x0F d) x = (if same_blk 2 x 0x10 then Some \<lparr>tag = 2, status = 0x0F, blk_data = d\<rparr> else None)"
    using p(2) [of x] by (simp add: ex_cache_def s empty_blk)
qed

lemma ex_host_coherent: "coherent 2 ex_host"
  using ex_cache_at empty_cache by (auto simp: coherent_def caches_ok_def ex_host_def copies_at_def copy_at_def empty_blk isDirty_def)

lemma ex_host_value: "host_value 2 ex_host 0x11 = 2"
  by (simp add: host_value_def ex_host_def copies_at_def copy_at_def empty_blk ex_cache_at isDirty_def same_blk_def drop_bit_eq_div take_bit_eq_mod)

theorem cache_flush_coherent_witness:
  "\<exists>g. ask_host_to_flush 0x10 0x13 ex_host = Some g \<and> dram g 0x11 = 2 \<and> host_value 2 g 0x11 = 2"
proof -
  obtain g where g: "ask_host_to_flush 0x10 0x13 ex_host = Some g" "\<forall>x. host_value 2 g x = host_value 2 ex_host x"
    "\<forall>x. 0x10 \<le> x \<longrightarrow> x \<le> 0x13 \<longrightarrow> dram g x = host_value 2 ex_host x"
    using cache_flush_coherent [OF ex_host_coherent, of "0x13" "0x10"] by auto
  then have "dram g 0x11 = 2" "host_value 2 g 0x11 = 2" by (simp_all add: ex_host_value)
  then show ?thesis using g(1) by blast
qed

end
