(* ===== verification/PIM_Memory.thy ===== *)
theory PIM_Memory
  imports Cache_Flush PIM_DMA PIM_Handshake
begin

text \<open>
  The memory of the PIM device (\<open>mem/ethz_pim_memory.cc\<close>), which holds its registers: a write to a register also drives the processor, the TLB, the DMA engine, the coprocessor or the flush of the
  host caches. A device is the memory with all of these. Floating point operations are arguments on bit patterns (\<open>fpu\<close>); the memory that the TLB and the DMA read is the one
  behind the host caches. \<open>None\<close> is a panic, a failed assertion or the end of the simulation.
\<close>

unbundle bit_operations_syntax

record pm_params =
  PIM_ADDRESS_BASE :: u64
  PIM_DEBUG_ADDR :: u64
  PIM_ERROR_ADDR :: u64
  PIM_INTR_ADDR :: u64
  PIM_SLICETABLE_ADDR :: u64
  PIM_SLICECOUNT_ADDR :: u64
  PIM_SLICEVSTART_ADDR :: u64
  PIM_M5_ADDR :: u64
  PIM_M5_D1_ADDR :: u64
  PIM_M5_D2_ADDR :: u64
  PIM_VREG_ADDR :: u64
  PIM_VREG_SIZE :: u64
  PIM_SREG_ADDR :: u64
  PIM_DTLB_IDEAL_REFILL_ADDR :: u64
  PIM_DMA_MEM_ADDR_ADDR :: u64
  PIM_DMA_SPM_ADDR_ADDR :: u64
  PIM_DMA_NUMBYTES_ADDR :: u64
  PIM_DMA_COMMAND_ADDR :: u64
  PIM_DMA_CLI_ADDR :: u64
  PIM_DMA_STATUS_ADDR :: u64
  PIM_COPROCESSOR_CMD_ADDR :: u64
  HMC_ATOMIC_INCR_ADDR :: u64
  pim_arch :: nat

record fpu =
  f_of_int :: "u32 \<Rightarrow> u32"
  f_millions :: "u32 \<Rightarrow> u32"
  f_to_int :: "u32 \<Rightarrow> u32"
  f_div :: "u32 \<Rightarrow> u32 \<Rightarrow> u32"
  f_mul :: "u32 \<Rightarrow> u32 \<Rightarrow> u32"
  f_add :: "u32 \<Rightarrow> u32 \<Rightarrow> u32"
  f_sub :: "u32 \<Rightarrow> u32 \<Rightarrow> u32"
  f_neg :: "u32 \<Rightarrow> u32"
  f_less :: "u32 \<Rightarrow> u32 \<Rightarrow> bool"
  f_le :: "u32 \<Rightarrow> u32 \<Rightarrow> bool"
  f_one :: u32
  f_zero :: u32
  f_rank :: "u32 \<Rightarrow> u32"

record pim_dev =
  pm :: amem
  dtlb :: tlb
  engine :: dma
  dev_cpu :: cpu
  host_side :: host
  dma_num_bytes :: u64
  dma_mem_addr :: u64
  dma_spm_addr :: u64
  debug_out :: "u8 list"
  prev_time_stamp :: u64
  prev_time_stamp_id :: u8
  packet_log :: bool

definition read_mem_1word :: "pm_params \<Rightarrow> u64 \<Rightarrow> (u64 \<Rightarrow> u8) \<Rightarrow> u64" where
  "read_mem_1word P a f = (if pim_arch P = 32 then ucast (read32 f a) else read64 f a)"

definition write_mem_1byte :: "u64 \<Rightarrow> u8 \<Rightarrow> amem \<Rightarrow> amem" where
  "write_mem_1byte a v m = m\<lparr>pmem := (pmem m)(a := v)\<rparr>"

subsection \<open>The coprocessor\<close>

definition CMD_NOP :: u8 where "CMD_NOP = 0"
definition CMD_TO_FLOAT :: u8 where "CMD_TO_FLOAT = 1"
definition CMD_FDIV :: u8 where "CMD_FDIV = 2"
definition CMD_FMUL :: u8 where "CMD_FMUL = 3"
definition CMD_FCMP :: u8 where "CMD_FCMP = 4"
definition CMD_FACC :: u8 where "CMD_FACC = 5"
definition CMD_FSUB :: u8 where "CMD_FSUB = 6"
definition CMD_FABS :: u8 where "CMD_FABS = 7"
definition CMD_FPRINT :: u8 where "CMD_FPRINT = 8"
definition CMD_TO_FIXED :: u8 where "CMD_TO_FIXED = 9"
definition CMD_CUSTOM_PR1 :: u8 where "CMD_CUSTOM_PR1 = 10"

lemmas cmd_values = CMD_NOP_def CMD_TO_FLOAT_def CMD_FDIV_def CMD_FMUL_def CMD_FCMP_def CMD_FACC_def CMD_FSUB_def CMD_FABS_def CMD_FPRINT_def
  CMD_TO_FIXED_def CMD_CUSTOM_PR1_def

definition sreg_addr :: "pm_params \<Rightarrow> nat \<Rightarrow> u64" where
  "sreg_addr P i = PIM_SREG_ADDR P + of_nat (i * (pim_arch P div 8))"

text \<open>The nodes of the page rank, from the one at \<open>p\<close> on: 20 bytes each, the rank first and the next rank behind it.\<close>

fun pr_nodes :: "fpu \<Rightarrow> u32 \<Rightarrow> u64 \<Rightarrow> nat \<Rightarrow> u32 \<Rightarrow> (u64 \<Rightarrow> u8) \<Rightarrow> u32 \<times> (u64 \<Rightarrow> u8)" where
  "pr_nodes F nodes p 0 diff f = (diff, f)"
| "pr_nodes F nodes p (Suc k) diff f =
     (let d = f_sub F (read32 f (p + 4)) (read32 f p);
          d1 = (if f_less F d (f_zero F) then f_neg F d else d);
          f1 = write32 p (read32 f (p + 4)) f
      in pr_nodes F nodes (p + 20) k (f_add F diff d1) (write32 (p + 4) (f_rank F nodes) f1))"

definition run_coprocessor_32b :: "pm_params \<Rightarrow> fpu \<Rightarrow> u8 \<Rightarrow> (u64 \<Rightarrow> u8) \<Rightarrow> (u64 \<Rightarrow> u8) option" where
  "run_coprocessor_32b P F cmd f =
     (let s0 = read32 f (sreg_addr P 0); s1 = read32 f (sreg_addr P 1); s2 = read32 f (sreg_addr P 2)
      in if cmd = CMD_NOP then Some f
         else if cmd = CMD_TO_FLOAT then Some (write32 (sreg_addr P 1) (f_of_int F s0) f)
         else if cmd = CMD_TO_FIXED then Some (write32 (sreg_addr P 1) (f_to_int F (f_millions F s0)) f)
         else if cmd = CMD_FDIV then Some (write32 (sreg_addr P 2) (f_div F s0 s1) f)
         else if cmd = CMD_FMUL then Some (write32 (sreg_addr P 2) (f_mul F s0 s1) f)
         else if cmd = CMD_FCMP then Some (write32 (sreg_addr P 2) (if f_less F s1 s0 then f_one F else f_zero F) f)
         else if cmd = CMD_FSUB then Some (write32 (sreg_addr P 2) (f_sub F s0 s1) f)
         else if cmd = CMD_FACC then Some (write32 (sreg_addr P 1) (f_add F s0 s1) f)
         else if cmd = CMD_FABS then Some (write32 (sreg_addr P 1) (if f_le F (f_zero F) s0 then s0 else f_neg F s0) f)
         else if cmd = CMD_FPRINT then Some f
         else if cmd = CMD_CUSTOM_PR1 then
           (let a = ucast s0 + PIM_ADDRESS_BASE P
            in if a < PIM_VREG_ADDR P \<or> \<not> a < PIM_VREG_ADDR P + PIM_VREG_SIZE P then None
               else let (diff, f1) = pr_nodes F s2 a (unat s1) (f_zero F) f in Some (write32 (sreg_addr P 3) diff f1))
         else None)"

definition run_coprocessor_64b :: "u8 \<Rightarrow> (u64 \<Rightarrow> u8) \<Rightarrow> (u64 \<Rightarrow> u8) option" where
  "run_coprocessor_64b cmd f = (if cmd = CMD_NOP then Some f else None)"

subsection \<open>Registers\<close>

definition ask_host_to_flush_the_caches :: "pm_params \<Rightarrow> pim_dev \<Rightarrow> pim_dev option" where
  "ask_host_to_flush_the_caches P s =
     map_option (\<lambda>h. s\<lparr>host_side := h\<rparr>)
       (ask_host_to_flush (read_mem_1word P (PIM_M5_D1_ADDR P) (pmem (pm s))) (read_mem_1word P (PIM_M5_D2_ADDR P) (pmem (pm s))) (host_side s))"

definition table_mem :: "pim_dev \<Rightarrow> u64 \<Rightarrow> u32" where
  "table_mem s = read32 (dram (host_side s))"

text \<open>A write to the command register of the DMA; the engine writes its status register.\<close>

definition dma_command :: "pm_params \<Rightarrow> tlb_params \<Rightarrow> bool \<Rightarrow> u64 \<Rightarrow> u8 \<Rightarrow> pim_dev \<Rightarrow> pim_dev option" where
  "dma_command P TP timing now cmd s =
     (if cmd = 0 then Some s
      else if dma_num_bytes s = 0 \<or> dma_mem_addr s = 0 \<or> \<not> timing then None
      else let spm = dma_spm_addr s + PIM_ADDRESS_BASE P
           in if spm < PIM_VREG_ADDR P \<or> spm + dma_num_bytes s > PIM_VREG_ADDR P + PIM_VREG_SIZE P then None
              else do { (d, t) \<leftarrow> (if cmd AND 0x80 = 0 then initiate_read else initiate_write) timing TP now (table_mem s) spm (dma_mem_addr s) (dma_num_bytes s) (cmd AND 0x7F) (engine s, dtlb s);
                        Some (s\<lparr>dma_spm_addr := spm, engine := d, dtlb := t, pm := write_mem_1byte (PIM_DMA_STATUS_ADDR P) (dma_status d) (pm s)\<rparr>) })"

definition m5_command :: "pm_params \<Rightarrow> u64 \<Rightarrow> u8 \<Rightarrow> pim_dev \<Rightarrow> pim_dev option" where
  "m5_command P now c s =
     (if 0x30 \<le> c \<and> c \<le> 0x39 then Some (s\<lparr>prev_time_stamp := now, prev_time_stamp_id := c\<rparr>)
      else if c = 0x4C then Some (s\<lparr>packet_log := True\<rparr>)
      else if c = 0x44 then Some (s\<lparr>packet_log := False\<rparr>)
      else if c = 0x58 then None
      else if c = 0x46 then ask_host_to_flush_the_caches P s
      else if c = 0x49 then Some s
      else None)"

text \<open>The first chain of registers; \<open>b\<close> is the byte, \<open>w\<close> the word that is written.\<close>

definition write_register :: "pm_params \<Rightarrow> tlb_params \<Rightarrow> fpu \<Rightarrow> bool \<Rightarrow> u64 \<Rightarrow> mem_packet \<Rightarrow> pim_dev \<Rightarrow> pim_dev option" where
  "write_register P TP F timing now pkt s =
     (let a = mp_addr pkt; byte = (mp_size pkt = 1); wrd = (mp_size pkt = pim_arch P div 8);
          b = hd (mp_data pkt); w = word_of_bytes (mp_data pkt) :: u64
      in if a = PIM_DEBUG_ADDR P then (if byte then Some (if b = 0x0D then s else s\<lparr>debug_out := debug_out s @ [b]\<rparr>) else None)
         else if a = PIM_ERROR_ADDR P then (if byte \<and> b = PIM_ERROR_NONE then Some s else None)
         else if a = PIM_INTR_ADDR P then
           (if byte then Some (if b = 0 then s else s\<lparr>dev_cpu := clearInterrupt INT_IRQ (postInterrupt INT_IRQ (dev_cpu s))\<rparr>) else None)
         else if a = PIM_SLICETABLE_ADDR P then (if wrd then Some (s\<lparr>dtlb := (dtlb s)\<lparr>slicetable_ptr := w\<rparr>\<rparr>) else None)
         else if a = PIM_SLICECOUNT_ADDR P then (if wrd then Some (s\<lparr>dtlb := (dtlb s)\<lparr>slicecount := w\<rparr>\<rparr>) else None)
         else if a = PIM_SLICEVSTART_ADDR P then (if wrd then Some (s\<lparr>dtlb := (dtlb s)\<lparr>slicevstart := w\<rparr>\<rparr>) else None)
         else if a = PIM_DMA_NUMBYTES_ADDR P then (if wrd then Some (s\<lparr>dma_num_bytes := w\<rparr>) else None)
         else if a = PIM_DMA_MEM_ADDR_ADDR P then (if wrd then Some (s\<lparr>dma_mem_addr := w\<rparr>) else None)
         else if a = PIM_DMA_SPM_ADDR_ADDR P then (if wrd then Some (s\<lparr>dma_spm_addr := w\<rparr>) else None)
         else if a = PIM_COPROCESSOR_CMD_ADDR P then
           (if byte then map_option (\<lambda>f. s\<lparr>pm := (pm s)\<lparr>pmem := f\<rparr>\<rparr>)
                           (if pim_arch P = 32 then run_coprocessor_32b P F b (pmem (pm s)) else run_coprocessor_64b b (pmem (pm s)))
            else None)
         else if a = PIM_DMA_COMMAND_ADDR P then (if byte then dma_command P TP timing now b s else None)
         else if a = PIM_DMA_CLI_ADDR P then
           (if \<not> byte then None else if b = 0 then Some s
            else map_option (\<lambda>d. s\<lparr>engine := d, dev_cpu := clearInterrupt INT_IRQ (dev_cpu s)\<rparr>) (wait_on_resource b (engine s)))
         else if a = HMC_ATOMIC_INCR_ADDR P then (if wrd \<and> w = 0 then Some s else None)
         else Some s)"

text \<open>The second chain, which is tried after the first.\<close>

definition write_sim_register :: "pm_params \<Rightarrow> u64 \<Rightarrow> mem_packet \<Rightarrow> pim_dev \<Rightarrow> pim_dev option" where
  "write_sim_register P now pkt s =
     (if mp_addr pkt = PIM_DTLB_IDEAL_REFILL_ADDR P then None
      else if mp_addr pkt = PIM_M5_ADDR P then (if mp_size pkt = 1 then m5_command P now (hd (mp_data pkt)) s else None)
      else Some s)"

definition pim_recvAtomic :: "pm_params \<Rightarrow> tlb_params \<Rightarrow> fpu \<Rightarrow> bool \<Rightarrow> u64 \<Rightarrow> mem_packet \<Rightarrow> pim_dev \<Rightarrow> (mem_packet \<times> pim_dev) option" where
  "pim_recvAtomic P TP F timing now pkt s =
     do { s1 \<leftarrow> (if mp_cmd pkt \<in> {WriteReq, SwapReq}
                  then do { s1 \<leftarrow> write_register P TP F timing now pkt s; write_sim_register P now pkt s1 } else Some s);
          (r, m) \<leftarrow> access (f_add F) pkt (pm s1);
          Some (r, s1\<lparr>pm := m\<rparr>) }"

subsection \<open>The device\<close>

text \<open>What happens to a device: an access to its memory, an access through its TLB in one of the two modes, the answer to a refill, a step of the DMA engine, the end of one of its actions and a
  response to one of its transfers.\<close>

datatype dev_op = Mem_access mem_packet | Tlb_atomic packet | Tlb_timing bool packet | Tlb_resp u64 | Dma_tick | Dma_done | Dma_resp u64 u64

text \<open>The engine after a step that started without a posted interrupt; one that it posts reaches the processor.\<close>

definition post_dma :: "dma \<times> tlb \<Rightarrow> pim_dev \<Rightarrow> pim_dev" where
  "post_dma dt s = s\<lparr>engine := fst dt, dtlb := snd dt, dev_cpu := (if interrupt (fst dt) then postInterrupt INT_IRQ (dev_cpu s) else dev_cpu s)\<rparr>"

definition dev_step :: "pm_params \<Rightarrow> tlb_params \<Rightarrow> fpu \<Rightarrow> bool \<Rightarrow> u64 \<Rightarrow> dev_op \<Rightarrow> pim_dev \<Rightarrow> pim_dev option" where
  "dev_step P TP F timing now op s =
     (let e = (engine s)\<lparr>interrupt := False\<rparr>
      in case op of
           Mem_access pkt \<Rightarrow> map_option snd (pim_recvAtomic P TP F timing now pkt s)
         | Tlb_atomic pkt \<Rightarrow> map_option (\<lambda>(r, t). s\<lparr>dtlb := t\<rparr>) (recvAtomic TP now (table_mem s) pkt (dtlb s))
         | Tlb_timing ok pkt \<Rightarrow> map_option (\<lambda>(r, t). s\<lparr>dtlb := t\<rparr>) (recvTimingReq TP now (table_mem s) ok pkt (dtlb s))
         | Tlb_resp q \<Rightarrow> map_option (\<lambda>t. s\<lparr>dtlb := t\<rparr>) (recvTimingResp TP now (table_mem s) q (dtlb s))
         | Dma_tick \<Rightarrow> map_option (\<lambda>dt. post_dma dt s) (nextState timing TP now (table_mem s) (e, dtlb s))
         | Dma_done \<Rightarrow> Some (s\<lparr>engine := dmaDone (engine s)\<rparr>)
         | Dma_resp a n \<Rightarrow>
             map_option (\<lambda>d. (post_dma (d, dtlb s) s)\<lparr>pm := if length (requests d) < length (requests e) then write_mem_1byte (PIM_DMA_STATUS_ADDR P) (dma_status d) (pm s) else pm s\<rparr>)
               (handle_packet a n (suspended (dev_cpu s)) e))"

fun dev_run :: "pm_params \<Rightarrow> tlb_params \<Rightarrow> fpu \<Rightarrow> bool \<Rightarrow> (u64 \<times> dev_op) list \<Rightarrow> pim_dev \<Rightarrow> pim_dev option" where
  "dev_run P TP F timing [] s = Some s"
| "dev_run P TP F timing ((now, op) # ops) s = do { s1 \<leftarrow> dev_step P TP F timing now op s; dev_run P TP F timing ops s1 }"

subsection \<open>Well-formedness\<close>

definition tlb_wf :: "tlb \<Rightarrow> bool" where
  "tlb_wf t \<longleftrightarrow> length (remappedRanges t) = length (originalRanges t) \<and> length (lastUsed t) = length (originalRanges t)"

text \<open>A bit of the status register is set exactly when one pending request, and only one, holds the resource.\<close>

definition dma_wf :: "dma \<Rightarrow> bool" where
  "dma_wf d \<longleftrightarrow> (\<forall>r \<in> set (requests d). length (mem_pstart r) = length (mem_pend r)) \<and> dma_status d = dma_resources d \<and>
     (\<forall>b. length (filter (\<lambda>r. bit (dma_resource r) b) (requests d)) = of_bool (bit (dma_resources d) b)) \<and>
     (\<not> next_state_scheduled d \<longrightarrow> current_state d = DMA_STATE_IDLE)"

definition dev_wf :: "nat \<Rightarrow> pim_dev \<Rightarrow> bool" where
  "dev_wf n s \<longleftrightarrow> tlb_wf (dtlb s) \<and> dma_wf (engine s) \<and> locks_ok (pm s) \<and> coherent n (host_side s)"

lemma update_wf: "tlb_wf t \<Longrightarrow> updateTLB P now v p n t = Some t' \<Longrightarrow> tlb_wf t'"
  by (auto simp: updateTLB_def evict_lru_def tlb_wf_def erase_def Let_def bind_eq_Some_conv split: if_splits)

lemma refill_wf: "tlb_wf t \<Longrightarrow> refillTLB_atomic P now mem a t = Some t' \<Longrightarrow> tlb_wf t'"
  by (auto simp: refillTLB_atomic_def Let_def intro: update_wf split: if_splits)

lemma remap_wf: "tlb_wf t \<Longrightarrow> remap now a t = Some (x, t') \<Longrightarrow> tlb_wf t'"
  by (auto simp: remap_def tlb_wf_def Let_def split: option.splits if_splits)

lemma check_hmc_wf: "tlb_wf t \<Longrightarrow> check_hmc_command P pkt t = (x, c, t') \<Longrightarrow> tlb_wf t'"
  by (auto simp: check_hmc_command_def tlb_wf_def Let_def split: if_splits)

lemma request_wf: "tlb_wf t \<Longrightarrow> refill_request P now mem pkt t = Some (r, t') \<Longrightarrow> tlb_wf t'"
  by (auto simp: refill_request_def Let_def refill_functional_atomic bind_eq_Some_conv intro: refill_wf split: if_splits)

lemma refill_timing_wf: "tlb_wf t \<Longrightarrow> refillTLB_timing P ok a t = Some (r, t') \<Longrightarrow> tlb_wf t'"
  by (auto simp: refillTLB_timing_def tlb_wf_def split: if_splits)

lemma recvAtomic_wf:
  assumes w: "tlb_wf t" and r: "recvAtomic P now mem pkt t = Some (r, t')"
  shows "tlb_wf t'"
proof (cases "PIM_DTLB_IDEAL_REFILL_REG P \<noteq> 0 \<and> pkt_addr pkt = PIM_DTLB_IDEAL_REFILL_REG P")
  case True
  then show ?thesis using r request_wf [OF w] by (simp add: recvAtomic_def)
next
  case False
  obtain tg cmd t0 where c: "check_hmc_command P pkt t = (tg, cmd, t0)" by (metis prod_cases3)
  note w0 = check_hmc_wf [OF w c]
  from r False c obtain x t1 where x: "remap now (if tg = 0 then pkt_addr pkt else tg) t0 = Some (x, t1)"
    and y: "x = - 1 \<Longrightarrow> \<exists>t2 z. refillTLB_atomic P now mem (pkt_addr pkt) t1 = Some t2 \<and> remap now (pkt_addr pkt) t2 = Some (z, t')" "x \<noteq> - 1 \<Longrightarrow> t' = t1"
    by (auto simp: recvAtomic_def bind_eq_Some_conv split: if_splits)
  note w1 = remap_wf [OF w0 x]
  show ?thesis
  proof (cases "x = - 1")
    case True
    then obtain t2 z where "refillTLB_atomic P now mem (pkt_addr pkt) t1 = Some t2" "remap now (pkt_addr pkt) t2 = Some (z, t')" using y(1) by blast
    then show ?thesis using refill_wf [OF w1] remap_wf by metis
  qed (use y(2) w1 in simp)
qed

lemma recvTimingReq_wf:
  assumes w: "tlb_wf t" and r: "recvTimingReq P now mem ok pkt t = Some (r, t')"
  shows "tlb_wf t'"
proof (cases "PIM_DTLB_IDEAL_REFILL_REG P \<noteq> 0 \<and> pkt_addr pkt = PIM_DTLB_IDEAL_REFILL_REG P")
  case True
  then show ?thesis using r request_wf [OF w] by (simp add: recvTimingReq_def)
next
  case False
  show ?thesis
  proof (cases "is_remapped pkt")
    case True
    then show ?thesis using r False w by (auto simp: recvTimingReq_def)
  next
    case nr: False
    obtain tg cmd t0 where c: "check_hmc_command P pkt t = (tg, cmd, t0)" by (metis prod_cases3)
    note w0 = check_hmc_wf [OF w c]
    let ?a = "if tg = 0 then pkt_addr pkt else tg"
    from r False nr c obtain x t1 where x: "remap now ?a t0 = Some (x, t1)"
      and y: "x = - 1 \<Longrightarrow> IDEAL_REFILL P \<Longrightarrow> \<exists>t2 z. refillTLB_functional P now mem ?a t1 = Some t2 \<and> remap now ?a t2 = Some (z, t')"
        "x = - 1 \<Longrightarrow> \<not> IDEAL_REFILL P \<Longrightarrow> \<exists>z. refillTLB_timing P ok ?a t1 = Some (z, t')" "x \<noteq> - 1 \<Longrightarrow> t' = t1"
      by (auto simp: recvTimingReq_def Let_def bind_eq_Some_conv split: if_splits)
    note w1 = remap_wf [OF w0 x]
    show ?thesis
    proof (cases "x = - 1 \<and> IDEAL_REFILL P")
      case True
      then obtain t2 z where "refillTLB_functional P now mem ?a t1 = Some t2" "remap now ?a t2 = Some (z, t')" using y(1) by blast
      then show ?thesis using refill_wf [OF w1] remap_wf unfolding refill_functional_atomic by metis
    next
      case False
      then show ?thesis using y(2,3) w1 refill_timing_wf [OF w1] by blast
    qed
  qed
qed

lemma recvTimingResp_wf: "tlb_wf t \<Longrightarrow> recvTimingResp P now mem q t = Some t' \<Longrightarrow> tlb_wf t'"
proof -
  assume w: "tlb_wf t" and "recvTimingResp P now mem q t = Some t'"
  then obtain t1 where t1: "remove_pending_refill q t = Some t1" "updateTLB P now (ucast (mem q)) (ucast (mem (q + 4))) (ucast (mem (q + 8))) t1 = Some t'"
    by (auto simp: recvTimingResp_def bind_eq_Some_conv)
  then have "tlb_wf t1" using w by (auto simp: remove_pending_refill_def tlb_wf_def split: if_splits)
  then show "tlb_wf t'" using t1(2) by (rule update_wf)
qed

subsection \<open>The engine\<close>

definition holders :: "dma_request list \<Rightarrow> nat \<Rightarrow> nat" where
  "holders rs b = length (filter (\<lambda>r. bit (dma_resource r) b) rs)"

lemma holders_update: "i < length rs \<Longrightarrow> dma_resource r = dma_resource (rs ! i) \<Longrightarrow> holders (rs[i := r]) b = holders rs b"
  unfolding holders_def by (induction rs arbitrary: i) (auto split: nat.splits)

lemma holders_erase: "i < length rs \<Longrightarrow> holders rs b = holders (erase i rs) b + of_bool (bit (dma_resource (rs ! i)) b)"
  unfolding holders_def by (subst id_take_nth_drop [of i rs]) (simp_all add: erase_def)

lemma dma_wf_holders: "dma_wf d \<longleftrightarrow> (\<forall>r \<in> set (requests d). length (mem_pstart r) = length (mem_pend r)) \<and> dma_status d = dma_resources d \<and>
     (\<forall>b. holders (requests d) b = of_bool (bit (dma_resources d) b)) \<and> (\<not> next_state_scheduled d \<longrightarrow> current_state d = DMA_STATE_IDLE)"
  by (simp add: dma_wf_def holders_def)

text \<open>A step that keeps the requests apart from one, of which it keeps the resource and the matching lists of addresses.\<close>

lemma set_request_wf:
  assumes "dma_wf d" and "i < length (requests d)" and "length (mem_pstart r) = length (mem_pend r)" and "dma_resource r = dma_resource (requests d ! i)"
  shows "dma_wf (set_request i r d)"
  using assms set_update_subset_insert [of "requests d" i r] by (auto simp: dma_wf_holders set_request_def holders_update)

lemma wf_cong: "dma_wf d \<Longrightarrow> requests d' = requests d \<Longrightarrow> dma_status d' = dma_status d \<Longrightarrow> dma_resources d' = dma_resources d \<Longrightarrow>
    (\<not> next_state_scheduled d' \<longrightarrow> current_state d' = DMA_STATE_IDLE) \<Longrightarrow> dma_wf d'"
  by (simp add: dma_wf_holders)

lemma nextSubRequest_wf: "nextSubRequest a r = Some (x, r') \<Longrightarrow> mem_pstart r' = mem_pstart r \<and> mem_pend r' = mem_pend r \<and> dma_resource r' = dma_resource r"
  by (auto simp: nextSubRequest_def Let_def split: if_splits)

lemma nextState_wf:
  assumes w: "dma_wf d" "tlb_wf t" and r: "nextState timing P now mem (d, t) = Some (d', t')"
  shows "dma_wf d'" "tlb_wf t'"
proof -
  define act where "act \<longleftrightarrow> requests d \<noteq> []"
  define d0 where "d0 = (if act then d else d\<lparr>current_state := DMA_STATE_IDLE, current_index := None\<rparr>)"
  have w0: "dma_wf d0" using w(1) by (auto simp: d0_def dma_wf_holders)
  have rq: "requests d0 = requests d" by (simp add: d0_def)
  define q where "q = (case current_state d0 of
             DMA_STATE_IDLE \<Rightarrow> Some (idle_step d0, t)
           | DMA_STATE_TLBREFILL \<Rightarrow>
               (case current_index d0 of Some i \<Rightarrow> if i < length (requests d0) then refill_step timing P now mem i d0 t else None | None \<Rightarrow> None)
           | DMA_STATE_TRANSFER \<Rightarrow>
               (case current_index d0 of Some i \<Rightarrow> if i < length (requests d0) then do { d1 \<leftarrow> transfer_step i d0 t; Some (d1, t) } else None | None \<Rightarrow> None))"
  have "do { (d1, t1) \<leftarrow> q; Some (if act then d1\<lparr>next_state_scheduled := True\<rparr> else d1\<lparr>next_state_scheduled := False, interrupt := True\<rparr>, t1) } = Some (d', t')"
    using r unfolding nextState_def Let_def q_def act_def d0_def by simp
  then obtain d1 t1 where c: "q = Some (d1, t1)" and
    e: "t' = t1" "d' = (if act then d1\<lparr>next_state_scheduled := True\<rparr> else d1\<lparr>next_state_scheduled := False, interrupt := True\<rparr>)"
    by (auto simp: bind_eq_Some_conv)
  have wt: "dma_wf (d0\<lparr>next_state_scheduled := True\<rparr>)" using w0 by (simp add: dma_wf_holders)
  have "dma_wf (d1\<lparr>next_state_scheduled := True\<rparr>) \<and> tlb_wf t1 \<and> (\<not> act \<longrightarrow> current_state d1 = DMA_STATE_IDLE)"
  proof (cases "current_state d0")
    case DMA_STATE_IDLE
    then have "d1 = idle_step d0" "t1 = t" using c by (auto simp: q_def)
    moreover have "current_state d1 = DMA_STATE_IDLE" if "\<not> act" using that DMA_STATE_IDLE c rq by (auto simp: q_def idle_step_def act_def)
    ultimately show ?thesis using wt w(2) by (auto simp: idle_step_def dma_wf_holders split: option.splits)
  next
    case DMA_STATE_TLBREFILL
    then have act: act by (auto simp: d0_def split: if_splits)
    from DMA_STATE_TLBREFILL c obtain i where i: "i < length (requests d0)" and s: "refill_step timing P now mem i d0 t = Some (d1, t1)"
      by (auto simp: q_def split: option.splits if_splits)
    let ?r = "(requests d0 ! i)\<lparr>issued := True\<rparr>"
    have "dma_wf (set_request i ?r d0)" using w0 i by (intro set_request_wf) (auto simp: dma_wf_holders)
    moreover have "(\<exists>st. d1 = (set_request i ?r d0)\<lparr>current_state := st\<rparr>) \<and> (t1 = t \<or> refillTLB_atomic P now mem (mem_vstart ?r) t = Some t1)"
      using s by (auto simp: refill_step_def Let_def refill_functional_atomic bind_eq_Some_conv split: if_splits)
    ultimately show ?thesis using w(2) refill_wf [OF w(2)] act by (auto simp: dma_wf_holders)
  next
    case DMA_STATE_TRANSFER
    then have act: act by (auto simp: d0_def split: if_splits)
    have "(case current_index d0 of Some i \<Rightarrow> if i < length (requests d0) then do { d1 \<leftarrow> transfer_step i d0 t; Some (d1, t) } else None | None \<Rightarrow> None) = Some (d1, t1)"
      using c unfolding q_def DMA_STATE_TRANSFER dma_state.case .
    then obtain i where i: "i < length (requests d0)" and "do { d1 \<leftarrow> transfer_step i d0 t; Some (d1, t) } = Some (d1, t1)"
      by (cases "current_index d0") (simp_all split: if_splits)
    then have s: "transfer_step i d0 t = Some d1" "t1 = t" by (cases "transfer_step i d0 t"; simp)+
    from s(1) obtain r2 a x y z st acts where r2: "nextSubRequest a ((requests d0 ! i)\<lparr>mem_pstart := mem_pstart (requests d0 ! i) @ [x], mem_pend := mem_pend (requests d0 ! i) @ [y]\<rparr>) = Some (z, r2)"
      and d1: "d1 = (set_request i r2 d0)\<lparr>free_events := free_events d0 - 1, actions := acts, current_state := st\<rparr>"
      by (auto simp: transfer_step_def Let_def bind_eq_Some_conv split: if_splits)
    have "length (mem_pstart r2) = length (mem_pend r2)" "dma_resource r2 = dma_resource (requests d0 ! i)"
      using nextSubRequest_wf [OF r2] w0 i by (auto simp: dma_wf_holders)
    then have "dma_wf (set_request i r2 d0)" using w0 i by (intro set_request_wf)
    then have "dma_wf (((set_request i r2 d0)\<lparr>free_events := free_events d0 - 1, actions := acts, current_state := st\<rparr>)\<lparr>next_state_scheduled := True\<rparr>)"
      by (simp add: dma_wf_holders)
    then show ?thesis using w(2) s(2) act d1 by metis
  qed
  then show "dma_wf d'" "tlb_wf t'" using e by (auto simp: dma_wf_holders)
qed

lemma new_request_wf:
  assumes w: "dma_wf d" and r: "dma_resources d AND res = 0"
  shows "dma_wf ((update_status_register (d\<lparr>dma_resources := dma_resources d OR res\<rparr>))\<lparr>requests := DMARequest vreg v n rw res # requests d\<rparr>)"
proof -
  have "\<not> (bit (dma_resources d) b \<and> bit res b)" for b using r by (metis bit_and_iff bit_0_eq bot_apply bot_bool_def)
  then show ?thesis using w by (auto simp: dma_wf_holders update_status_register_def DMARequest_def holders_def bit_or_iff)
qed

lemma initiate_wf:
  assumes w: "dma_wf d" "tlb_wf t" and r: "(if rd then initiate_read else initiate_write) timing P now mem vreg v n res (d, t) = Some (d', t')"
  shows "dma_wf d'" "tlb_wf t'"
proof -
  let ?d = "(update_status_register (d\<lparr>dma_resources := dma_resources d OR res\<rparr>))\<lparr>requests := DMARequest vreg v n rd res # requests d\<rparr>"
  have rq: "requests (update_status_register (d\<lparr>dma_resources := dma_resources d OR res\<rparr>)) = requests d" by (simp add: update_status_register_def)
  have ok: "dma_resources d AND res = 0" using r by (auto simp: initiate_read_def initiate_write_def split: if_splits)
  note w1 = new_request_wf [OF w(1) ok, of vreg v n rd]
  have e: "(if next_state_scheduled ?d then Some (?d, t) else nextState timing P now mem (?d\<lparr>next_state_scheduled := True\<rparr>, t)) = Some (d', t')"
    using r by (auto simp: initiate_read_def initiate_write_def Let_def rq split: if_splits)
  have "dma_wf (?d\<lparr>next_state_scheduled := True\<rparr>)" using w1 by (simp add: dma_wf_holders)
  then show "dma_wf d'" "tlb_wf t'" using e w1 w(2) nextState_wf [of "?d\<lparr>next_state_scheduled := True\<rparr>" t] by (auto split: if_splits)
qed

lemma handle_wf:
  assumes w: "dma_wf d" and r: "handle_packet a n susp d = Some d'"
  shows "dma_wf d'"
proof -
  obtain i where f: "find (\<lambda>i. matches a (requests d ! i) = 1) [0..<length (requests d)] = Some i"
    using r by (cases "find (\<lambda>i. matches a (requests d ! i) = 1) [0..<length (requests d)]") (simp_all add: handle_packet_def split: if_splits)
  then have "i < length (requests d)" by (auto simp: find_Some_iff)
  note i = f this
  let ?q = "requests d ! i" let ?r = "?q\<lparr>bytes_completed := bytes_completed ?q + n\<rparr>"
  have keep: "dma_wf (set_request i ?r d)" using w i(2) by (intro set_request_wf) (auto simp: dma_wf_def)
  have "d' = set_request i ?r d \<or> requests d' = erase i (requests d) \<and> dma_resources d' = dma_resources d AND NOT (dma_resource ?q) \<and> dma_status d' = dma_resources d' \<and>
      next_state_scheduled d' = next_state_scheduled d \<and> current_state d' = current_state d"
    using r i by (auto simp: handle_packet_def Let_def update_status_register_def split: if_splits)
  then show ?thesis
  proof
    assume e: "requests d' = erase i (requests d) \<and> dma_resources d' = dma_resources d AND NOT (dma_resource ?q) \<and> dma_status d' = dma_resources d' \<and>
      next_state_scheduled d' = next_state_scheduled d \<and> current_state d' = current_state d"
    have "set (erase i (requests d)) \<subseteq> set (requests d)" by (auto simp: erase_def dest: in_set_takeD in_set_dropD)
    moreover have "holders (erase i (requests d)) b = of_bool (bit (dma_resources d AND NOT (dma_resource ?q)) b)" for b
    proof -
      have h: "holders (requests d) b = of_bool (bit (dma_resources d) b)" using w by (simp add: dma_wf_holders)
      show ?thesis
      proof (cases "bit (dma_resource ?q) b")
        case True
        have "of_bool (bit (dma_resources d) b) \<le> (1 :: nat)" by simp
        then show ?thesis using h holders_erase [OF i(2), of b] True by (simp add: bit_and_iff bit_not_iff)
      next
        case False
        have "b < 8" if "bit (dma_resources d) b" using bit_imp_le_length [OF that] by simp
        then show ?thesis using h holders_erase [OF i(2), of b] False by (auto simp: bit_and_iff bit_not_iff)
      qed
    qed
    ultimately show ?thesis using w e by (auto simp: dma_wf_holders)
  qed (use keep in simp)
qed

lemma arch32_flush:
  assumes "coherent n h" and "pim_arch P = 32" and "ask_host_to_flush a (read_mem_1word P b f) h = Some g"
  shows "coherent n g"
proof -
  have "unat (read_mem_1word P b f) < 2 ^ 32"
    using assms(2) unsigned_less [of "read32 f b", where ?'a = nat] by (simp add: read_mem_1word_def unat_ucast_64)
  moreover have "n < 64" using assms(1) by (simp add: coherent_def caches_ok_def)
  then have "(2 :: nat) ^ n \<le> 2 ^ 63" by (intro power_increasing) simp_all
  ultimately have "unat (read_mem_1word P b f) + 2 ^ n < 2 ^ 64" by simp
  moreover have "\<forall>k \<in> set (system_caches h). get_cache k h \<noteq> None" by (auto simp: system_caches_def split: if_splits)
  ultimately show ?thesis using flush_each_ok [OF assms(1), of "system_caches h" "read_mem_1word P b f" a] assms(3)
    by (auto simp: ask_host_to_flush_def flushed_to_def)
qed

subsection \<open>Every operation keeps the device well-formed\<close>

lemma byte_wf [simp]: "locks_ok (write_mem_1byte a v m) = locks_ok m" "locks_ok (m\<lparr>pmem := f\<rparr>) = locks_ok m"
  by (simp_all add: locks_ok_def write_mem_1byte_def)

lemma interrupt_wf [simp]: "dma_wf (d\<lparr>interrupt := b\<rparr>) = dma_wf d"
  by (simp add: dma_wf_def)

lemma dma_command_wf: "dev_wf n s \<Longrightarrow> dma_command P TP timing now cmd s = Some s' \<Longrightarrow> dev_wf n s'"
proof -
  assume w: "dev_wf n s" and r: "dma_command P TP timing now cmd s = Some s'"
  have "s' = s \<or> (\<exists>d t spm. (if cmd AND 0x80 = 0 then initiate_read else initiate_write) timing TP now (table_mem s) spm (dma_mem_addr s) (dma_num_bytes s) (cmd AND 0x7F) (engine s, dtlb s) = Some (d, t) \<and>
      s' = s\<lparr>dma_spm_addr := spm, engine := d, dtlb := t, pm := write_mem_1byte (PIM_DMA_STATUS_ADDR P) (dma_status d) (pm s)\<rparr>)"
    using r by (auto simp: dma_command_def Let_def bind_eq_Some_conv split: if_splits)
  then show ?thesis using w initiate_wf [of "engine s" "dtlb s" "cmd AND 0x80 = 0"] by (auto simp: dev_wf_def)
qed

lemma m5_command_wf: "dev_wf n s \<Longrightarrow> pim_arch P = 32 \<Longrightarrow> m5_command P now c s = Some s' \<Longrightarrow> dev_wf n s'"
  by (auto simp: m5_command_def dev_wf_def ask_host_to_flush_the_caches_def intro: arch32_flush split: if_splits)

text \<open>A write to a register either starts the DMA or only touches parts that the invariant does not restrict.\<close>

lemma write_register_parts:
  assumes "write_register P TP F timing now pkt s = Some s'"
  shows "dma_command P TP timing now (hd (mp_data pkt)) s = Some s' \<or>
    host_side s' = host_side s \<and> (\<exists>f. pm s' = (pm s)\<lparr>pmem := f\<rparr>) \<and> (\<exists>b. engine s' = (engine s)\<lparr>interrupt := b\<rparr>) \<and>
    (\<exists>x y z. dtlb s' = (dtlb s)\<lparr>slicetable_ptr := x, slicecount := y, slicevstart := z\<rparr>)"
proof -
  have u: "dtlb s = (dtlb s)\<lparr>slicetable_ptr := slicetable_ptr (dtlb s), slicecount := slicecount (dtlb s), slicevstart := slicevstart (dtlb s)\<rparr>"
    "(dtlb s)\<lparr>slicetable_ptr := w\<rparr> = (dtlb s)\<lparr>slicetable_ptr := w, slicecount := slicecount (dtlb s), slicevstart := slicevstart (dtlb s)\<rparr>"
    "(dtlb s)\<lparr>slicecount := w\<rparr> = (dtlb s)\<lparr>slicetable_ptr := slicetable_ptr (dtlb s), slicecount := w, slicevstart := slicevstart (dtlb s)\<rparr>"
    "(dtlb s)\<lparr>slicevstart := w\<rparr> = (dtlb s)\<lparr>slicetable_ptr := slicetable_ptr (dtlb s), slicecount := slicecount (dtlb s), slicevstart := w\<rparr>"
    "pm s = (pm s)\<lparr>pmem := pmem (pm s)\<rparr>" "engine s = (engine s)\<lparr>interrupt := interrupt (engine s)\<rparr>" for w by simp_all
  show ?thesis using assms unfolding write_register_def Let_def
    by (auto simp: wait_on_resource_def split: if_splits) (use u in metis)+
qed

lemma write_register_wf: "dev_wf n s \<Longrightarrow> write_register P TP F timing now pkt s = Some s' \<Longrightarrow> dev_wf n s'"
  using write_register_parts [of P TP F timing now pkt s s'] dma_command_wf [of n s P TP timing now "hd (mp_data pkt)" s']
  by (auto simp: dev_wf_def tlb_wf_def)

lemma pim_recvAtomic_wf:
  assumes w: "dev_wf n s" and a: "pim_arch P = 32" and r: "pim_recvAtomic P TP F timing now pkt s = Some (q, s')"
  shows "dev_wf n s'"
proof -
  obtain s1 m where s1: "(if mp_cmd pkt \<in> {WriteReq, SwapReq} then do { s1 \<leftarrow> write_register P TP F timing now pkt s; write_sim_register P now pkt s1 } else Some s) = Some s1"
    and m: "access (f_add F) pkt (pm s1) = Some (q, m)" "s' = s1\<lparr>pm := m\<rparr>"
    using r by (auto simp: pim_recvAtomic_def bind_eq_Some_conv)
  have "dev_wf n s1"
  proof (cases "mp_cmd pkt \<in> {WriteReq, SwapReq}")
    case True
    then obtain s0 where s0: "write_register P TP F timing now pkt s = Some s0" "write_sim_register P now pkt s0 = Some s1"
      using s1 by (auto simp: bind_eq_Some_conv)
    note w0 = write_register_wf [OF w s0(1)]
    show ?thesis using s0(2) w0 m5_command_wf [OF w0 a] by (auto simp: write_sim_register_def split: if_splits)
  qed (use s1 w in auto)
  then show ?thesis using m access_locks_ok by (auto simp: dev_wf_def)
qed

lemma dev_step_wf:
  assumes w: "dev_wf n s" and a: "pim_arch P = 32" and r: "dev_step P TP F timing now op s = Some s'"
  shows "dev_wf n s'"
proof -
  have d: "dma_wf ((engine s)\<lparr>interrupt := False\<rparr>)" "tlb_wf (dtlb s)" using w by (simp_all add: dev_wf_def)
  show ?thesis
  proof (cases op)
    case (Mem_access pkt)
    then show ?thesis using r pim_recvAtomic_wf [OF w a] by (auto simp: dev_step_def)
  next
    case (Tlb_atomic pkt)
    then show ?thesis using r w recvAtomic_wf [OF d(2)] by (auto simp: dev_step_def dev_wf_def)
  next
    case (Tlb_timing ok pkt)
    then show ?thesis using r w recvTimingReq_wf [OF d(2)] by (auto simp: dev_step_def dev_wf_def)
  next
    case (Tlb_resp q)
    then show ?thesis using r w recvTimingResp_wf [OF d(2)] by (auto simp: dev_step_def dev_wf_def)
  next
    case Dma_tick
    then show ?thesis using r w nextState_wf [OF d] by (auto simp: dev_step_def dev_wf_def post_dma_def Let_def)
  next
    case Dma_done
    then show ?thesis using r w by (auto simp: dev_step_def dev_wf_def dmaDone_def dma_wf_holders)
  next
    case (Dma_resp x k)
    then show ?thesis using r w handle_wf [OF d(1)] by (auto simp: dev_step_def dev_wf_def post_dma_def Let_def)
  qed
qed


text \<open>A request that is put in front is the next one to be served.\<close>

lemma nextState_new:
  assumes "current_state d = DMA_STATE_IDLE" and "requests d = r # rs" and "\<not> issued r"
  shows "nextState timing P now mem (d, t) = Some (d\<lparr>current_index := Some 0, current_state := DMA_STATE_TLBREFILL, next_state_scheduled := True\<rparr>, t)"
  using assms by (simp add: nextState_def idle_step_def)

lemma initiate_new:
  assumes w: "dma_wf d" and r: "res \<noteq> 0" "dma_resources d AND res = 0"
  shows "\<exists>d'. (if rd then initiate_read else initiate_write) timing P now mem vreg v n res (d, t) = Some (d', t) \<and>
    requests d' = DMARequest vreg v n rd res # requests d \<and> dma_resources d' = dma_resources d OR res \<and> dma_status d' = dma_resources d OR res \<and> next_state_scheduled d'"
proof -
  have i: "\<not> issued (DMARequest vreg v n rd res)" by (simp add: DMARequest_def)
  show ?thesis
  proof (cases "next_state_scheduled d")
    case True
    then show ?thesis using r by (auto simp: initiate_read_def initiate_write_def Let_def update_status_register_def)
  next
    case False
    then have "current_state d = DMA_STATE_IDLE" using w by (simp add: dma_wf_def)
    then show ?thesis using r False i by (auto simp: initiate_read_def initiate_write_def Let_def update_status_register_def nextState_new)
  qed
qed


subsection \<open>Register writes\<close>

lemma bit_word_of_bytes: "bit (word_of_bytes bs :: 'a :: len word) i \<longleftrightarrow> i < LENGTH('a) \<and> i div 8 < length bs \<and> bit (bs ! (i div 8)) (i mod 8)"
proof (induction bs arbitrary: i)
  case (Cons b bs)
  show ?case
  proof (cases "i < 8")
    case True
    then show ?thesis by (auto simp: bit_simps dest: bit_imp_le_length)
  next
    case False
    then have "i div 8 = Suc ((i - 8) div 8)" "i mod 8 = (i - 8) mod 8" by (simp_all add: div_if mod_if)
    then show ?thesis using False Cons.IH [of "i - 8"] bit_imp_le_length [of b i] by (auto simp: bit_simps)
  qed
qed simp

lemma bytes_of_nth: "k < n \<Longrightarrow> bytes_of n w ! k = ucast (drop_bit (8 * k) w)"
proof (induction n arbitrary: k w)
  case (Suc n)
  then show ?case by (cases k) (simp_all add: drop_bit_drop_bit add.commute)
qed simp

lemma word_of_bytes_of: "word_of_bytes (bytes_of 4 (v :: u32)) = (ucast v :: u64)" "word_of_bytes (bytes_of 4 (v :: u32)) = v"
proof -
  have "i < 32 \<longleftrightarrow> i div 8 < 4" for i :: nat by presburger
  moreover have "bit (bytes_of 4 v ! (i div 8)) (i mod 8) \<longleftrightarrow> bit v i" if "i div 8 < 4" for i
    using bytes_of_nth [OF that, of v] by (simp add: bit_simps)
  ultimately have b: "i < 64 \<and> i div 8 < 4 \<and> bit (bytes_of 4 v ! (i div 8)) (i mod 8) \<longleftrightarrow> bit v i" "i < 32 \<and> i div 8 < 4 \<and> bit (bytes_of 4 v ! (i div 8)) (i mod 8) \<longleftrightarrow> bit v i" for i
    using bit_imp_le_length [of v i] by auto
  show "word_of_bytes (bytes_of 4 v) = (ucast v :: u64)"
  proof (rule bit_word_eqI)
    fix i assume "i < LENGTH(64)"
    then show "bit (word_of_bytes (bytes_of 4 v) :: u64) i \<longleftrightarrow> bit (ucast v :: u64) i" using b(1) [of i] by (simp add: bit_word_of_bytes length_bytes_of bit_ucast_iff)
  qed
  show "word_of_bytes (bytes_of 4 v) = v"
  proof (rule bit_word_eqI)
    fix i assume "i < LENGTH(32)"
    then show "bit (word_of_bytes (bytes_of 4 v) :: u32) i \<longleftrightarrow> bit v i" using b(2) [of i] by (simp add: bit_word_of_bytes length_bytes_of)
  qed
qed

lemma read32_write32: "read32 (write_bytes a (bytes_of 4 v) f) a = v"
proof -
  have "unat (of_nat i :: u64) = i" if "i < 4" for i using that by (intro unat_of_nat_u64) simp
  then have "read_bytes (write_bytes a (bytes_of 4 v) f) a 4 = bytes_of 4 v"
    by (intro nth_equalityI) (simp_all add: read_bytes_def write_bytes_at length_bytes_of)
  then show ?thesis by (simp add: read32_def word_of_bytes_of)
qed

text \<open>Two words apart from each other.\<close>

definition apart :: "u64 \<Rightarrow> u64 \<Rightarrow> bool" where
  "apart a b \<longleftrightarrow> 4 \<le> unat (a - b) \<and> 4 \<le> unat (b - a) \<and> unat a + 4 < 2 ^ 64 \<and> unat b + 4 < 2 ^ 64"

lemma read32_other:
  assumes "apart a b" and "length ds \<le> 4"
  shows "read32 (write_bytes a ds f) b = read32 f b"
proof -
  have "length ds \<le> unat (b + of_nat i - a)" if i: "i < 4" for i
  proof -
    have u: "unat (b + of_nat i) = unat b + i" using unat_add_u64 [of b "of_nat i"] i assms(1) by (simp add: apart_def unat_of_nat_u64)
    show ?thesis
    proof (cases "a \<le> b")
      case True
      then have le: "a \<le> b + of_nat i" using u by (simp add: word_le_nat_alt)
      have "unat (b - a) = unat b - unat a" using True by (simp add: unat_sub)
      moreover have "unat (b + of_nat i - a) = unat b + i - unat a" using le u by (simp add: unat_sub)
      ultimately show ?thesis using assms unfolding apart_def by linarith
    next
      case False
      then have lt: "unat b < unat a" by (simp add: word_le_nat_alt)
      have "unat (a - b) = unat a - unat b" using False by (simp add: unat_sub)
      then have d: "unat b + 4 \<le> unat a" using assms(1) lt unfolding apart_def by linarith
      define m where "m = unat a - (unat b + i)"
      have m: "0 < m" "m < 2 ^ 64" "unat a + 4 < 2 ^ 64" using d i assms(1) unfolding m_def apart_def by linarith+
      have e: "b + of_nat i - a = of_nat (2 ^ 64 - m)"
      proof -
        have "(of_nat (unat a) :: u64) = of_nat (unat b + i + m)" using d i by (simp add: m_def)
        then have "a = b + of_nat i + of_nat m" by simp
        moreover have "(of_nat (2 ^ 64 - m) :: u64) = - of_nat m" using m(2) by (simp add: of_nat_diff)
        ultimately show ?thesis by simp
      qed
      have "2 ^ 64 - m < 2 ^ 64" using m(1) by simp
      then have "unat (b + of_nat i - a) = 2 ^ 64 - m" unfolding e by (rule unat_of_nat_u64)
      moreover have "m + 4 \<le> 2 ^ 64" using m(3) unfolding m_def by linarith
      ultimately show ?thesis using assms(2) by linarith
    qed
  qed
  moreover have "length ds \<le> 2 ^ 64" using assms(2) by simp
  ultimately have "write_bytes a ds f (b + of_nat i) = f (b + of_nat i)" if "i < 4" for i using write_bytes_at that by (simp add: not_less [symmetric])
  then have "map (\<lambda>i. write_bytes a ds f (b + of_nat i)) [0..<4] = map (\<lambda>i. f (b + of_nat i)) [0..<4]" by (intro map_cong) simp_all
  then show ?thesis unfolding read32_def read_bytes_def by (rule arg_cong)
qed

text \<open>The registers with an effect, in the order in which the code tests them, and those that the code only stores.\<close>

definition registers :: "pm_params \<Rightarrow> u64 list" where
  "registers P = [PIM_DEBUG_ADDR P, PIM_ERROR_ADDR P, PIM_INTR_ADDR P, PIM_SLICETABLE_ADDR P, PIM_SLICECOUNT_ADDR P, PIM_SLICEVSTART_ADDR P, PIM_DMA_NUMBYTES_ADDR P,
     PIM_DMA_MEM_ADDR_ADDR P, PIM_DMA_SPM_ADDR_ADDR P, PIM_COPROCESSOR_CMD_ADDR P, PIM_DMA_COMMAND_ADDR P, PIM_DMA_CLI_ADDR P, HMC_ATOMIC_INCR_ADDR P, PIM_DTLB_IDEAL_REFILL_ADDR P,
     PIM_M5_ADDR P, PIM_M5_D1_ADDR P, PIM_M5_D2_ADDR P]"

definition params_ok :: "pm_params \<Rightarrow> bool" where
  "params_ok P \<longleftrightarrow> pim_arch P = 32 \<and> distinct (registers P) \<and> apart (PIM_M5_D1_ADDR P) (PIM_M5_D2_ADDR P)"

definition in_memory :: "amem \<Rightarrow> u64 \<Rightarrow> nat \<Rightarrow> bool" where
  "in_memory m a k \<longleftrightarrow> isSubset (AddrRange a (a + of_nat k - 1)) (mem_range m) = Some True"

text \<open>No reservation is held and the memory contains the registers.\<close>

definition mem_ready :: "pm_params \<Rightarrow> amem \<Rightarrow> bool" where
  "mem_ready P m \<longleftrightarrow> lockedAddrList m = [] \<and> (\<forall>a \<in> set (registers P). in_memory m a 1 \<and> in_memory m a 4)"

definition reg_write :: "u64 \<Rightarrow> u8 list \<Rightarrow> dev_op" where
  "reg_write a ds = Mem_access (mk_packet WriteReq a ds False 0)"

definition reg_stored :: "u64 \<Rightarrow> u8 list \<Rightarrow> pim_dev \<Rightarrow> pim_dev" where
  "reg_stored a ds s = s\<lparr>pm := count_write (mk_packet WriteReq a ds False 0) ((pm s)\<lparr>pmem := write_bytes a ds (pmem (pm s))\<rparr>)\<rparr>"

lemma reg_stored_simps [simp]: "dtlb (reg_stored a ds s) = dtlb s" "engine (reg_stored a ds s) = engine s" "host_side (reg_stored a ds s) = host_side s" "dma_num_bytes (reg_stored a ds s) = dma_num_bytes s"
  "dma_mem_addr (reg_stored a ds s) = dma_mem_addr s" "dma_spm_addr (reg_stored a ds s) = dma_spm_addr s" "pmem (pm (reg_stored a ds s)) = write_bytes a ds (pmem (pm s))"
  "mem_ready P (pm (reg_stored a ds s)) = mem_ready P (pm s)" "locks_ok (pm (reg_stored a ds s)) = locks_ok (pm s)"
  by (simp_all add: reg_stored_def count_write_def mem_ready_def in_memory_def locks_ok_def)

lemma reg_write_step:
  assumes "mem_ready P (pm s2)" and "a \<in> set (registers P)" and "length ds = 1 \<or> length ds = 4"
    and "write_register P TP F timing now (mk_packet WriteReq a ds False 0) s = Some s1" and "write_sim_register P now (mk_packet WriteReq a ds False 0) s1 = Some s2"
  shows "dev_step P TP F timing now (reg_write a ds) s = Some (reg_stored a ds s2)"
proof -
  have "in_memory (pm s2) a (length ds)" "lockedAddrList (pm s2) = []" using assms(1-3) unfolding mem_ready_def by auto
  then have "access (f_add F) (mk_packet WriteReq a ds False 0) (pm s2) = Some (mk_packet WriteReq a ds False 0, pm (reg_stored a ds s2))"
    by (simp add: access_def write_access_def writeOK_def mk_packet_def in_memory_def reg_stored_def)
  then show ?thesis using assms(4,5) by (simp add: dev_step_def reg_write_def pim_recvAtomic_def Let_def) (simp add: mk_packet_def reg_stored_def)
qed

text \<open>The registers of the TLB, of the DMA and of the flush.\<close>

lemma reg_writes:
  fixes v :: u32
  assumes P: "params_ok P" and M: "mem_ready P (pm s)"
  shows "dev_step P TP F timing now (reg_write (PIM_SLICETABLE_ADDR P) (bytes_of 4 v)) s = Some (reg_stored (PIM_SLICETABLE_ADDR P) (bytes_of 4 v) (s\<lparr>dtlb := (dtlb s)\<lparr>slicetable_ptr := ucast v\<rparr>\<rparr>))"
    "dev_step P TP F timing now (reg_write (PIM_SLICECOUNT_ADDR P) (bytes_of 4 v)) s = Some (reg_stored (PIM_SLICECOUNT_ADDR P) (bytes_of 4 v) (s\<lparr>dtlb := (dtlb s)\<lparr>slicecount := ucast v\<rparr>\<rparr>))"
    "dev_step P TP F timing now (reg_write (PIM_SLICEVSTART_ADDR P) (bytes_of 4 v)) s = Some (reg_stored (PIM_SLICEVSTART_ADDR P) (bytes_of 4 v) (s\<lparr>dtlb := (dtlb s)\<lparr>slicevstart := ucast v\<rparr>\<rparr>))"
    "dev_step P TP F timing now (reg_write (PIM_DMA_NUMBYTES_ADDR P) (bytes_of 4 v)) s = Some (reg_stored (PIM_DMA_NUMBYTES_ADDR P) (bytes_of 4 v) (s\<lparr>dma_num_bytes := ucast v\<rparr>))"
    "dev_step P TP F timing now (reg_write (PIM_DMA_MEM_ADDR_ADDR P) (bytes_of 4 v)) s = Some (reg_stored (PIM_DMA_MEM_ADDR_ADDR P) (bytes_of 4 v) (s\<lparr>dma_mem_addr := ucast v\<rparr>))"
    "dev_step P TP F timing now (reg_write (PIM_DMA_SPM_ADDR_ADDR P) (bytes_of 4 v)) s = Some (reg_stored (PIM_DMA_SPM_ADDR_ADDR P) (bytes_of 4 v) (s\<lparr>dma_spm_addr := ucast v\<rparr>))"
    "dev_step P TP F timing now (reg_write (PIM_M5_D1_ADDR P) (bytes_of 4 v)) s = Some (reg_stored (PIM_M5_D1_ADDR P) (bytes_of 4 v) (s))"
    "dev_step P TP F timing now (reg_write (PIM_M5_D2_ADDR P) (bytes_of 4 v)) s = Some (reg_stored (PIM_M5_D2_ADDR P) (bytes_of 4 v) (s))"
proof -
  have d: "distinct (registers P)" and a: "pim_arch P div 8 = 4" using P by (simp_all add: params_ok_def)
  have e: "distinct (rev (registers P))" using d by simp
  note n = d [unfolded registers_def distinct.simps list.set insert_iff empty_iff de_Morgan_disj]
    e [unfolded registers_def rev.simps append.simps distinct.simps list.set insert_iff empty_iff de_Morgan_disj]
  note w = write_register_def write_sim_register_def mk_packet_def Let_def mem_packet.simps a length_bytes_of word_of_bytes_of
  show "dev_step P TP F timing now (reg_write (PIM_SLICETABLE_ADDR P) (bytes_of 4 v)) s = Some (reg_stored (PIM_SLICETABLE_ADDR P) (bytes_of 4 v) (s\<lparr>dtlb := (dtlb s)\<lparr>slicetable_ptr := ucast v\<rparr>\<rparr>))"
  proof (rule reg_write_step)
    show "write_register P TP F timing now (mk_packet WriteReq (PIM_SLICETABLE_ADDR P) (bytes_of 4 v) False 0) s = Some (s\<lparr>dtlb := (dtlb s)\<lparr>slicetable_ptr := ucast v\<rparr>\<rparr>)" using n by (simp add: w)
    show "write_sim_register P now (mk_packet WriteReq (PIM_SLICETABLE_ADDR P) (bytes_of 4 v) False 0) (s\<lparr>dtlb := (dtlb s)\<lparr>slicetable_ptr := ucast v\<rparr>\<rparr>) = Some (s\<lparr>dtlb := (dtlb s)\<lparr>slicetable_ptr := ucast v\<rparr>\<rparr>)" using n by (simp add: w)
  qed (use M in \<open>simp_all add: registers_def length_bytes_of\<close>)
  show "dev_step P TP F timing now (reg_write (PIM_SLICECOUNT_ADDR P) (bytes_of 4 v)) s = Some (reg_stored (PIM_SLICECOUNT_ADDR P) (bytes_of 4 v) (s\<lparr>dtlb := (dtlb s)\<lparr>slicecount := ucast v\<rparr>\<rparr>))"
  proof (rule reg_write_step)
    show "write_register P TP F timing now (mk_packet WriteReq (PIM_SLICECOUNT_ADDR P) (bytes_of 4 v) False 0) s = Some (s\<lparr>dtlb := (dtlb s)\<lparr>slicecount := ucast v\<rparr>\<rparr>)" using n by (simp add: w)
    show "write_sim_register P now (mk_packet WriteReq (PIM_SLICECOUNT_ADDR P) (bytes_of 4 v) False 0) (s\<lparr>dtlb := (dtlb s)\<lparr>slicecount := ucast v\<rparr>\<rparr>) = Some (s\<lparr>dtlb := (dtlb s)\<lparr>slicecount := ucast v\<rparr>\<rparr>)" using n by (simp add: w)
  qed (use M in \<open>simp_all add: registers_def length_bytes_of\<close>)
  show "dev_step P TP F timing now (reg_write (PIM_SLICEVSTART_ADDR P) (bytes_of 4 v)) s = Some (reg_stored (PIM_SLICEVSTART_ADDR P) (bytes_of 4 v) (s\<lparr>dtlb := (dtlb s)\<lparr>slicevstart := ucast v\<rparr>\<rparr>))"
  proof (rule reg_write_step)
    show "write_register P TP F timing now (mk_packet WriteReq (PIM_SLICEVSTART_ADDR P) (bytes_of 4 v) False 0) s = Some (s\<lparr>dtlb := (dtlb s)\<lparr>slicevstart := ucast v\<rparr>\<rparr>)" using n by (simp add: w)
    show "write_sim_register P now (mk_packet WriteReq (PIM_SLICEVSTART_ADDR P) (bytes_of 4 v) False 0) (s\<lparr>dtlb := (dtlb s)\<lparr>slicevstart := ucast v\<rparr>\<rparr>) = Some (s\<lparr>dtlb := (dtlb s)\<lparr>slicevstart := ucast v\<rparr>\<rparr>)" using n by (simp add: w)
  qed (use M in \<open>simp_all add: registers_def length_bytes_of\<close>)
  show "dev_step P TP F timing now (reg_write (PIM_DMA_NUMBYTES_ADDR P) (bytes_of 4 v)) s = Some (reg_stored (PIM_DMA_NUMBYTES_ADDR P) (bytes_of 4 v) (s\<lparr>dma_num_bytes := ucast v\<rparr>))"
  proof (rule reg_write_step)
    show "write_register P TP F timing now (mk_packet WriteReq (PIM_DMA_NUMBYTES_ADDR P) (bytes_of 4 v) False 0) s = Some (s\<lparr>dma_num_bytes := ucast v\<rparr>)" using n by (simp add: w)
    show "write_sim_register P now (mk_packet WriteReq (PIM_DMA_NUMBYTES_ADDR P) (bytes_of 4 v) False 0) (s\<lparr>dma_num_bytes := ucast v\<rparr>) = Some (s\<lparr>dma_num_bytes := ucast v\<rparr>)" using n by (simp add: w)
  qed (use M in \<open>simp_all add: registers_def length_bytes_of\<close>)
  show "dev_step P TP F timing now (reg_write (PIM_DMA_MEM_ADDR_ADDR P) (bytes_of 4 v)) s = Some (reg_stored (PIM_DMA_MEM_ADDR_ADDR P) (bytes_of 4 v) (s\<lparr>dma_mem_addr := ucast v\<rparr>))"
  proof (rule reg_write_step)
    show "write_register P TP F timing now (mk_packet WriteReq (PIM_DMA_MEM_ADDR_ADDR P) (bytes_of 4 v) False 0) s = Some (s\<lparr>dma_mem_addr := ucast v\<rparr>)" using n by (simp add: w)
    show "write_sim_register P now (mk_packet WriteReq (PIM_DMA_MEM_ADDR_ADDR P) (bytes_of 4 v) False 0) (s\<lparr>dma_mem_addr := ucast v\<rparr>) = Some (s\<lparr>dma_mem_addr := ucast v\<rparr>)" using n by (simp add: w)
  qed (use M in \<open>simp_all add: registers_def length_bytes_of\<close>)
  show "dev_step P TP F timing now (reg_write (PIM_DMA_SPM_ADDR_ADDR P) (bytes_of 4 v)) s = Some (reg_stored (PIM_DMA_SPM_ADDR_ADDR P) (bytes_of 4 v) (s\<lparr>dma_spm_addr := ucast v\<rparr>))"
  proof (rule reg_write_step)
    show "write_register P TP F timing now (mk_packet WriteReq (PIM_DMA_SPM_ADDR_ADDR P) (bytes_of 4 v) False 0) s = Some (s\<lparr>dma_spm_addr := ucast v\<rparr>)" using n by (simp add: w)
    show "write_sim_register P now (mk_packet WriteReq (PIM_DMA_SPM_ADDR_ADDR P) (bytes_of 4 v) False 0) (s\<lparr>dma_spm_addr := ucast v\<rparr>) = Some (s\<lparr>dma_spm_addr := ucast v\<rparr>)" using n by (simp add: w)
  qed (use M in \<open>simp_all add: registers_def length_bytes_of\<close>)
  show "dev_step P TP F timing now (reg_write (PIM_M5_D1_ADDR P) (bytes_of 4 v)) s = Some (reg_stored (PIM_M5_D1_ADDR P) (bytes_of 4 v) (s))"
  proof (rule reg_write_step)
    show "write_register P TP F timing now (mk_packet WriteReq (PIM_M5_D1_ADDR P) (bytes_of 4 v) False 0) s = Some (s)" using n by (simp add: w)
    show "write_sim_register P now (mk_packet WriteReq (PIM_M5_D1_ADDR P) (bytes_of 4 v) False 0) (s) = Some (s)" using n by (simp add: w)
  qed (use M in \<open>simp_all add: registers_def length_bytes_of\<close>)
  show "dev_step P TP F timing now (reg_write (PIM_M5_D2_ADDR P) (bytes_of 4 v)) s = Some (reg_stored (PIM_M5_D2_ADDR P) (bytes_of 4 v) (s))"
  proof (rule reg_write_step)
    show "write_register P TP F timing now (mk_packet WriteReq (PIM_M5_D2_ADDR P) (bytes_of 4 v) False 0) s = Some (s)" using n by (simp add: w)
    show "write_sim_register P now (mk_packet WriteReq (PIM_M5_D2_ADDR P) (bytes_of 4 v) False 0) (s) = Some (s)" using n by (simp add: w)
  qed (use M in \<open>simp_all add: registers_def length_bytes_of\<close>)
qed

lemma command_writes:
  assumes P: "params_ok P" and M: "mem_ready P (pm s)"
  shows "dma_command P TP timing now b s = Some s1 \<Longrightarrow> dev_step P TP F timing now (reg_write (PIM_DMA_COMMAND_ADDR P) [b]) s = Some (reg_stored (PIM_DMA_COMMAND_ADDR P) [b] s1)"
    "ask_host_to_flush_the_caches P s = Some s1 \<Longrightarrow> dev_step P TP F timing now (reg_write (PIM_M5_ADDR P) [0x46]) s = Some (reg_stored (PIM_M5_ADDR P) [0x46] s1)"
proof -
  have d: "distinct (registers P)" using P by (simp add: params_ok_def)
  have e: "distinct (rev (registers P))" using d by simp
  note n = d [unfolded registers_def distinct.simps list.set insert_iff empty_iff de_Morgan_disj]
    e [unfolded registers_def rev.simps append.simps distinct.simps list.set insert_iff empty_iff de_Morgan_disj]
  note w = write_register_def write_sim_register_def mk_packet_def Let_def mem_packet.simps
  show "dev_step P TP F timing now (reg_write (PIM_DMA_COMMAND_ADDR P) [b]) s = Some (reg_stored (PIM_DMA_COMMAND_ADDR P) [b] s1)" if r: "dma_command P TP timing now b s = Some s1"
  proof (rule reg_write_step)
    have "pm s1 = pm s \<or> (\<exists>v. pm s1 = write_mem_1byte (PIM_DMA_STATUS_ADDR P) v (pm s))"
      using r by (auto simp: dma_command_def Let_def bind_eq_Some_conv split: if_splits)
    then show "mem_ready P (pm s1)" using M by (auto simp: mem_ready_def in_memory_def write_mem_1byte_def)
    show "write_register P TP F timing now (mk_packet WriteReq (PIM_DMA_COMMAND_ADDR P) [b] False 0) s = Some s1" using n r by (simp add: w)
    show "write_sim_register P now (mk_packet WriteReq (PIM_DMA_COMMAND_ADDR P) [b] False 0) s1 = Some s1" using n by (simp add: w)
  qed (simp_all add: registers_def)
  show "dev_step P TP F timing now (reg_write (PIM_M5_ADDR P) [0x46]) s = Some (reg_stored (PIM_M5_ADDR P) [0x46] s1)" if r: "ask_host_to_flush_the_caches P s = Some s1"
  proof (rule reg_write_step)
    show "mem_ready P (pm s1)" using M r by (auto simp: ask_host_to_flush_the_caches_def)
    show "write_register P TP F timing now (mk_packet WriteReq (PIM_M5_ADDR P) [0x46] False 0) s = Some s" using n by (simp add: w)
    show "write_sim_register P now (mk_packet WriteReq (PIM_M5_ADDR P) [0x46] False 0) s = Some s1" using n r by (simp add: w m5_command_def)
  qed (simp_all add: registers_def)
qed

text \<open>What the driver writes to flush a range.\<close>

definition flush_writes :: "pm_params \<Rightarrow> u32 \<times> u32 \<Rightarrow> dev_op list" where
  "flush_writes P r = [reg_write (PIM_M5_D1_ADDR P) (bytes_of 4 (fst r)), reg_write (PIM_M5_D2_ADDR P) (bytes_of 4 (snd r)), reg_write (PIM_M5_ADDR P) [0x46]]"

lemma dev_run_append: "dev_run P TP F timing (xs @ ys) s = Option.bind (dev_run P TP F timing xs s) (dev_run P TP F timing ys)"
proof (induction xs arbitrary: s)
  case (Cons x xs)
  then show ?case by (cases x; cases "dev_step P TP F timing (fst x) (snd x) s") simp_all
qed simp

lemma flush_writes_run:
  assumes P: "params_ok P" and M: "mem_ready P (pm s)" and h: "ask_host_to_flush (ucast a) (ucast b) (host_side s) = Some h"
  shows "\<exists>s'. dev_run P TP F timing (map (Pair now) (flush_writes P (a, b))) s = Some s' \<and> mem_ready P (pm s') \<and> dtlb s' = dtlb s \<and> engine s' = engine s \<and> host_side s' = h"
proof -
  let ?s1 = "reg_stored (PIM_M5_D1_ADDR P) (bytes_of 4 a) s"
  let ?s2 = "reg_stored (PIM_M5_D2_ADDR P) (bytes_of 4 b) ?s1"
  have ap: "apart (PIM_M5_D1_ADDR P) (PIM_M5_D2_ADDR P)" "pim_arch P = 32" using P by (simp_all add: params_ok_def)
  then have ap2: "apart (PIM_M5_D2_ADDR P) (PIM_M5_D1_ADDR P)" by (simp add: apart_def)
  have "read_mem_1word P (PIM_M5_D1_ADDR P) (pmem (pm ?s2)) = ucast a" "read_mem_1word P (PIM_M5_D2_ADDR P) (pmem (pm ?s2)) = ucast b"
    using read32_other [OF ap2, of "bytes_of 4 b"] ap(2) by (simp_all add: read_mem_1word_def read32_write32 length_bytes_of del: bytes_of.simps)
  then have f: "ask_host_to_flush_the_caches P ?s2 = Some (?s2\<lparr>host_side := h\<rparr>)" using h by (simp add: ask_host_to_flush_the_caches_def)
  have m: "mem_ready P (pm ?s1)" "mem_ready P (pm ?s2)" using M by simp_all
  have "dev_run P TP F timing (map (Pair now) (flush_writes P (a, b))) s = Some (reg_stored (PIM_M5_ADDR P) [0x46] (?s2\<lparr>host_side := h\<rparr>))"
    using reg_writes(7) [OF P M] reg_writes(8) [OF P m(1)] command_writes(2) [OF P m(2) f] by (simp add: flush_writes_def)
  then show ?thesis using m(2) by simp
qed

subsection \<open>A device\<close>

definition ex_params :: pm_params where
  "ex_params = \<lparr>PIM_ADDRESS_BASE = 0x1000, PIM_DEBUG_ADDR = 0x1004, PIM_ERROR_ADDR = 0x1002, PIM_INTR_ADDR = 0x1003, PIM_SLICETABLE_ADDR = 0x1008, PIM_SLICECOUNT_ADDR = 0x100C,
     PIM_SLICEVSTART_ADDR = 0x1010, PIM_M5_ADDR = 0x1005, PIM_M5_D1_ADDR = 0x1014, PIM_M5_D2_ADDR = 0x1018, PIM_VREG_ADDR = 0x1800, PIM_VREG_SIZE = 0x100, PIM_SREG_ADDR = 0x1100,
     PIM_DTLB_IDEAL_REFILL_ADDR = 0x101C, PIM_DMA_MEM_ADDR_ADDR = 0x1020, PIM_DMA_SPM_ADDR_ADDR = 0x1024, PIM_DMA_NUMBYTES_ADDR = 0x1028, PIM_DMA_COMMAND_ADDR = 0x102C, PIM_DMA_CLI_ADDR = 0x102D,
     PIM_DMA_STATUS_ADDR = 0x102E, PIM_COPROCESSOR_CMD_ADDR = 0x102F, HMC_ATOMIC_INCR_ADDR = 0x1030, pim_arch = 32\<rparr>"

definition ex_dev :: pim_dev where
  "ex_dev = \<lparr>pm = ex_mem, dtlb = tlb_of 0x80000 0x4000, engine = ethz_DMA, dev_cpu = \<lparr>interrupts = (\<lambda>_. False), suspended = False\<rparr>, host_side = ex_host,
     dma_num_bytes = 0, dma_mem_addr = 0, dma_spm_addr = 0, debug_out = [], prev_time_stamp = 0, prev_time_stamp_id = 0x3F, packet_log = False\<rparr>"

definition ex_fpu :: fpu where
  "ex_fpu = \<lparr>f_of_int = id, f_millions = id, f_to_int = id, f_div = (\<lambda>x y. x div y), f_mul = (*), f_add = (+), f_sub = (-), f_neg = uminus, f_less = (\<lambda>x y. x < y), f_le = (\<lambda>x y. x \<le> y),
     f_one = 1, f_zero = 0, f_rank = id\<rparr>"

lemma ex_dev_wf: "dev_wf 2 ex_dev"
  by (simp add: dev_wf_def ex_dev_def tlb_wf_def tlb_of_def dma_wf_def ethz_DMA_def locks_ok_def ex_mem_def ex_host_coherent)

definition ex_ops :: "(u64 \<times> dev_op) list" where
  "ex_ops = [(1, reg_write 0x1028 (bytes_of 4 (16 :: u32))), (2, reg_write 0x1020 (bytes_of 4 (0x4000 :: u32))), (3, reg_write 0x1024 (bytes_of 4 (0x800 :: u32))), (4, reg_write 0x102C [1])]"

lemma ex_params_ok: "params_ok ex_params" "mem_ready ex_params ex_mem"
  by (simp_all add: params_ok_def registers_def ex_params_def apart_def mem_ready_def ex_mem_def in_memory_def isSubset_def contains_def interleaved_def AddrRange_def)

text \<open>A transfer is started through the registers.\<close>

lemma ex_dma_run: "\<exists>s. dev_run ex_params (params_of 2) ex_fpu True ex_ops ex_dev = Some s \<and> dma_resources (engine s) = 1 \<and> pmem (pm s) 0x102E = 1"
proof -
  note R = reg_writes [OF ex_params_ok(1)]
  let ?s1 = "reg_stored 0x1028 (bytes_of 4 (16 :: u32)) (ex_dev\<lparr>dma_num_bytes := 16\<rparr>)"
  let ?s2 = "reg_stored 0x1020 (bytes_of 4 (0x4000 :: u32)) (?s1\<lparr>dma_mem_addr := 0x4000\<rparr>)"
  let ?s3 = "reg_stored 0x1024 (bytes_of 4 (0x800 :: u32)) (?s2\<lparr>dma_spm_addr := 0x800\<rparr>)"
  have m: "mem_ready ex_params (pm ex_dev)" "mem_ready ex_params (pm ?s1)" "mem_ready ex_params (pm ?s2)" "mem_ready ex_params (pm ?s3)"
    using ex_params_ok(2) by (simp_all add: ex_dev_def reg_stored_def count_write_def mem_ready_def in_memory_def)
  have c: "(ucast (16 :: u32) :: u64) = 16" "(ucast (0x4000 :: u32) :: u64) = 0x4000" "(ucast (0x800 :: u32) :: u64) = 0x800" by simp_all
  have w: "dev_wf 2 ?s3" using ex_dev_wf by (simp add: dev_wf_def)
  have p: "PIM_DMA_NUMBYTES_ADDR ex_params = 0x1028" "PIM_DMA_MEM_ADDR_ADDR ex_params = 0x1020" "PIM_DMA_SPM_ADDR_ADDR ex_params = 0x1024" "PIM_DMA_COMMAND_ADDR ex_params = 0x102C"
    "PIM_DMA_STATUS_ADDR ex_params = 0x102E" "PIM_ADDRESS_BASE ex_params = 0x1000" "PIM_VREG_ADDR ex_params = 0x1800" "PIM_VREG_SIZE ex_params = 0x100" by (simp_all add: ex_params_def)
  have en: "engine ex_dev = ethz_DMA" by (simp add: ex_dev_def)
  obtain d where d: "initiate_read True (params_of 2) 4 (table_mem ?s3) 0x1800 0x4000 16 1 (engine ?s3, dtlb ?s3) = Some (d, dtlb ?s3)" "dma_resources d = 1" "dma_status d = 1"
    using initiate_new [of "engine ?s3" 1 True True "params_of 2" 4 "table_mem ?s3" "0x1800" "0x4000" 16 "dtlb ?s3"] w by (auto simp: dev_wf_def en ethz_DMA_def)
  then obtain s4 where s4: "dma_command ex_params (params_of 2) True 4 1 ?s3 = Some s4" "dma_resources (engine s4) = 1" "pmem (pm s4) 0x102E = 1"
    by (simp add: dma_command_def p Let_def write_mem_1byte_def)
  have "dev_run ex_params (params_of 2) ex_fpu True ex_ops ex_dev = Some (reg_stored 0x102C [1] s4)"
    using R(4) [OF m(1), of "params_of 2" ex_fpu True 1 16] R(5) [OF m(2), of "params_of 2" ex_fpu True 2 "0x4000"] R(6) [OF m(3), of "params_of 2" ex_fpu True 3 "0x800"]
      command_writes(1) [OF ex_params_ok(1) m(4) s4(1), of ex_fpu]
    by (simp add: ex_ops_def p c)
  then show ?thesis using s4 by simp
qed



end
