(* ===== verification/Spec2Isabelle.thy ===== *)
theory Spec2Isabelle
  imports FC_ArrayQueue FC_DoubleQueue FC_List FC_PartSkipList PIM_List PIM_SkipList PIM_Queue PIM_Task PIM_Driver PIM_TLB PIM_DMA Abstract_Mem PIM_Handshake Cache_Flush PIM_Memory
begin

text \<open>
  Verification of the near-memory computing software and device models of Brown-SMCSim. All paths below are under \<open>src/SMC\<close>.

  \<^bold>\<open>The program.\<close> A host runs concurrent data structures; a processor in memory (PIM) runs kernels on behalf of the host; a simulator (gem5, with devices added in the repository) runs both.
  A host program either keeps its structure in main memory, where the threads combine their operations (\<open>SW/HOST/app/multithread_fc_*\<close>, \<open>multithread_mainmem_linkedlist\<close>), or it hands every operation
  to a PIM kernel through request slots in the vector registers of the device (\<open>multithread_nonstop_pim_*\<close>, \<open>multithread_pim_queue\<close>, with the kernels of \<open>SW/PIM/kernels\<close>).
  To offload, the host describes its data by a task (\<open>SW/HOST/api\<close>), the driver pins the pages, builds the slice table, writes the device registers and flushes the caches
  (\<open>SW/HOST/driver\<close>), the resident code of the PIM takes the command (\<open>SW/PIM/resident\<close>), and the kernel reaches the data through the TLB and the DMA engine of the
  device (\<open>GEM5/gem5/src/mem/ethz_*\<close>, \<open>dev/ethz_dma\<close>).

  \<^bold>\<open>Conventions.\<close> Machine integers are words of their width; \<open>int\<close> and \<open>unsigned\<close> of the 32-bit host and PIM are \<open>u32\<close>, simulator addresses \<open>u64\<close>. Objects are records, pointers are addresses into an explicit
  heap or into the vault. \<^const>\<open>None\<close> is the outcome of an invalid access, a failed assertion, a panic or an exit, and of a loop that does not end. Code outside the
  repository (the allocator of the C++ library, \<open>rand\<close>, \<open>std::sort\<close>, the services of the Linux kernel, floating point arithmetic) is an argument of the definitions that use it.

  \<^bold>\<open>Theories\<close>, in the order of the system:

  \<^item> \<open>SMC_Prelude\<close>: words, the heap, chains of links. \<open>Ring\<close>, \<open>Sorted_Chain\<close>, \<open>Skip_Chain\<close>: circular arrays, sorted lists between sentinels and skip lists, each for any memory
    that has the links (locale \<open>link_memory\<close>, interpreted on the C++ heap and on the vault).

  \<^item> \<open>FC_Slots\<close>: the publication list, the combiner and \<open>fc_operation\<close>, for any sequential object (locale \<open>seq_object\<close>). \<open>FC_Double\<close>: the variant with two combiners (locale \<open>double_object\<close>).
    \<open>FC_Queue\<close> (\<open>FCQueue.hh\<close>), \<open>FC_ArrayQueue\<close> (\<open>FCArrayQueue.hh\<close>, \<open>DoubleFCArrayQueue.hh\<close>), \<open>FC_DoubleQueue\<close> (\<open>DoubleFCQueue.hh\<close>), \<open>FC_List\<close> (\<open>FCLinkedList.h\<close>), \<open>FC_SkipList\<close> (\<open>FCSkipList.hh\<close>) and
    \<open>FC_PartSkipList\<close> (\<open>FCPartSkipList.hh\<close>) are the objects. Their theorems say that any sequence of operations returns what the abstract queue or set returns and leaves its contents, that a pass of the combiner
    serves every pending request once, and under which conditions; where the code deviates (a pop that empties the double queue, the destructor) the theorem states what happens.

  \<^item> \<open>PIM_Requests\<close>: the bit fields of the request slots, which host and kernel encode and decode. \<open>PIM_Vault\<close>, \<open>PIM_SkipVault\<close>: the flat memory of a kernel, its block allocator (locale \<open>block_layout\<close>) and skip lists in it
    (locale \<open>skip_layout\<close>, interpreted on the layouts of both kernels). \<open>PIM_Sort\<close>: the quicksort of the list kernel. \<open>PIM_List\<close>, \<open>PIM_SkipList\<close>, \<open>PIM_Queue\<close>: the kernels
    \<open>clean_linked_list.c\<close>, \<open>clean_skiplist.c\<close>, \<open>clean_queue.c\<close>, \<open>singlepim_queue.c\<close> with the host side of their protocol. The theorems are the correctness of a pass and of whole sessions against sets
    and queues, and the failures of the allocator, of the printing routine and of a full vault.

  \<^item> \<open>PIM_Task\<close>: \<open>pim_task.cc\<close> and the offload of \<open>pim_api.cc\<close>; the page ranges cover exactly the data. \<open>PIM_Driver\<close>: \<open>pim.c\<close>; the slice table describes every page, and the errors that the ioctl ignores.
    \<open>PIM_Handshake\<close>: the resident loop against the polling host, as an interleaving of single register accesses with the interrupt lines of the processor; every command runs exactly once, it completes unless its wake-up is lost, and
    both races that lose it are reachable.

  \<^item> \<open>Addr_Range\<close>: \<open>base/addr_range.hh\<close>; interleaved ranges partition an interval. \<open>PIM_TLB\<close>: \<open>ethz_tlb.cc\<close>; every sequence of accesses is translated as the slice table says, through refills and evictions, and a miss in timing mode makes progress.
    \<open>PIM_DMA\<close>: \<open>ethz_dma.cc\<close>; a transfer is split at slice borders, covers its bytes and completes, apart from the cases stated. \<open>Abstract_Mem\<close>: \<open>abstract_mem.cc\<close>; load-locked and store-conditional are
    atomic, apart from the gaps stated. \<open>Cache_Flush\<close>: the set-associative host caches and the flush of a range by the device; memory then holds what the host saw.
    \<open>PIM_Memory\<close>: \<open>ethz_pim_memory.cc\<close>; the registers drive the processor, the TLB, the DMA, the coprocessor and the flush, and every operation of the device as a whole keeps it well-formed.

  \<^bold>\<open>Interfaces.\<close> The combiner knows its object only by the laws of \<open>seq_object\<close>; the skip-list algorithms know their memory only by those of \<open>link_memory\<close>; the kernels know the vault by \<open>block_layout\<close>. The TLB
  theorems take the table that \<open>PIM_Driver\<close> proves to be built; the DMA works on the TLB of \<open>PIM_TLB\<close>.

  \<^bold>\<open>Loops and fuel.\<close> Loops over data are structural or have a termination proof. Loops that may not end (traversals of a linked structure, scans of the sort, the flush loop) are partial functions with \<^const>\<open>None\<close> for
  a run that does not return, and the theorems about them state that they return. The only bounds are arguments of \<open>walk\<close>, which the lemmas instantiate by the number of allocated nodes, an upper bound of
  the length of any chain.

  \<^bold>\<open>Not modelled.\<close> True parallelism inside the host structures: an operation of a thread runs with the combiner lock, so the theorems are about sequences of complete operations and of passes, and about interleavings only
  in the handshake. The timing of the simulator, its statistics beyond the counters of a memory access, checkpointing and the event queue. The MSHRs, write buffers and the coherence protocol of the
  caches: the flush is proved for caches that are coherent and quiet. The lock-free and lazy-list variants of the host programs, the other kernels of \<open>SW/PIM/kernels\<close>
  (matrices, graphs, tree search), the power model, scripts and configuration. The rest of gem5 is upstream code that the repository only carries along.
\<close>

end
